(* ===== verification/Prelude.thy ===== *)
theory Prelude
  imports Main "HOL-Library.AList" "HOL-Library.Sublist"
begin

text \<open>
  Shared vocabulary of the development.

  A Go map is an association list: \<open>map_of m k\<close> is the two-value read
  \<open>v, ok := m[k]\<close>, \<open>AList.update k v m\<close> is \<open>m[k] = v\<close> and \<open>AList.delete k m\<close> is
  \<open>delete(m, k)\<close>.  The order of the list stands for the order in which a
  \<open>range\<close> over the map visits it; Go leaves that order unspecified, and no lemma
  assumes anything about it.  \<open>gomap m\<close> says that the keys are distinct.

  A pointer is a natural number and a heap is a Go map from pointers to records.
\<close>

named_theorems gomap_simps \<open>rewriting of reads after writes of a Go map\<close>
named_theorems gomap_intros \<open>well-formedness of Go maps after writes\<close>

type_synonym ptr = nat

subsection \<open>Go maps\<close>

definition gomap :: "('k \<times> 'v) list \<Rightarrow> bool" where
  "gomap m \<longleftrightarrow> distinct (map fst m)"

lemma gomap_Nil [gomap_intros, simp]: "gomap []"
  by (simp add: gomap_def)

lemma gomap_update [gomap_intros]: "gomap m \<Longrightarrow> gomap (AList.update k v m)"
  by (simp add: gomap_def distinct_update)

lemma gomap_delete [gomap_intros]: "gomap m \<Longrightarrow> gomap (AList.delete k m)"
  by (simp add: gomap_def distinct_delete)

lemma gomap_filter [gomap_intros]: "gomap m \<Longrightarrow> gomap (filter P m)"
  by (auto simp: gomap_def distinct_map inj_on_def)

lemma gomap_singleton [simp]: "gomap [x]"
  by (simp add: gomap_def)

lemma map_of_update [gomap_simps]:
  "map_of (AList.update k v m) k' = (if k' = k then Some v else map_of m k')"
  by (simp add: update_conv')

lemma map_of_delete [gomap_simps]:
  "map_of (AList.delete k m) k' = (if k' = k then None else map_of m k')"
  by (simp add: delete_conv')

lemma gomap_map_of [gomap_simps]: "gomap m \<Longrightarrow> map_of m k = Some v \<longleftrightarrow> (k, v) \<in> set m"
  by (auto simp: gomap_def)

lemma map_of_filter_key:
  "map_of (filter (\<lambda>(k, v). P k) m) k = (if P k then map_of m k else None)"
  by (induction m) auto

lemma map_of_filter_gomap:
  assumes "gomap m"
  shows "map_of (filter (\<lambda>(k, v). P k v) m) k =
         (case map_of m k of None \<Rightarrow> None | Some v \<Rightarrow> if P k v then Some v else None)"
proof -
  have "\<And>v. map_of (filter (\<lambda>(k, v). P k v) m) k = Some v \<longleftrightarrow> (k, v) \<in> set m \<and> P k v"
    using gomap_filter [OF assms, of "\<lambda>(k, v). P k v"] by (auto simp: gomap_def)
  moreover have "\<And>v. map_of m k = Some v \<longleftrightarrow> (k, v) \<in> set m"
    using assms by (auto simp: gomap_def)
  ultimately have iff: "\<And>v. map_of (filter (\<lambda>(k, v). P k v) m) k = Some v \<longleftrightarrow> map_of m k = Some v \<and> P k v"
    by simp
  have none: "map_of (filter (\<lambda>(k, v). P k v) m) k = None"
    if "\<And>v. map_of (filter (\<lambda>(k, v). P k v) m) k \<noteq> Some v"
    using that by (meson not_None_eq)
  show ?thesis
  proof (cases "map_of m k")
    case None
    then show ?thesis using none iff by simp
  next
    case (Some a)
    show ?thesis
    proof (cases "P k a")
      case True
      then show ?thesis using iff [of a] Some by simp
    next
      case False
      then have "map_of (filter (\<lambda>(k, v). P k v) m) k = None" by (intro none) (use iff Some False in auto)
      with False Some show ?thesis by simp
    qed
  qed
qed

lemma length_update_present: "map_of m k \<noteq> None \<Longrightarrow> length (AList.update k v m) = length m"
  by (induction m) auto

lemma length_update_absent: "map_of m k = None \<Longrightarrow> length (AList.update k v m) = Suc (length m)"
  by (induction m) auto

lemma length_update_le: "length (AList.update k v m) \<le> Suc (length m)"
  by (induction m) auto

lemma update_absent_append: "map_of m k = None \<Longrightarrow> AList.update k v m = m @ [(k, v)]"
  by (induction m) auto

lemma length_delete_le [simp]: "length (AList.delete k m) \<le> length m"
  by (induction m) auto

lemma length_delete_present:
  "map_of m k \<noteq> None \<Longrightarrow> length (AList.delete k m) < length m"
proof (induction m)
  case (Cons a m)
  then show ?case
    by (cases "fst a = k") (auto simp: less_Suc_eq_le)
qed simp

lemma set_delete: "set (AList.delete k m) = {x \<in> set m. fst x \<noteq> k}"
  by (induction m) auto

lemma snd_set_update: "snd ` set (AList.update k v m) \<subseteq> insert v (snd ` set m)"
  by (induction m) auto

lemma fst_set_update [simp]: "fst ` set (AList.update k v m) = insert k (fst ` set m)"
  by (induction m) auto

text \<open>A missing key of a map of counters reads as the zero value.\<close>

definition zget :: "('k \<times> ('v::zero)) list \<Rightarrow> 'k \<Rightarrow> 'v" where
  "zget m k = (case map_of m k of None \<Rightarrow> 0 | Some v \<Rightarrow> v)"

lemma zget_update [gomap_simps]: "zget (AList.update k v m) k' = (if k' = k then v else zget m k')"
  by (simp add: zget_def gomap_simps)

lemma zget_delete [gomap_simps]: "zget (AList.delete k m) k' = (if k' = k then 0 else zget m k')"
  by (simp add: zget_def gomap_simps)

lemma zget_Nil [gomap_simps, simp]: "zget [] k = 0"
  by (simp add: zget_def)

subsection \<open>Lists\<close>

lemma distinct_append_new: "distinct xs \<Longrightarrow> x \<notin> set xs \<Longrightarrow> distinct (xs @ [x])"
  by simp

lemma removeAll_eq_filter: "removeAll x xs = filter (\<lambda>y. y \<noteq> x) xs"
  by (induction xs) auto

lemma dropWhile_eq_filter_sorted:
  assumes "sorted_wrt (\<lambda>x y. \<not> P x \<longrightarrow> \<not> P y) xs"
  shows "dropWhile P xs = filter (\<lambda>x. \<not> P x) xs"
  using assms
proof (induction xs)
  case (Cons x xs)
  show ?case
  proof (cases "P x")
    case False
    with Cons.prems have "\<forall>y \<in> set xs. \<not> P y" by auto
    with False show ?thesis by (simp add: filter_id_conv)
  qed (use Cons in auto)
qed simp

text \<open>The first element of least key: the shape of every \<open>best\<close> loop of the code.\<close>

lemma foldl_pick_in:
  "foldl (\<lambda>b e. if P e b then e else b) b es \<in> insert b (set es)"
proof (induction es arbitrary: b)
  case (Cons e es)
  show ?case using Cons.IH [of "if P e b then e else b"] by (auto split: if_splits)
qed simp

lemma foldl_pick_least:
  fixes key :: "'a \<Rightarrow> 'b::linorder"
  shows "key (foldl (\<lambda>b e. if key e < key b then e else b) b es) \<le> key b \<and>
         (\<forall>e \<in> set es. key (foldl (\<lambda>b e. if key e < key b then e else b) b es) \<le> key e)"
proof (induction es arbitrary: b)
  case (Cons e es)
  show ?case
    using Cons.IH [of "if key e < key b then e else b"] by (auto split: if_splits)
qed simp

end
