(* ===== verification/GoTime.thy ===== *)
theory GoTime
  imports Prelude
begin

text \<open>
  Go's \<open>time\<close> package, as far as the program uses it.

  A \<open>time.Time\<close> is its instant, the number of nanoseconds since the Unix epoch; the
  zero \<open>time.Time\<close> is the instant 0001-01-01T00:00:00Z, so that comparisons with an
  unset time come out as they do in Go.  A \<open>time.Duration\<close> is an \<open>int\<close> of nanoseconds;
  \<open>tsub\<close> saturates at the 64-bit bounds as \<open>Time.Sub\<close> does, and \<open>wrap64\<close> is the
  wrap-around of 64-bit arithmetic where the code can reach it.  Locations are kept out
  of times: every instant is rendered in UTC.
\<close>

type_synonym gotime = int
type_synonym duration = int

abbreviation millisecond :: duration where "millisecond \<equiv> 1000000"
abbreviation second :: duration where "second \<equiv> 1000000000"
abbreviation minute :: duration where "minute \<equiv> 60000000000"
abbreviation hour :: duration where "hour \<equiv> 3600000000000"
abbreviation day :: duration where "day \<equiv> 86400000000000"

definition zero_time :: gotime where
  "zero_time = -62135596800000000000"

definition is_zero :: "gotime \<Rightarrow> bool" where
  "is_zero t \<longleftrightarrow> t = zero_time"

lemma is_zero_zero_time [simp]: "is_zero zero_time"
  by (simp add: is_zero_def)

abbreviation dur_max :: duration where "dur_max \<equiv> 9223372036854775807"
abbreviation dur_min :: duration where "dur_min \<equiv> -9223372036854775808"

definition wrap64 :: "int \<Rightarrow> int" where
  "wrap64 x = (x + 2 ^ 63) mod 2 ^ 64 - 2 ^ 63"

lemma wrap64_id: "dur_min \<le> x \<Longrightarrow> x \<le> dur_max \<Longrightarrow> wrap64 x = x"
  by (simp add: wrap64_def)

text \<open>\<open>t.Sub(u)\<close>: the difference, saturated.\<close>

definition tsub :: "gotime \<Rightarrow> gotime \<Rightarrow> duration" where
  "tsub t u = max dur_min (min dur_max (t - u))"

lemma tsub_gt [simp]: "dur_min \<le> d \<Longrightarrow> d < dur_max \<Longrightarrow> d < tsub t u \<longleftrightarrow> d < t - u"
  by (auto simp: tsub_def max_def min_def)

lemma tsub_ge [simp]: "dur_min < d \<Longrightarrow> d \<le> dur_max \<Longrightarrow> d \<le> tsub t u \<longleftrightarrow> d \<le> t - u"
  by (auto simp: tsub_def max_def min_def)

lemma tsub_lt: "dur_min < d \<Longrightarrow> d \<le> dur_max \<Longrightarrow> tsub t u < d \<longleftrightarrow> t - u < d"
  by (auto simp: tsub_def max_def min_def)

lemma tsub_le: "dur_min \<le> d \<Longrightarrow> d < dur_max \<Longrightarrow> tsub t u \<le> d \<longleftrightarrow> t - u \<le> d"
  by (auto simp: tsub_def max_def min_def)

lemma tsub_mono: "t \<le> t' \<Longrightarrow> tsub t u \<le> tsub t' u"
  by (auto simp: tsub_def max_def min_def)

lemma tsub_antimono: "u \<le> u' \<Longrightarrow> tsub t u' \<le> tsub t u"
  by (auto simp: tsub_def max_def min_def)

lemma tsub_self [simp]: "tsub t t = 0"
  by (simp add: tsub_def)

subsection \<open>The civil calendar\<close>

definition leap :: "int \<Rightarrow> bool" where
  "leap y \<longleftrightarrow> y mod 4 = 0 \<and> (y mod 100 \<noteq> 0 \<or> y mod 400 = 0)"

text \<open>Days from 1970-01-01 to the first of January of year \<open>y\<close>.\<close>

definition days_to_year :: "int \<Rightarrow> int" where
  "days_to_year y = 365 * (y - 1970) + (y - 1969) div 4 - (y - 1901) div 100 + (y - 1601) div 400"

definition year_len :: "int \<Rightarrow> int" where
  "year_len y = (if leap y then 366 else 365)"

lemma div_step:
  fixes k x :: int
  assumes "0 < k"
  shows "(x + 1) div k = x div k + (if (x + 1) mod k = 0 then 1 else 0)"
proof -
  have x: "x = k * (x div k) + x mod k" and r: "0 \<le> x mod k" "x mod k < k"
    using assms by simp_all
  show ?thesis
  proof (cases "x mod k = k - 1")
    case True
    then have "x + 1 = k * (x div k + 1) + 0" using x by (simp add: distrib_left)
    then have "(x + 1) div k = x div k + 1" "(x + 1) mod k = 0"
      using int_div_pos_eq [of "x + 1" k "x div k + 1" 0] int_mod_pos_eq [of "x + 1" k "x div k + 1" 0] assms
      by simp_all
    then show ?thesis by simp
  next
    case False
    then have "x + 1 = k * (x div k) + (x mod k + 1)" "0 \<le> x mod k + 1" "x mod k + 1 < k"
      using x r by simp_all
    then have "(x + 1) div k = x div k" "(x + 1) mod k = x mod k + 1"
      using int_div_pos_eq [of "x + 1" k "x div k" "x mod k + 1"]
        int_mod_pos_eq [of "x + 1" k "x div k" "x mod k + 1"] by simp_all
    then show ?thesis using r by simp
  qed
qed

lemma mod_shift:
  fixes y :: int
  shows "(y - 1968) mod 4 = y mod 4" "(y - 1900) mod 100 = y mod 100" "(y - 1600) mod 400 = y mod 400"
  by (simp_all add: mod_eq_dvd_iff)

lemma mod_dvd_zero: "d dvd k \<Longrightarrow> y mod k = 0 \<Longrightarrow> y mod d = 0" for y :: int
  by (metis dvd_imp_mod_0 dvd_trans mod_0_imp_dvd)

lemma days_to_year_Suc: "days_to_year (y + 1) = days_to_year y + year_len y"
proof -
  have a: "(y - 1968) div 4 = (y - 1969) div 4 + (if y mod 4 = 0 then 1 else 0)"
    using div_step [of 4 "y - 1969"] by (simp add: mod_shift)
  have b: "(y - 1900) div 100 = (y - 1901) div 100 + (if y mod 100 = 0 then 1 else 0)"
    using div_step [of 100 "y - 1901"] by (simp add: mod_shift)
  have c: "(y - 1600) div 400 = (y - 1601) div 400 + (if y mod 400 = 0 then 1 else 0)"
    using div_step [of 400 "y - 1601"] by (simp add: mod_shift)
  have d1: "y mod 400 = 0 \<Longrightarrow> y mod 100 = 0" by (rule mod_dvd_zero [of 100 400]) simp_all
  have d2: "y mod 100 = 0 \<Longrightarrow> y mod 4 = 0" by (rule mod_dvd_zero [of 4 100]) simp_all
  have e: "y + 1 - 1969 = y - 1968" "y + 1 - 1901 = y - 1900" "y + 1 - 1601 = y - 1600" by simp_all
  show ?thesis
    unfolding days_to_year_def year_len_def leap_def e a b c
    using d1 d2 by (cases "y mod 400 = 0"; cases "y mod 100 = 0"; cases "y mod 4 = 0") simp_all
qed

lemma year_len_pos: "365 \<le> year_len y"
  by (simp add: year_len_def)

lemma days_to_year_strict: "y < y' \<Longrightarrow> days_to_year y < days_to_year y'"
proof (induction y' rule: int_gr_induct)
  case base
  then show ?case using days_to_year_Suc [of y] year_len_pos [of y] by simp
next
  case (step i)
  then show ?case using days_to_year_Suc [of i] year_len_pos [of i] by simp
qed

text \<open>The year of a day number, by search upwards from a year that is never too late.\<close>

function year_up :: "int \<Rightarrow> int \<Rightarrow> int" where
  "year_up y n = (if days_to_year (y + 1) \<le> n then year_up (y + 1) n else y)"
  by pat_completeness auto
termination
proof (relation "measure (\<lambda>(y, n). nat (n - days_to_year y))", goal_cases)
  case (2 y n)
  then show ?case using days_to_year_Suc [of y] year_len_pos [of y] by simp
qed (rule wf_measure)

declare year_up.simps [simp del]

definition year_of_day :: "int \<Rightarrow> int" where
  "year_of_day n = year_up (1969 + n * 400 div 146097) n"

lemma year_up_bounds:
  "days_to_year y \<le> n \<Longrightarrow> days_to_year (year_up y n) \<le> n \<and> n < days_to_year (year_up y n + 1)"
proof (induction y n rule: year_up.induct)
  case (1 y n)
  then show ?case
    by (cases "days_to_year (y + 1) \<le> n") (auto simp: year_up.simps [of y n])
qed

lemma year_start_low: "days_to_year (1969 + n * 400 div 146097) \<le> n"
proof -
  define k where "k = n * 400 div 146097"
  have "146097 * k \<le> 400 * n" unfolding k_def by linarith
  then show ?thesis
    unfolding days_to_year_def k_def [symmetric] by (simp add: algebra_simps)
qed

lemma year_of_day_bounds: "days_to_year (year_of_day n) \<le> n" "n < days_to_year (year_of_day n + 1)"
  using year_up_bounds [OF year_start_low] by (auto simp: year_of_day_def)

lemma year_of_day_unique:
  assumes "days_to_year y \<le> n" "n < days_to_year (y + 1)"
  shows "year_of_day n = y"
proof (rule ccontr)
  assume "year_of_day n \<noteq> y"
  then consider "year_of_day n + 1 \<le> y" | "y + 1 \<le> year_of_day n" by linarith
  then show False
  proof cases
    case 1
    then have "days_to_year (year_of_day n + 1) \<le> days_to_year y"
      using days_to_year_strict [of "year_of_day n + 1" y] by (cases "year_of_day n + 1 = y") auto
    with assms year_of_day_bounds [of n] show ?thesis by linarith
  next
    case 2
    then have "days_to_year (y + 1) \<le> days_to_year (year_of_day n)"
      using days_to_year_strict [of "y + 1" "year_of_day n"] by (cases "y + 1 = year_of_day n") auto
    with assms year_of_day_bounds [of n] show ?thesis by linarith
  qed
qed


fun month_lens :: "int \<Rightarrow> int list" where
  "month_lens y = [31, if leap y then 29 else 28, 31, 30, 31, 30, 31, 31, 30, 31, 30, 31]"

text \<open>The month (counted from \<open>m\<close>) and the day of month (from 1) of a day of the year.\<close>

fun month_walk :: "int list \<Rightarrow> int \<Rightarrow> int \<Rightarrow> int \<times> int" where
  "month_walk [] m r = (m, r + 1)"
| "month_walk (l # ls) m r = (if r < l \<or> ls = [] then (m, r + 1) else month_walk ls (m + 1) (r - l))"

definition civil_of_day :: "int \<Rightarrow> int \<times> int \<times> int" where
  "civil_of_day n = (let y = year_of_day n; (m, d) = month_walk (month_lens y) 1 (n - days_to_year y)
                     in (y, m, d))"

text \<open>
  The day number of a year, month and day of month; as \<open>time.Date\<close> does, a month outside
  1..12 carries into the year and any day of month counts on from the first.
\<close>

definition day_of_civil :: "int \<Rightarrow> int \<Rightarrow> int \<Rightarrow> int" where
  "day_of_civil y m d = (let y' = y + (m - 1) div 12; m' = (m - 1) mod 12
     in days_to_year y' + sum_list (take (nat m') (month_lens y')) + (d - 1))"

lemma month_walk_sum:
  "ls \<noteq> [] \<Longrightarrow> 0 \<le> r \<Longrightarrow> month_walk ls m r = (m', d) \<Longrightarrow>
     m \<le> m' \<and> m' < m + int (length ls) \<and> 1 \<le> d \<and> sum_list (take (nat (m' - m)) ls) + (d - 1) = r"
proof (induction ls arbitrary: m r)
  case (Cons l ls)
  show ?case
  proof (cases "r < l \<or> ls = []")
    case True
    then show ?thesis using Cons.prems by auto
  next
    case False
    then have ih: "m + 1 \<le> m' \<and> m' < m + 1 + int (length ls) \<and> 1 \<le> d \<and>
        sum_list (take (nat (m' - (m + 1))) ls) + (d - 1) = r - l"
      using Cons.IH [of "r - l" "m + 1"] Cons.prems by simp
    then have "nat (m' - m) = Suc (nat (m' - (m + 1)))" by linarith
    then show ?thesis using ih by simp
  qed
qed simp

lemma day_of_civil_of_day:
  assumes "civil_of_day n = (y, m, d)"
  shows "day_of_civil y m d = n" and "1 \<le> m \<and> m \<le> 12" and "1 \<le> d"
proof -
  obtain m' d' where w: "month_walk (month_lens (year_of_day n)) 1 (n - days_to_year (year_of_day n)) = (m', d')"
    by fastforce
  then have eq: "y = year_of_day n" "m = m'" "d = d'"
    using assms by (auto simp: civil_of_day_def Let_def)
  have b: "1 \<le> m' \<and> m' < 1 + int (length (month_lens (year_of_day n))) \<and> 1 \<le> d' \<and>
      sum_list (take (nat (m' - 1)) (month_lens (year_of_day n))) + (d' - 1) = n - days_to_year (year_of_day n)"
    by (rule month_walk_sum [OF _ _ w]) (use year_of_day_bounds [of n] in simp_all)
  then have r: "1 \<le> m' \<and> m' \<le> 12" by simp
  then show "1 \<le> m \<and> m \<le> 12" and "1 \<le> d" using b eq by auto
  have "(m' - 1) div 12 = 0" "(m' - 1) mod 12 = m' - 1" using r by auto
  then show "day_of_civil y m d = n"
    using b unfolding day_of_civil_def eq Let_def by simp
qed

text \<open>Sunday is 0: 1970-01-01 was a Thursday.\<close>

definition weekday_of_day :: "int \<Rightarrow> int" where
  "weekday_of_day n = (n + 4) mod 7"

definition day_number :: "gotime \<Rightarrow> int" where
  "day_number t = t div day"

abbreviation midnight_of :: "int \<Rightarrow> gotime" where
  "midnight_of n \<equiv> n * day"

lemma day_number_bounds: "midnight_of (day_number t) \<le> t" "t < midnight_of (day_number t + 1)"
  using div_mult_mod_eq [of t day] pos_mod_bound [of day t] pos_mod_sign [of day t]
  by (simp_all add: day_number_def distrib_right)

lemma day_number_midnight [simp]: "day_number (midnight_of n) = n"
  by (simp add: day_number_def)

subsection \<open>Locations\<close>

text \<open>
  A location, when the time-zone database has it, is its \<open>lookup\<close>: the offset from UTC
  in force at an instant, with the instants at which that offset started and will end.
  The database itself is data outside the program.
\<close>

type_synonym zone = "gotime \<Rightarrow> duration \<times> gotime \<times> gotime"

definition zone_offset :: "zone \<Rightarrow> gotime \<Rightarrow> duration" where
  "zone_offset z t = fst (z t)"

definition civil_in :: "zone \<Rightarrow> gotime \<Rightarrow> int \<times> int \<times> int" where
  "civil_in z t = civil_of_day (day_number (t + zone_offset z t))"

text \<open>
  \<open>time.Date(y, m, d, h, 0, 0, 0, loc)\<close>: the offset is looked up as if the local time
  were UTC, and looked up again when the instant found lies outside that offset's interval.
\<close>

definition date_in :: "zone \<Rightarrow> int \<Rightarrow> int \<Rightarrow> int \<Rightarrow> int \<Rightarrow> gotime" where
  "date_in z y m d h = (let u = midnight_of (day_of_civil y m d) + h * hour; (off, s, e) = z u in
     if off = 0 then u
     else let utc = u - off in
       if utc < s \<or> e \<le> utc then u - zone_offset z utc else utc)"

definition date_utc :: "int \<Rightarrow> int \<Rightarrow> int \<Rightarrow> int \<Rightarrow> gotime" where
  "date_utc y m d h = midnight_of (day_of_civil y m d) + h * hour"

definition fixed_zone :: "duration \<Rightarrow> zone" where
  "fixed_zone off = (\<lambda>t. (off, t - day, t + day))"

text \<open>\<open>time.Date\<close> of a local wall-clock time, given as the instant it would be in UTC.\<close>

definition date_local :: "zone \<Rightarrow> gotime \<Rightarrow> gotime" where
  "date_local z u = (let (off, s, e) = z u in
     if off = 0 then u
     else let utc = u - off in if utc < s \<or> e \<le> utc then u - zone_offset z utc else utc)"

definition local_time :: "zone \<Rightarrow> gotime \<Rightarrow> gotime" where
  "local_time z t = t + zone_offset z t"

text \<open>\<open>t.AddDate(0, months, days)\<close> keeps the local clock.\<close>

definition add_date :: "zone \<Rightarrow> gotime \<Rightarrow> int \<Rightarrow> int \<Rightarrow> gotime" where
  "add_date z t months days = (let l = local_time z t; (y, m, d) = civil_of_day (day_number l)
     in date_local z (midnight_of (day_of_civil y (m + months) (d + days)) + l mod day))"

lemma date_in_local: "date_in z y m d h = date_local z (midnight_of (day_of_civil y m d) + h * hour)"
  by (simp add: date_in_def date_local_def Let_def)

subsection \<open>Rendering\<close>

function digits :: "int \<Rightarrow> string" where
  "digits n = (if n < 10 then [char_of (48 + n)] else digits (n div 10) @ [char_of (48 + n mod 10)])"
  by pat_completeness auto
termination
  by (relation "measure nat") auto

declare digits.simps [simp del]

definition int_str :: "int \<Rightarrow> string" where
  "int_str i = (if i < 0 then CHR 0x2D # digits (- i) else digits i)"

text \<open>At least \<open>w\<close> digits, zeros in front.\<close>

definition pad_str :: "nat \<Rightarrow> int \<Rightarrow> string" where
  "pad_str w i = (let ds = digits \<bar>i\<bar> in
     (if i < 0 then [CHR 0x2D] else []) @ replicate (w - length ds) (CHR 0x30) @ ds)"

text \<open>\<open>t.UTC().Format(time.RFC3339)\<close>\<close>

definition fmt_rfc3339 :: "gotime \<Rightarrow> string" where
  "fmt_rfc3339 t = (let (y, m, d) = civil_of_day (day_number t); s = (t mod day) div second in
     pad_str 4 y @ ''-'' @ pad_str 2 m @ ''-'' @ pad_str 2 d @ ''T'' @
     pad_str 2 (s div 3600) @ '':'' @ pad_str 2 (s div 60 mod 60) @ '':'' @ pad_str 2 (s mod 60) @ ''Z'')"

definition strip_zeros :: "string \<Rightarrow> string" where
  "strip_zeros ds = rev (dropWhile (\<lambda>c. c = CHR 0x30) (rev ds))"

text \<open>The decimal fraction of \<open>v / 10^prec\<close>, without trailing zeros and without a bare point.\<close>

definition fmt_frac :: "int \<Rightarrow> nat \<Rightarrow> string" where
  "fmt_frac v prec = (let f = strip_zeros (pad_str prec (v mod 10 ^ prec)) in
     if f = [] then [] else CHR 0x2E # f)"

text \<open>\<open>Duration.String\<close>\<close>

definition dur_str :: "duration \<Rightarrow> string" where
  "dur_str d = (let u = \<bar>d\<bar>; sign = (if d < 0 then ''-'' else []) in
     if u = 0 then ''0s''
     else if u < second then
       sign @ (if u < 1000 then int_str u @ ''ns''
               else if u < millisecond then int_str (u div 1000) @ fmt_frac u 3 @ [CHR 0xC2, CHR 0xB5, CHR 0x73]
               else int_str (u div millisecond) @ fmt_frac u 6 @ ''ms'')
     else let s = u div second; frac = fmt_frac u 9 in
       sign @ (if s < 60 then int_str s @ frac @ ''s''
               else if s < 3600 then int_str (s div 60) @ ''m'' @ int_str (s mod 60) @ frac @ ''s''
               else int_str (s div 3600) @ ''h'' @ int_str (s div 60 mod 60) @ ''m'' @
                    int_str (s mod 60) @ frac @ ''s''))"

end
