(* ===== verification/UpstreamErr.thy ===== *)
theory UpstreamErr
  imports GoTime Complex_Main
begin

text \<open>
  The error values of \<open>internal/upstream/errors.go\<close> with their texts, the sentinel each one
  unwraps to, and the conversions of \<open>internal/upstream/ratelimit.go\<close> from upstream retry
  fields to cooldowns.  A \<open>float64\<close> is an exact rational: the values the program handles
  are counts, limits and milliseconds, and no lemma depends on rounding.
\<close>

subsection \<open>The sentinels and the concrete errors\<close>

datatype sentinel =
    ErrSessionInvalid | ErrRunInvalid | ErrAuthRejected | ErrWaitingRoom | ErrRateLimited
  | ErrBanned | ErrCountryBlocked | ErrFreeModeCLIRequired | ErrCredits | ErrNoActiveSession
  | ErrCapacityDeferred | ErrIpCapped | ErrSessionLimitReached | ErrWaitingRoomRequired
  | ErrModelIPLimited | ErrSessionSuperseded

record waiting_room =
  wr_position :: int
  wr_queue_depth :: int
  wr_retry_after :: duration
  wr_detail :: string

record waiting_room_required =
  wrr_retry_after :: duration
  wrr_detail :: string

record upstream_error =
  ue_status :: int
  ue_body :: string
  ue_retry_after :: duration
  ue_retryable :: bool

record rate_limit =
  rl_status :: string
  rl_model :: string
  rl_retry_after :: duration
  rl_limit :: rat
  rl_recent :: rat
  rl_reset_at :: gotime
  rl_period :: string
  rl_window :: string
  rl_body :: string

record ban =
  ban_resumes_at :: gotime
  ban_body :: string

record country_blocked =
  cb_code :: string
  cb_reason :: string
  cb_signals :: "string list"

record capacity_deferred =
  cd_status :: int
  cd_retry_after :: duration
  cd_body :: string

record ip_capped =
  ic_active :: int
  ic_limit :: rat
  ic_retry_after :: duration
  ic_body :: string

record limited_ip =
  li_model :: string
  li_retry_after :: duration
  li_body :: string

text \<open>A status code with the truncated body: credits, session limit and superseded errors.\<close>

record status_body =
  sb_status :: int
  sb_body :: string

text \<open>\<open>session.WaitingRoomError\<close>, the waiting room as the session manager reports it.\<close>

record sess_waiting =
  sw_position :: int
  sw_queue_depth :: int
  sw_retry_after :: duration

text \<open>
  A Go \<open>error\<close> of the program.  \<open>EWrap s msg\<close> is \<open>fmt.Errorf\<close> with \<open>%w\<close> of a sentinel, whose whole
  text is \<open>msg\<close>; \<open>EPrefix p e\<close> is \<open>fmt.Errorf\<close> of a text \<open>p\<close> and \<open>%w\<close> of another error; \<open>EText\<close> is an
  error with no identity, \<open>ECanceled\<close> and \<open>EDeadline\<close> are the errors of a context.
\<close>

datatype gerr =
    EWaiting waiting_room
  | EWaitingRequired waiting_room_required
  | ESuperseded status_body
  | EUpstream upstream_error
  | ERate rate_limit
  | EBan ban
  | ECountry country_blocked
  | ECredits status_body
  | ECapacity capacity_deferred
  | EIpCapped ip_capped
  | ELimitedIp limited_ip
  | ESessionLimit status_body
  | EWrap sentinel string
  | EPrefix string gerr
  | EShuttingDown
  | EScarce string gotime
  | ESessWaiting sess_waiting
  | ECanceled
  | EDeadline
  | EText string

subsection \<open>Texts\<close>

text \<open>\<open>%v\<close> of a \<open>float64\<close> of at most 21 digits: the digits before the point, then the fraction.\<close>

definition fmt_float :: "rat \<Rightarrow> string" where
  "fmt_float q = (let a = \<bar>q\<bar>; f = \<lfloor>(a - of_int \<lfloor>a\<rfloor>) * 10 ^ 17\<rfloor> in
     (if q < 0 then ''-'' else []) @ digits \<lfloor>a\<rfloor> @ fmt_frac f 17)"

definition retry_note :: "duration \<Rightarrow> string" where
  "retry_note d = (if 0 < d then '' (retry after '' @ dur_str d @ '')'' else [])"

definition colon_note :: "string \<Rightarrow> string" where
  "colon_note b = (if b \<noteq> [] then '': '' @ b else [])"

definition waiting_text :: "waiting_room \<Rightarrow> string" where
  "waiting_text e = ''upstream waiting room'' @ retry_note (wr_retry_after e) @ colon_note (wr_detail e)"

definition waiting_required_text :: "waiting_room_required \<Rightarrow> string" where
  "waiting_required_text e =
     ''upstream waiting room required'' @ retry_note (wrr_retry_after e) @ colon_note (wrr_detail e)"

definition status_body_text :: "int \<Rightarrow> string \<Rightarrow> string" where
  "status_body_text s b = ''upstream '' @ int_str s @ '': '' @ b"

definition superseded_text :: "status_body \<Rightarrow> string" where
  "superseded_text e = status_body_text (sb_status e) (sb_body e)"

definition upstream_error_text :: "upstream_error \<Rightarrow> string" where
  "upstream_error_text e = status_body_text (ue_status e) (ue_body e)"

definition rate_limit_text :: "rate_limit \<Rightarrow> string" where
  "rate_limit_text e = ''upstream rate limited'' @
     (if \<not> is_zero (rl_reset_at e) then '' (reset at '' @ fmt_rfc3339 (rl_reset_at e) @ '')''
      else retry_note (rl_retry_after e)) @ colon_note (rl_body e)"

definition ban_text :: "ban \<Rightarrow> string" where
  "ban_text e = ''upstream account banned'' @
     (if \<not> is_zero (ban_resumes_at e) then '' (resumes at '' @ fmt_rfc3339 (ban_resumes_at e) @ '')'' else []) @
     colon_note (ban_body e)"

definition country_text :: "country_blocked \<Rightarrow> string" where
  "country_text e = ''upstream country blocked'' @
     (if cb_code e \<noteq> [] then '' ('' @ cb_code e @ colon_note (cb_reason e) @ '')'' else [])"

definition credits_text :: "status_body \<Rightarrow> string" where
  "credits_text e = status_body_text (sb_status e) (sb_body e)"

definition capacity_text :: "capacity_deferred \<Rightarrow> string" where
  "capacity_text e = status_body_text (cd_status e) (cd_body e)"

definition ip_capped_text :: "ip_capped \<Rightarrow> string" where
  "ip_capped_text e = ''upstream ip capped'' @
     (if 0 < ic_active e \<or> 0 < ic_limit e
      then '' ('' @ int_str (ic_active e) @ '' of '' @ fmt_float (ic_limit e) @ '' active users on IP)'' else []) @
     retry_note (ic_retry_after e) @ colon_note (ic_body e)"

definition limited_ip_text :: "limited_ip \<Rightarrow> string" where
  "limited_ip_text e = ''model limited on this egress IP'' @ colon_note (li_body e)"

definition session_limit_text :: "status_body \<Rightarrow> string" where
  "session_limit_text e = status_body_text (sb_status e) (sb_body e)"

definition sess_waiting_text :: "sess_waiting \<Rightarrow> string" where
  "sess_waiting_text e = ''waiting room: position '' @ int_str (sw_position e) @ '' of '' @
     int_str (sw_queue_depth e) @ '', retry after '' @ dur_str (sw_retry_after e)"

subsection \<open>errors.Is and errors.As\<close>

text \<open>\<open>CapacityDeferredError.Unwrap\<close>: the retryable error it also is.\<close>

definition capacity_unwrap :: "capacity_deferred \<Rightarrow> upstream_error" where
  "capacity_unwrap e = \<lparr>ue_status = cd_status e, ue_body = cd_body e,
     ue_retry_after = cd_retry_after e, ue_retryable = True\<rparr>"

fun err_is :: "gerr \<Rightarrow> sentinel \<Rightarrow> bool" where
  "err_is (EWaiting _) s = (s = ErrWaitingRoom)"
| "err_is (EWaitingRequired _) s = (s = ErrWaitingRoomRequired)"
| "err_is (ESuperseded _) s = (s = ErrSessionSuperseded)"
| "err_is (ERate _) s = (s = ErrRateLimited)"
| "err_is (EBan _) s = (s = ErrBanned)"
| "err_is (ECountry _) s = (s = ErrCountryBlocked)"
| "err_is (ECredits _) s = (s = ErrCredits)"
| "err_is (ECapacity _) s = (s = ErrCapacityDeferred)"
| "err_is (EIpCapped _) s = (s = ErrIpCapped)"
| "err_is (ELimitedIp _) s = (s = ErrModelIPLimited)"
| "err_is (ESessionLimit _) s = (s = ErrSessionLimitReached)"
| "err_is (EWrap t _) s = (s = t)"
| "err_is (EPrefix _ e) s = err_is e s"
| "err_is _ s = False"

fun as_rate_limit :: "gerr \<Rightarrow> rate_limit option" where
  "as_rate_limit (ERate e) = Some e"
| "as_rate_limit (EPrefix _ e) = as_rate_limit e"
| "as_rate_limit _ = None"

fun as_ban :: "gerr \<Rightarrow> ban option" where
  "as_ban (EBan e) = Some e"
| "as_ban (EPrefix _ e) = as_ban e"
| "as_ban _ = None"

fun as_country :: "gerr \<Rightarrow> country_blocked option" where
  "as_country (ECountry e) = Some e"
| "as_country (EPrefix _ e) = as_country e"
| "as_country _ = None"

fun as_ip_capped :: "gerr \<Rightarrow> ip_capped option" where
  "as_ip_capped (EIpCapped e) = Some e"
| "as_ip_capped (EPrefix _ e) = as_ip_capped e"
| "as_ip_capped _ = None"

fun as_limited_ip :: "gerr \<Rightarrow> limited_ip option" where
  "as_limited_ip (ELimitedIp e) = Some e"
| "as_limited_ip (EPrefix _ e) = as_limited_ip e"
| "as_limited_ip _ = None"

fun as_waiting :: "gerr \<Rightarrow> waiting_room option" where
  "as_waiting (EWaiting e) = Some e"
| "as_waiting (EPrefix _ e) = as_waiting e"
| "as_waiting _ = None"

fun as_sess_waiting :: "gerr \<Rightarrow> sess_waiting option" where
  "as_sess_waiting (ESessWaiting e) = Some e"
| "as_sess_waiting (EPrefix _ e) = as_sess_waiting e"
| "as_sess_waiting _ = None"

fun as_upstream :: "gerr \<Rightarrow> upstream_error option" where
  "as_upstream (EUpstream e) = Some e"
| "as_upstream (ECapacity e) = Some (capacity_unwrap e)"
| "as_upstream (EPrefix _ e) = as_upstream e"
| "as_upstream _ = None"

fun err_ctx :: "gerr \<Rightarrow> bool" where
  "err_ctx ECanceled = True"
| "err_ctx EDeadline = True"
| "err_ctx (EPrefix _ e) = err_ctx e"
| "err_ctx _ = False"

fun err_text :: "gerr \<Rightarrow> string" where
  "err_text (EWaiting e) = waiting_text e"
| "err_text (EWaitingRequired e) = waiting_required_text e"
| "err_text (ESuperseded e) = superseded_text e"
| "err_text (EUpstream e) = upstream_error_text e"
| "err_text (ERate e) = rate_limit_text e"
| "err_text (EBan e) = ban_text e"
| "err_text (ECountry e) = country_text e"
| "err_text (ECredits e) = credits_text e"
| "err_text (ECapacity e) = capacity_text e"
| "err_text (EIpCapped e) = ip_capped_text e"
| "err_text (ELimitedIp e) = limited_ip_text e"
| "err_text (ESessionLimit e) = session_limit_text e"
| "err_text (EWrap _ m) = m"
| "err_text (EPrefix p e) = p @ err_text e"
| "err_text EShuttingDown = ''runs: manager shutting down; new run starts refused''"
| "err_text (EScarce m t) = ''scarce session ('' @ m @ '') in use until '' @ fmt_rfc3339 t"
| "err_text (ESessWaiting e) = sess_waiting_text e"
| "err_text ECanceled = ''context canceled''"
| "err_text EDeadline = ''context deadline exceeded''"
| "err_text (EText m) = m"

text \<open>What \<open>errors.As\<close> finds, \<open>errors.Is\<close> reports, at any depth of wrapping.\<close>

lemma as_rate_limit_is: "as_rate_limit e = Some r \<Longrightarrow> err_is e ErrRateLimited"
  by (induction e) auto

lemma as_ban_is: "as_ban e = Some b \<Longrightarrow> err_is e ErrBanned"
  by (induction e) auto

lemma as_country_is: "as_country e = Some b \<Longrightarrow> err_is e ErrCountryBlocked"
  by (induction e) auto

lemma as_ip_capped_is: "as_ip_capped e = Some b \<Longrightarrow> err_is e ErrIpCapped"
  by (induction e) auto

lemma as_limited_ip_is: "as_limited_ip e = Some b \<Longrightarrow> err_is e ErrModelIPLimited"
  by (induction e) auto

text \<open>An error matches at most one sentinel, so the recovery branches of a handler exclude each other.\<close>

lemma err_is_unique: "err_is e s \<Longrightarrow> err_is e t \<Longrightarrow> s = t"
  by (induction e) auto

subsection \<open>Cooldowns from upstream retry fields\<close>

definition load_shed_cooldown :: duration where "load_shed_cooldown = 90 * second"
definition peak_hours_cooldown :: duration where "peak_hours_cooldown = 30 * minute"
definition opaque_rate_limit_backoff :: duration where "opaque_rate_limit_backoff = 60 * second"
definition max_cooldown :: duration where "max_cooldown = 7 * 24 * hour"

text \<open>\<open>int64(x)\<close> of a float that fits, and \<open>time.Duration(a) * time.Duration(b)\<close>.\<close>

definition int64_of_float :: "rat \<Rightarrow> int" where
  "int64_of_float q = (if 0 \<le> q then \<lfloor>q\<rfloor> else \<lceil>q\<rceil>)"

definition dur_mul :: "int \<Rightarrow> int \<Rightarrow> duration" where
  "dur_mul a b = wrap64 (a * b)"

definition clamp_cooldown :: "duration \<Rightarrow> duration" where
  "clamp_cooldown d = (if max_cooldown < d then max_cooldown else d)"

definition cooldown_from_millis :: "rat \<Rightarrow> duration" where
  "cooldown_from_millis ms = (if ms \<le> 0 then 0
     else if of_int dur_max / of_int millisecond < ms then max_cooldown
     else clamp_cooldown (dur_mul (int64_of_float ms) millisecond))"

definition cooldown_from_seconds :: "rat \<Rightarrow> duration" where
  "cooldown_from_seconds sec = (if sec \<le> 0 then 0
     else if of_int dur_max / of_int second < sec then max_cooldown
     else clamp_cooldown (int64_of_float (sec * of_int second)))"

definition unix_secs :: "gotime \<Rightarrow> int" where
  "unix_secs t = t div second"

definition until_reset_at :: "gotime \<Rightarrow> gotime \<Rightarrow> duration" where
  "until_reset_at t now = (let secs = unix_secs t - unix_secs now in
     if secs \<le> 0 then 0
     else if dur_max div second < secs then max_cooldown
     else clamp_cooldown (dur_mul secs second))"

text \<open>\<open>isDailyCapReset\<close>, which upstream and pool define alike.\<close>

definition is_daily_cap_reset :: "rate_limit \<Rightarrow> bool" where
  "is_daily_cap_reset r \<longleftrightarrow> (rl_period r = ''pacific_day'' \<or> rl_period r = ''pacific_week'') \<and>
     0 < rl_limit r \<and> rl_limit r \<le> rl_recent r"

text \<open>
  \<open>NextPacificMidnight\<close>: with the time-zone database, the first instant of the next Pacific
  day; without it, the documented approximation by month.
\<close>

definition pacific_midnight_fallback :: "gotime \<Rightarrow> gotime" where
  "pacific_midnight_fallback now = (let (y, m, d) = civil_of_day (day_number now);
       h = (if m < 3 \<or> 11 < m then 8 else 7);
       t = date_utc y m d h
     in if t \<le> now then t + 24 * hour else t)"

definition next_pacific_midnight :: "zone option \<Rightarrow> gotime \<Rightarrow> gotime" where
  "next_pacific_midnight tz now = (case tz of
     None \<Rightarrow> pacific_midnight_fallback now
   | Some z \<Rightarrow> let (y, m, d) = civil_in z now in date_in z y m (d + 1) 0)"

subsection \<open>The conversions stay within their bounds and never wrap\<close>

lemma max_cooldown_pos [simp]: "0 < max_cooldown" "max_cooldown < dur_max"
  by (simp_all add: max_cooldown_def)

lemma clamp_cooldown_min: "clamp_cooldown d = min max_cooldown d"
  by (simp add: clamp_cooldown_def min_def)

lemma dur_mul_id: "dur_min \<le> a * b \<Longrightarrow> a * b \<le> dur_max \<Longrightarrow> dur_mul a b = a * b"
  by (simp add: dur_mul_def wrap64_id)

lemma cooldown_from_millis_spec:
  "cooldown_from_millis ms = (if ms \<le> 0 then 0 else min max_cooldown (\<lfloor>ms\<rfloor> * millisecond))"
proof (cases "0 < ms \<and> ms \<le> of_int dur_max / of_int millisecond")
  case True
  then have "\<lfloor>ms\<rfloor> \<le> \<lfloor>(of_int dur_max / of_int millisecond :: rat)\<rfloor>" by (intro floor_mono) simp
  also have "\<lfloor>(of_int dur_max / of_int millisecond :: rat)\<rfloor> = dur_max div millisecond"
    by (rule floor_divide_of_int_eq)
  finally have "\<lfloor>ms\<rfloor> \<le> 9223372036854" by (rule order_trans) simp
  then have "\<lfloor>ms\<rfloor> * millisecond \<le> dur_max" by linarith
  moreover have "0 \<le> \<lfloor>ms\<rfloor>" using True by simp
  ultimately have "dur_mul \<lfloor>ms\<rfloor> millisecond = \<lfloor>ms\<rfloor> * millisecond"
    by (intro dur_mul_id) linarith+
  then have "dur_mul (int64_of_float ms) millisecond = \<lfloor>ms\<rfloor> * millisecond"
    using True by (simp add: int64_of_float_def)
  then show ?thesis using True by (simp add: cooldown_from_millis_def clamp_cooldown_min)
next
  case False
  show ?thesis
  proof (cases "ms \<le> 0")
    case le: False
    with False have "of_int dur_max / of_int millisecond < ms" by simp
    then have "of_int (dur_max div millisecond) \<le> ms" by simp
    then have "dur_max div millisecond \<le> \<lfloor>ms\<rfloor>" by (simp only: le_floor_iff)
    then have "max_cooldown \<le> \<lfloor>ms\<rfloor> * millisecond" by (simp add: max_cooldown_def)
    with le False show ?thesis by (simp add: cooldown_from_millis_def)
  qed (simp add: cooldown_from_millis_def)
qed

lemma cooldown_from_seconds_spec:
  "cooldown_from_seconds sec = (if sec \<le> 0 then 0 else min max_cooldown \<lfloor>sec * of_int second\<rfloor>)"
proof (cases "of_int dur_max / of_int second < sec")
  case True
  then have "of_int dur_max \<le> sec * of_int second" by simp
  then have "dur_max \<le> \<lfloor>sec * of_int second\<rfloor>" by (simp only: le_floor_iff)
  then have "max_cooldown \<le> \<lfloor>sec * of_int second\<rfloor>"
    using max_cooldown_pos by linarith
  with True show ?thesis by (simp add: cooldown_from_seconds_def)
qed (simp add: cooldown_from_seconds_def clamp_cooldown_min int64_of_float_def)

lemma until_reset_at_spec:
  "until_reset_at t now = max 0 (min max_cooldown ((unix_secs t - unix_secs now) * second))"
proof (cases "dur_max div second < unix_secs t - unix_secs now")
  case True
  then have "max_cooldown \<le> (unix_secs t - unix_secs now) * second" by (simp add: max_cooldown_def)
  with True show ?thesis by (simp add: until_reset_at_def Let_def max_def min_def max_cooldown_def)
next
  case False
  then have "(unix_secs t - unix_secs now) * second \<le> dur_max" by simp
  with False show ?thesis
    by (auto simp: until_reset_at_def Let_def clamp_cooldown_min dur_mul_id max_def min_def max_cooldown_def)
qed

lemma cooldown_conversions_bounded:
  "0 \<le> cooldown_from_millis ms" "cooldown_from_millis ms \<le> max_cooldown"
  "0 \<le> cooldown_from_seconds sec" "cooldown_from_seconds sec \<le> max_cooldown"
  "0 \<le> until_reset_at t now" "until_reset_at t now \<le> max_cooldown"
  by (auto simp: cooldown_from_millis_spec cooldown_from_seconds_spec until_reset_at_spec max_cooldown_def)

subsection \<open>The next Pacific midnight\<close>

text \<open>What a cooldown needs of it: it lies ahead, and not more than a day (of up to 25 hours) away.\<close>

definition pacific_ok :: "zone option \<Rightarrow> bool" where
  "pacific_ok tz \<longleftrightarrow> (\<forall>t. t < next_pacific_midnight tz t \<and> next_pacific_midnight tz t \<le> t + 25 * hour)"

lemma pacific_midnight_fallback_bounds:
  "now < pacific_midnight_fallback now \<and> pacific_midnight_fallback now \<le> now + 24 * hour"
proof -
  obtain y m d where c: "civil_of_day (day_number now) = (y, m, d)" by (cases "civil_of_day (day_number now)")
  have "day_of_civil y m d = day_number now" by (rule day_of_civil_of_day [OF c])
  then show ?thesis
    using day_number_bounds [of now]
    by (auto simp: pacific_midnight_fallback_def c date_utc_def Let_def)
qed

lemma pacific_ok_fallback: "pacific_ok None"
proof -
  have "pacific_midnight_fallback t \<le> t + 25 * hour" for t
    using pacific_midnight_fallback_bounds [of t] by linarith
  then show ?thesis
    using pacific_midnight_fallback_bounds by (simp add: pacific_ok_def next_pacific_midnight_def)
qed

text \<open>A zone of fixed offset satisfies it too.\<close>

lemma pacific_ok_fixed: "pacific_ok (Some (\<lambda>t. (off, t, t + 1)))"
proof -
  have "t < next_pacific_midnight (Some (\<lambda>t. (off, t, t + 1))) t \<and>
      next_pacific_midnight (Some (\<lambda>t. (off, t, t + 1))) t \<le> t + 24 * hour" for t
  proof -
    obtain y m d where c: "civil_in (\<lambda>t. (off, t, t + 1)) t = (y, m, d)"
      by (cases "civil_in (\<lambda>t. (off, t, t + 1)) t")
    then have "day_of_civil y m d = day_number (t + off)"
      using day_of_civil_of_day(1) [of "day_number (t + off)" y m d]
      by (simp add: civil_in_def zone_offset_def)
    then have "day_of_civil y m (d + 1) = day_number (t + off) + 1"
      by (simp add: day_of_civil_def Let_def)
    then show ?thesis
      using day_number_bounds [of "t + off"] day_number_bounds [of t]
      by (auto simp: next_pacific_midnight_def c date_in_def Let_def zone_offset_def)
  qed
  then have "t < next_pacific_midnight (Some (\<lambda>t. (off, t, t + 1))) t"
    "next_pacific_midnight (Some (\<lambda>t. (off, t, t + 1))) t \<le> t + 25 * hour" for t
    by (simp, smt (verit, best))
  then show ?thesis by (simp add: pacific_ok_def)
qed

end
