(* ===== verification/RunCooldown.thy ===== *)
theory RunCooldown
  imports UpstreamErr
begin

text \<open>
  \<open>internal/runs/cooldown.go\<close>: the cooldown window of one token and the upstream error it
  remembers.  The record holds the cooldown fields of \<open>RunManager\<close>; each operation is one
  critical section of the manager's mutex, at one reading \<open>now\<close> of the clock.

  A panic of the code is the value \<open>None\<close>.
\<close>

record cooldowns =
  co_until :: gotime
  co_rate :: "rate_limit option"
  co_ban_until :: gotime
  co_ban :: "ban option"
  co_country :: "country_blocked option"
  co_country_until :: gotime
  co_ip :: "ip_capped option"
  co_ip_until :: gotime
  co_ip_readmits :: int
  co_ip_day :: gotime

definition no_cooldowns :: cooldowns where
  "no_cooldowns = \<lparr>co_until = zero_time, co_rate = None, co_ban_until = zero_time, co_ban = None,
     co_country = None, co_country_until = zero_time, co_ip = None, co_ip_until = zero_time,
     co_ip_readmits = 0, co_ip_day = zero_time\<rparr>"

definition default_cooldown :: duration where "default_cooldown = 30 * minute"
definition country_block_cooldown :: duration where "country_block_cooldown = 15 * minute"
definition cooldown_ceiling :: duration where "cooldown_ceiling = 7 * 24 * hour"
definition max_ip_capped_readmits :: int where "max_ip_capped_readmits = 3"

subsection \<open>Operations\<close>

definition capped_after :: "gotime \<Rightarrow> duration \<Rightarrow> gotime" where
  "capped_after now d = now + (if cooldown_ceiling < d then cooldown_ceiling else d)"

definition capped_deadline :: "gotime \<Rightarrow> gotime \<Rightarrow> gotime" where
  "capped_deadline now t = (if now + cooldown_ceiling < t then now + cooldown_ceiling else t)"

definition cooldown :: "duration \<Rightarrow> gotime \<Rightarrow> cooldowns \<Rightarrow> cooldowns" where
  "cooldown d now c = (if d \<le> 0 then c else
     c\<lparr>co_until := now + d, co_rate := None, co_ban := None, co_country := None, co_ip := None,
       co_ban_until := zero_time, co_country_until := zero_time, co_ip_until := zero_time,
       co_ip_readmits := 0, co_ip_day := zero_time\<rparr>)"

definition clear_cooldowns :: "cooldowns \<Rightarrow> cooldowns" where
  "clear_cooldowns c = c\<lparr>co_until := zero_time, co_rate := None, co_ban := None, co_ban_until := zero_time,
     co_country := None, co_country_until := zero_time, co_ip := None, co_ip_until := zero_time,
     co_ip_readmits := 0, co_ip_day := zero_time\<rparr>"

definition cooldown_rate_limit :: "zone option \<Rightarrow> rate_limit \<Rightarrow> gotime \<Rightarrow> cooldowns \<Rightarrow> cooldowns" where
  "cooldown_rate_limit tz r now c =
     c\<lparr>co_until := (if 0 < rl_retry_after r then capped_after now (rl_retry_after r)
                    else if \<not> is_zero (rl_reset_at r) \<and> now < rl_reset_at r
                      then capped_deadline now (rl_reset_at r)
                    else next_pacific_midnight tz now),
       co_rate := Some r, co_ban := None, co_country := None, co_ip := None\<rparr>"

text \<open>
  \<open>ipCappedJitter\<close>: \<open>u\<close> is the random 64-bit word (0 when the read fails).  The modulus is a
  fifth of the base (the code computes it in \<open>float64\<close>, which is the same below \<open>2 ^ 53\<close> nanoseconds),
  and the remainder by a zero modulus panics.
\<close>

definition ip_capped_jitter :: "int \<Rightarrow> duration \<Rightarrow> duration option" where
  "ip_capped_jitter u base = (if base \<le> 0 then Some 0
     else let k = base div 5 in if k = 0 then None else Some (u mod k))"

definition cooldown_ip_capped :: "zone option \<Rightarrow> int \<Rightarrow> ip_capped \<Rightarrow> gotime \<Rightarrow> cooldowns \<Rightarrow> cooldowns option" where
  "cooldown_ip_capped tz u e now c = (if ic_retry_after e \<le> 0 then Some c else
     let reset = next_pacific_midnight tz now;
         c1 = (if is_zero (co_ip_day c) \<or> co_ip_day c \<noteq> reset
               then c\<lparr>co_ip_readmits := 0, co_ip_day := reset\<rparr> else c);
         c2 = c1\<lparr>co_ip_readmits := co_ip_readmits c1 + 1, co_rate := None, co_ban := None, co_country := None\<rparr>
     in if max_ip_capped_readmits \<le> co_ip_readmits c2 then
          Some (c2\<lparr>co_ip := Some (e\<lparr>ic_retry_after := tsub reset now\<rparr>), co_ip_until := reset, co_until := reset\<rparr>)
        else case ip_capped_jitter u (ic_retry_after e) of
          None \<Rightarrow> None
        | Some j \<Rightarrow>
            let t = capped_after now (wrap64 (ic_retry_after e + j))
            in Some (c2\<lparr>co_ip := Some e, co_ip_until := t, co_until := t\<rparr>))"

definition cooldown_ban :: "ban \<Rightarrow> gotime \<Rightarrow> cooldowns \<Rightarrow> cooldowns" where
  "cooldown_ban b now c =
     (let t = (if now < ban_resumes_at b then ban_resumes_at b else now + 24 * hour)
      in c\<lparr>co_ban := Some b, co_ban_until := t, co_until := t,
           co_rate := None, co_country := None, co_ip := None\<rparr>)"

definition cooldown_country_blocked :: "country_blocked \<Rightarrow> gotime \<Rightarrow> cooldowns \<Rightarrow> cooldowns" where
  "cooldown_country_blocked e now c = (if now < co_ban_until c \<and> co_ban c \<noteq> None then c else
     c\<lparr>co_country := Some e, co_country_until := now + country_block_cooldown,
       co_until := now + country_block_cooldown,
       co_rate := None, co_ban := None, co_ban_until := zero_time, co_ip := None\<rparr>)"

definition ip_capped_error :: "gotime \<Rightarrow> cooldowns \<Rightarrow> ip_capped option" where
  "ip_capped_error now c = (if now < co_ip_until c then co_ip c else None)"

definition rate_limit_error :: "gotime \<Rightarrow> cooldowns \<Rightarrow> rate_limit option" where
  "rate_limit_error now c = (if now < co_until c then co_rate c else None)"

definition ban_error :: "gotime \<Rightarrow> cooldowns \<Rightarrow> ban option" where
  "ban_error now c = (if now < co_ban_until c then co_ban c else None)"

definition country_blocked_error :: "gotime \<Rightarrow> cooldowns \<Rightarrow> country_blocked option" where
  "country_blocked_error now c = (if now < co_country_until c then co_country c else None)"

subsection \<open>All cooldown transitions of a token\<close>

datatype cooldown_op =
    OpCooldown duration
  | OpClear
  | OpRate rate_limit
  | OpIp int ip_capped
  | OpBan ban
  | OpCountry country_blocked

fun cooldown_apply :: "zone option \<Rightarrow> cooldown_op \<Rightarrow> gotime \<Rightarrow> cooldowns \<Rightarrow> cooldowns option" where
  "cooldown_apply tz (OpCooldown d) now c = Some (cooldown d now c)"
| "cooldown_apply tz OpClear now c = Some (clear_cooldowns c)"
| "cooldown_apply tz (OpRate r) now c = Some (cooldown_rate_limit tz r now c)"
| "cooldown_apply tz (OpIp u e) now c = cooldown_ip_capped tz u e now c"
| "cooldown_apply tz (OpBan b) now c = Some (cooldown_ban b now c)"
| "cooldown_apply tz (OpCountry e) now c = Some (cooldown_country_blocked e now c)"

inductive cooldown_reach :: "zone option \<Rightarrow> cooldowns \<Rightarrow> bool" for tz where
  init: "cooldown_reach tz no_cooldowns"
| step: "cooldown_reach tz c \<Longrightarrow> cooldown_apply tz a now c = Some c' \<Longrightarrow> cooldown_reach tz c'"

subsection \<open>Exclusive memory\<close>

text \<open>
  At most one error is remembered, and the window of the one that is remembered is the
  cooldown window itself.
\<close>

definition remembered :: "cooldowns \<Rightarrow> nat" where
  "remembered c = (if co_rate c \<noteq> None then 1 else 0) + (if co_ban c \<noteq> None then 1 else 0) +
     (if co_country c \<noteq> None then 1 else 0) + (if co_ip c \<noteq> None then 1 else 0)"

definition cooldown_inv :: "cooldowns \<Rightarrow> bool" where
  "cooldown_inv c \<longleftrightarrow> remembered c \<le> 1 \<and>
     (co_ban c \<noteq> None \<longrightarrow> co_ban_until c = co_until c) \<and>
     (co_country c \<noteq> None \<longrightarrow> co_country_until c = co_until c) \<and>
     (co_ip c \<noteq> None \<longrightarrow> co_ip_until c = co_until c) \<and>
     0 \<le> co_ip_readmits c"

named_theorems cooldown_defs \<open>the cooldown operations unfolded\<close>

lemmas [cooldown_defs] = cooldown_def clear_cooldowns_def cooldown_rate_limit_def cooldown_ip_capped_def
  cooldown_ban_def cooldown_country_blocked_def

lemma no_cooldowns_inv: "cooldown_inv no_cooldowns"
  by (simp add: cooldown_inv_def remembered_def no_cooldowns_def)

lemma cooldown_inv_ip_only:
  "co_rate c = None \<Longrightarrow> co_ban c = None \<Longrightarrow> co_country c = None \<Longrightarrow> co_ip_until c = co_until c \<Longrightarrow>
     0 \<le> co_ip_readmits c \<Longrightarrow> cooldown_inv c"
  by (simp add: cooldown_inv_def remembered_def)

lemma cooldown_ip_capped_cases:
  assumes "cooldown_ip_capped tz u e now c = Some c'" "0 < ic_retry_after e"
  defines "reset \<equiv> next_pacific_midnight tz now"
  defines "n \<equiv> (if is_zero (co_ip_day c) \<or> co_ip_day c \<noteq> reset then 1 else co_ip_readmits c + 1)"
  shows "co_rate c' = None \<and> co_ban c' = None \<and> co_country c' = None \<and> co_ip_readmits c' = n \<and>
    co_ip_day c' = reset \<and> co_ip_until c' = co_until c' \<and>
    (if max_ip_capped_readmits \<le> n
     then co_until c' = reset \<and> co_ip c' = Some (e\<lparr>ic_retry_after := tsub reset now\<rparr>)
     else co_ip c' = Some e \<and> (\<exists>j. ip_capped_jitter u (ic_retry_after e) = Some j \<and>
            co_until c' = capped_after now (wrap64 (ic_retry_after e + j))))"
proof (cases "max_ip_capped_readmits \<le> n")
  case True
  then show ?thesis using assms(1,2) unfolding cooldown_ip_capped_def Let_def n_def reset_def
    by (cases "is_zero (co_ip_day c) \<or> co_ip_day c \<noteq> next_pacific_midnight tz now")
      (auto simp: max_ip_capped_readmits_def)
next
  case False
  then show ?thesis using assms(1,2) unfolding cooldown_ip_capped_def Let_def n_def reset_def
    by (cases "ip_capped_jitter u (ic_retry_after e)";
        cases "is_zero (co_ip_day c) \<or> co_ip_day c \<noteq> next_pacific_midnight tz now")
      (auto simp: max_ip_capped_readmits_def)
qed

lemma cooldown_ip_capped_inv:
  assumes "cooldown_inv c" "cooldown_ip_capped tz u e now c = Some c'"
  shows "cooldown_inv c'"
proof (cases "0 < ic_retry_after e")
  case True
  have "0 \<le> co_ip_readmits c" using assms(1) by (simp add: cooldown_inv_def)
  with cooldown_ip_capped_cases [OF assms(2) True] show ?thesis
    by (intro cooldown_inv_ip_only) (auto split: if_splits)
next
  case False
  then show ?thesis using assms by (simp add: cooldown_ip_capped_def)
qed

lemma cooldown_inv_simple:
  assumes "cooldown_inv c"
  shows "cooldown_inv (cooldown d now c)" "cooldown_inv (clear_cooldowns c)"
    "cooldown_inv (cooldown_rate_limit tz r now c)" "cooldown_inv (cooldown_ban b now c)"
    "cooldown_inv (cooldown_country_blocked e now c)"
proof -
  show "cooldown_inv (cooldown d now c)"
    using assms by (cases "d \<le> 0") (simp_all add: cooldown_def cooldown_inv_def remembered_def)
  show "cooldown_inv (cooldown_country_blocked e now c)"
    using assms by (cases "now < co_ban_until c \<and> co_ban c \<noteq> None")
      (simp_all only: cooldown_country_blocked_def if_True if_False,
       simp_all add: cooldown_inv_def remembered_def)
qed (use assms in \<open>simp_all add: clear_cooldowns_def cooldown_rate_limit_def cooldown_ban_def
      cooldown_inv_def remembered_def Let_def\<close>)

lemma cooldown_apply_inv:
  "cooldown_inv c \<Longrightarrow> cooldown_apply tz a now c = Some c' \<Longrightarrow> cooldown_inv c'"
  by (cases a) (auto intro: cooldown_inv_simple cooldown_ip_capped_inv)

lemma cooldown_reach_inv: "cooldown_reach tz c \<Longrightarrow> cooldown_inv c"
  by (induction rule: cooldown_reach.induct) (auto intro: no_cooldowns_inv cooldown_apply_inv)

subsection \<open>One memory, one window\<close>

text \<open>
  What a caller can ask of a kind of cooldown: \<open>apply\<close> starts it, \<open>recall\<close> reads its error
  back, \<open>ok\<close> says when the application takes effect.
\<close>

locale cooldown_kind =
  fixes ok :: "'e \<Rightarrow> gotime \<Rightarrow> cooldowns \<Rightarrow> bool"
    and kept :: "'e \<Rightarrow> gotime \<Rightarrow> cooldowns \<Rightarrow> 'e"
    and start :: "'e \<Rightarrow> gotime \<Rightarrow> cooldowns \<Rightarrow> cooldowns option"
    and recall :: "gotime \<Rightarrow> cooldowns \<Rightarrow> 'e option"
  assumes starts: "ok e now c \<Longrightarrow> \<exists>c'. start e now c = Some c'"
    and recalls: "ok e now c \<Longrightarrow> start e now c = Some c' \<Longrightarrow>
      recall t c' = (if t < co_until c' then Some (kept e now c) else None)"
    and alone: "cooldown_inv c \<Longrightarrow> start e now c = Some c' \<Longrightarrow> cooldown_inv c'"
begin

lemma surfaced:
  assumes "ok e now c" "start e now c = Some c'" "t < co_until c'"
  shows "recall t c' = Some (kept e now c)"
  using recalls [OF assms(1,2)] assms(3) by simp

lemma forgotten_after:
  assumes "ok e now c" "start e now c = Some c'" "co_until c' \<le> t"
  shows "recall t c' = None"
  using recalls [OF assms(1,2)] assms(3) by simp

end

interpretation rate_kind: cooldown_kind "\<lambda>_ _ _. True" "\<lambda>e _ _. e"
  "\<lambda>r now c. Some (cooldown_rate_limit tz r now c)" rate_limit_error
  by unfold_locales
    (auto simp: cooldown_rate_limit_def rate_limit_error_def cooldown_inv_def remembered_def)

interpretation ban_kind: cooldown_kind "\<lambda>_ _ _. True" "\<lambda>e _ _. e"
  "\<lambda>b now c. Some (cooldown_ban b now c)" ban_error
  by unfold_locales
    (auto simp: cooldown_ban_def ban_error_def Let_def cooldown_inv_def remembered_def)

interpretation country_kind: cooldown_kind "\<lambda>_ now c. ban_error now c = None" "\<lambda>e _ _. e"
  "\<lambda>e now c. Some (cooldown_country_blocked e now c)" country_blocked_error
  by unfold_locales
    (auto simp: cooldown_country_blocked_def country_blocked_error_def ban_error_def
       cooldown_inv_def remembered_def split: if_splits)

text \<open>The error \<open>CooldownIpCapped\<close> remembers: at the end of the day's budget, a copy with the remaining wait.\<close>

definition ip_kept :: "zone option \<Rightarrow> ip_capped \<Rightarrow> gotime \<Rightarrow> cooldowns \<Rightarrow> ip_capped" where
  "ip_kept tz e now c = (let reset = next_pacific_midnight tz now;
       n = (if is_zero (co_ip_day c) \<or> co_ip_day c \<noteq> reset then 1 else co_ip_readmits c + 1)
     in if max_ip_capped_readmits \<le> n then e\<lparr>ic_retry_after := tsub reset now\<rparr> else e)"

lemma ip_capped_jitter_some:
  assumes "5 \<le> base"
  obtains j where "ip_capped_jitter u base = Some j" "0 \<le> j" "j < base div 5"
proof -
  have "0 < base div 5" using assms by linarith
  then show ?thesis
    using that [of "u mod (base div 5)"] assms by (simp add: ip_capped_jitter_def Let_def)
qed

lemma cooldown_ip_capped_total:
  assumes "5 \<le> ic_retry_after e"
  shows "\<exists>c'. cooldown_ip_capped tz u e now c = Some c'"
proof -
  obtain j where "ip_capped_jitter u (ic_retry_after e) = Some j"
    by (rule ip_capped_jitter_some [OF assms])
  then show ?thesis by (simp add: cooldown_ip_capped_def Let_def)
qed

interpretation ip_kind: cooldown_kind "\<lambda>e _ _. 5 \<le> ic_retry_after e" "ip_kept tz"
  "cooldown_ip_capped tz u" ip_capped_error
proof
  show "5 \<le> ic_retry_after e \<Longrightarrow> \<exists>c'. cooldown_ip_capped tz u e now c = Some c'" for e now c
    by (rule cooldown_ip_capped_total)
  show "cooldown_inv c \<Longrightarrow> cooldown_ip_capped tz u e now c = Some c' \<Longrightarrow> cooldown_inv c'" for c e now c'
    by (rule cooldown_ip_capped_inv)
  fix e now c c' t
  assume "5 \<le> ic_retry_after e" and s: "cooldown_ip_capped tz u e now c = Some c'"
  then have "0 < ic_retry_after e" by simp
  from cooldown_ip_capped_cases [OF s this]
  show "ip_capped_error t c' = (if t < co_until c' then Some (ip_kept tz e now c) else None)"
    unfolding ip_capped_error_def ip_kept_def Let_def by (auto split: if_splits)
qed

subsection \<open>Bounds\<close>

lemma capped_after_le: "capped_after now d \<le> now + cooldown_ceiling"
  by (simp add: capped_after_def)

lemma capped_after_gt: "0 < d \<Longrightarrow> now < capped_after now d"
  by (simp add: capped_after_def cooldown_ceiling_def)

lemma pacific_ok_bounds:
  assumes "pacific_ok tz"
  shows "now < next_pacific_midnight tz now" "next_pacific_midnight tz now \<le> now + cooldown_ceiling"
proof -
  have "now < next_pacific_midnight tz now \<and> next_pacific_midnight tz now \<le> now + 25 * hour"
    using assms by (simp add: pacific_ok_def)
  then show "now < next_pacific_midnight tz now" "next_pacific_midnight tz now \<le> now + cooldown_ceiling"
    by (auto simp: cooldown_ceiling_def)
qed

subsection \<open>The day's budget of re-admissions\<close>

text \<open>A run of ip_capped refusals, each with its random word and the time it arrives.\<close>

fun ip_refusals :: "zone option \<Rightarrow> (int \<times> ip_capped \<times> gotime) list \<Rightarrow> cooldowns \<Rightarrow> cooldowns option" where
  "ip_refusals tz [] c = Some c"
| "ip_refusals tz ((u, e, t) # rs) c =
     (case cooldown_ip_capped tz u e t c of None \<Rightarrow> None | Some c' \<Rightarrow> ip_refusals tz rs c')"

lemma ip_refusals_count:
  assumes "\<forall>(u, e, t) \<in> set rs. 5 \<le> ic_retry_after e \<and> next_pacific_midnight tz t = reset"
    and "co_ip_day c = reset" "\<not> is_zero reset"
  shows "\<exists>c'. ip_refusals tz rs c = Some c' \<and> co_ip_readmits c' = co_ip_readmits c + int (length rs) \<and>
    co_ip_day c' = reset \<and>
    (rs \<noteq> [] \<and> max_ip_capped_readmits \<le> co_ip_readmits c' \<longrightarrow> co_until c' = reset)"
  using assms
proof (induction rs arbitrary: c)
  case (Cons r rs)
  obtain u e t where r: "r = (u, e, t)" by (cases r)
  have e: "5 \<le> ic_retry_after e" and m: "next_pacific_midnight tz t = reset" using Cons.prems(1) r by auto
  obtain c1 where c1: "cooldown_ip_capped tz u e t c = Some c1" using cooldown_ip_capped_total [OF e] by blast
  have "0 < ic_retry_after e" using e by simp
  note k = cooldown_ip_capped_cases [OF c1 this]
  have n: "co_ip_readmits c1 = co_ip_readmits c + 1" and d: "co_ip_day c1 = reset"
    and u: "max_ip_capped_readmits \<le> co_ip_readmits c1 \<longrightarrow> co_until c1 = reset"
    using k Cons.prems(2,3) m by (auto split: if_splits)
  have "\<forall>(u, e, t) \<in> set rs. 5 \<le> ic_retry_after e \<and> next_pacific_midnight tz t = reset"
    using Cons.prems(1) by auto
  from Cons.IH [OF this d Cons.prems(3)] obtain c' where
    "ip_refusals tz rs c1 = Some c'" "co_ip_readmits c' = co_ip_readmits c1 + int (length rs)"
    "co_ip_day c' = reset" "rs \<noteq> [] \<and> max_ip_capped_readmits \<le> co_ip_readmits c' \<longrightarrow> co_until c' = reset"
    by blast
  then show ?case using c1 n u by (cases rs) (auto simp: r)
qed simp

lemma ip_refusals_locks:
  assumes rs: "\<forall>(u, e, t) \<in> set rs. 5 \<le> ic_retry_after e \<and> next_pacific_midnight tz t = reset"
    and "\<not> is_zero reset" "max_ip_capped_readmits \<le> int (length rs)" "0 \<le> co_ip_readmits c"
  shows "\<exists>c'. ip_refusals tz rs c = Some c' \<and> co_until c' = reset"
proof -
  obtain u e t rs' where r: "rs = (u, e, t) # rs'"
    using assms(3) by (cases rs) (auto simp: max_ip_capped_readmits_def)
  have e: "5 \<le> ic_retry_after e" and m: "next_pacific_midnight tz t = reset" using rs r by auto
  obtain c1 where c1: "cooldown_ip_capped tz u e t c = Some c1" using cooldown_ip_capped_total [OF e] by blast
  have "0 < ic_retry_after e" using e by simp
  from cooldown_ip_capped_cases [OF c1 this]
  have d: "co_ip_day c1 = reset" and n: "1 \<le> co_ip_readmits c1"
    using m assms(4) by (auto split: if_splits)
  have "\<forall>(u, e, t) \<in> set rs'. 5 \<le> ic_retry_after e \<and> next_pacific_midnight tz t = reset"
    using rs r by auto
  from ip_refusals_count [OF this d assms(2)] obtain c' where
    "ip_refusals tz rs' c1 = Some c'" "co_ip_readmits c' = co_ip_readmits c1 + int (length rs')"
    "rs' \<noteq> [] \<and> max_ip_capped_readmits \<le> co_ip_readmits c' \<longrightarrow> co_until c' = reset" by blast
  then show ?thesis
    using c1 n assms(3) r by (cases rs') (auto simp: max_ip_capped_readmits_def)
qed

lemma ip_refusals_only_ip:
  assumes "ip_refusals tz rs c = Some c'" "rs \<noteq> []" "\<forall>(u, e, t) \<in> set rs. 0 < ic_retry_after e"
  shows "co_ip c' \<noteq> None \<and> co_ip_until c' = co_until c'"
  using assms
proof (induction rs arbitrary: c)
  case (Cons r rs)
  obtain u e t where r: "r = (u, e, t)" by (cases r)
  then obtain c1 where c1: "cooldown_ip_capped tz u e t c = Some c1" "ip_refusals tz rs c1 = Some c'"
    using Cons.prems(1) by (auto split: option.splits)
  have "0 < ic_retry_after e" using Cons.prems(3) r by auto
  note k = cooldown_ip_capped_cases [OF c1(1) this]
  show ?case
  proof (cases rs)
    case Nil
    then show ?thesis using k c1(2) by (auto split: if_splits)
  next
    case (Cons a list)
    then show ?thesis using Cons.IH [OF c1(2)] Cons.prems(3) by simp
  qed
qed simp

subsection \<open>Properties\<close>

text \<open>
  C1: in every state the cooldown operations of a token can reach, at most one upstream
  error is remembered, and each of the four accessors returns its error exactly while the
  shared cooldown deadline lies ahead, so that a token skipped for cooling down always
  surfaces the error that caused the cooldown and never a stale one.
\<close>

theorem cooldown_memory:
  assumes "cooldown_reach tz c"
  shows "remembered c \<le> 1 \<and>
    rate_limit_error t c = (if t < co_until c then co_rate c else None) \<and>
    ban_error t c = (if t < co_until c then co_ban c else None) \<and>
    country_blocked_error t c = (if t < co_until c then co_country c else None) \<and>
    ip_capped_error t c = (if t < co_until c then co_ip c else None)"
  using cooldown_reach_inv [OF assms]
  unfolding cooldown_inv_def rate_limit_error_def ban_error_def country_blocked_error_def ip_capped_error_def
  by (cases "co_ban c"; cases "co_country c"; cases "co_ip c") auto

theorem cooldown_memory_witness:
  "ban_error 5 (cooldown_ban \<lparr>ban_resumes_at = 10, ban_body = []\<rparr> 0 no_cooldowns) =
     Some \<lparr>ban_resumes_at = 10, ban_body = []\<rparr>"
proof -
  have "cooldown_reach None (cooldown_ban \<lparr>ban_resumes_at = 10, ban_body = []\<rparr> 0 no_cooldowns)"
    by (rule cooldown_reach.step [of None no_cooldowns "OpBan \<lparr>ban_resumes_at = 10, ban_body = []\<rparr>" 0])
      (simp_all add: cooldown_reach.init)
  from cooldown_memory [OF this, of 5] show ?thesis
    by (simp add: cooldown_ban_def Let_def)
qed

text \<open>
  The ip_capped re-admission budget.  After three or more refusals within one Pacific
  day, whatever the random words, the token stays locked until that day's midnight, and
  the remembered ip_capped error is surfaced at every instant before it and at none after.
\<close>

theorem ip_budget_locks_until_midnight:
  assumes "\<forall>(u, e, t) \<in> set rs. 5 \<le> ic_retry_after e \<and> next_pacific_midnight tz t = reset"
    and "\<not> is_zero reset" "max_ip_capped_readmits \<le> int (length rs)" "cooldown_reach tz c"
  shows "\<exists>c'. ip_refusals tz rs c = Some c' \<and> co_until c' = reset \<and>
    (\<forall>t < reset. ip_capped_error t c' \<noteq> None) \<and> (\<forall>t \<ge> reset. ip_capped_error t c' = None)"
proof -
  have "0 \<le> co_ip_readmits c" using cooldown_reach_inv [OF assms(4)] by (simp add: cooldown_inv_def)
  from ip_refusals_locks [OF assms(1-3) this] obtain c' where
    c': "ip_refusals tz rs c = Some c'" "co_until c' = reset" by blast
  have "rs \<noteq> []" using assms(3) by (auto simp: max_ip_capped_readmits_def)
  moreover have "\<forall>(u, e, t) \<in> set rs. 0 < ic_retry_after e" using assms(1) by fastforce
  ultimately have "co_ip c' \<noteq> None \<and> co_ip_until c' = co_until c'"
    by (rule ip_refusals_only_ip [OF c'(1)])
  with c' show ?thesis by (auto simp: ip_capped_error_def)
qed

theorem ip_budget_locks_until_midnight_witness:
  "\<exists>c'. ip_refusals None (replicate 3 (7, \<lparr>ic_active = 2, ic_limit = 2, ic_retry_after = minute, ic_body = []\<rparr>, 0))
     no_cooldowns = Some c' \<and> co_until c' = 8 * hour \<and> ip_capped_error hour c' \<noteq> None"
proof -
  have m: "next_pacific_midnight None 0 = 8 * hour" by code_simp
  show ?thesis
    using ip_budget_locks_until_midnight
      [of "replicate 3 (7, \<lparr>ic_active = 2, ic_limit = 2, ic_retry_after = minute, ic_body = []\<rparr>, 0)" None
          "8 * hour" no_cooldowns] m
    by (auto simp: max_ip_capped_readmits_def is_zero_def zero_time_def cooldown_reach.init)
qed

text \<open>
  The only panic of the cooldown operations.  An ip_capped refusal with a positive wait
  under five nanoseconds, while the day's budget is not used up, divides by a zero jitter
  modulus; every other refusal is applied.
\<close>

theorem ip_capped_panic_iff:
  "cooldown_ip_capped tz u e now c = None \<longleftrightarrow>
     0 < ic_retry_after e \<and> ic_retry_after e < 5 \<and>
     (is_zero (co_ip_day c) \<or> co_ip_day c \<noteq> next_pacific_midnight tz now \<or>
      co_ip_readmits c + 1 < max_ip_capped_readmits)"
proof -
  have j: "ip_capped_jitter u b = None \<longleftrightarrow> 0 < b \<and> b < 5" for b
    by (auto simp: ip_capped_jitter_def Let_def zdiv_eq_0_iff)
  show ?thesis
    by (cases "ip_capped_jitter u (ic_retry_after e)")
      (use j [of "ic_retry_after e"] in
        \<open>auto simp: cooldown_ip_capped_def Let_def max_ip_capped_readmits_def\<close>)
qed

lemma ip_capped_bounded:
  assumes "pacific_ok tz" "cooldown_ip_capped tz u e now c = Some c'" "0 < ic_retry_after e" "ic_retry_after e \<le> max_cooldown"
  shows "now < co_until c' \<and> co_until c' \<le> now + cooldown_ceiling"
proof -
  note cs = cooldown_ip_capped_cases [OF assms(2,3)]
  show ?thesis
  proof (cases "max_ip_capped_readmits \<le>
      (if is_zero (co_ip_day c) \<or> co_ip_day c \<noteq> next_pacific_midnight tz now then 1 else co_ip_readmits c + 1)")
    case True
    then show ?thesis using cs pacific_ok_bounds [OF assms(1), of now] by (auto split: if_splits)
  next
    case False
    then obtain j where j: "ip_capped_jitter u (ic_retry_after e) = Some j"
        "co_until c' = capped_after now (wrap64 (ic_retry_after e + j))"
      using cs by (auto split: if_splits)
    then have k: "ic_retry_after e div 5 \<noteq> 0" "j = u mod (ic_retry_after e div 5)"
      using assms(3) by (auto simp: ip_capped_jitter_def Let_def split: if_splits)
    then have "0 < ic_retry_after e div 5" using assms(3) by (simp add: order_less_le pos_imp_zdiv_nonneg_iff)
    then have "0 \<le> j" "j < ic_retry_after e div 5" using k(2) pos_mod_sign pos_mod_bound by simp_all
    then have "wrap64 (ic_retry_after e + j) = ic_retry_after e + j" "0 < ic_retry_after e + j"
      using assms(3,4) by (auto intro!: wrap64_id simp: max_cooldown_def)
    then show ?thesis using j(2) capped_after_le [of now "ic_retry_after e + j"] capped_after_gt [of "ic_retry_after e + j" now]
      by simp
  qed
qed



theorem ip_capped_panic_iff_witness:
  "cooldown_ip_capped None 7 \<lparr>ic_active = 0, ic_limit = 0, ic_retry_after = 1, ic_body = []\<rparr> 0 no_cooldowns = None"
  by (simp add: ip_capped_panic_iff no_cooldowns_def)

end
