(* ===== verification/SessionStore.thy ===== *)
theory SessionStore
  imports UpstreamErr
begin

text \<open>
  \<open>internal/session/store.go\<close>: the JSON file that carries cached sessions and active runs
  across restarts.

  The file is its parsed content: \<open>Garbage\<close> is a file that does not parse, \<open>TooLarge\<close> one above
  the size cap.  \<open>dk_readable\<close> says whether a read of an existing file succeeds; the content of
  an unreadable file is still there.  \<open>dk_writes\<close> is the outcome of the coming atomic writes, in
  order (every write after the end of the list succeeds): \<open>FlushKept\<close> leaves the old file in
  place (marshal, mkdir, temp-file or rename error), \<open>FlushLost\<close> is the fallback that removed the
  target and then failed to rename, \<open>FlushBig\<close> wrote a file above the size cap.
\<close>

record model_quota =
  mq_model :: string
  mq_limit :: rat
  mq_recent :: rat
  mq_reset_at :: gotime
  mq_period :: string
  mq_entitlement :: "(string \<times> rat) list"

record standing =
  sd_level :: string
  sd_label :: string
  sd_score :: rat
  sd_next_level_at :: gotime
  sd_next_level :: string

text \<open>\<open>cachedState\<close> of \<open>session.go\<close>; a nil quota map is \<open>None\<close>.\<close>

record cached =
  cs_status :: string
  cs_instance :: string
  cs_model :: string
  cs_expires :: gotime
  cs_grace :: gotime
  cs_position :: int
  cs_depth :: int
  cs_poll_at :: gotime
  cs_country :: string
  cs_block_reason :: string
  cs_signals :: "string list"
  cs_active :: int
  cs_limit :: rat
  cs_quota :: "(string \<times> model_quota) list option"
  cs_promo :: string
  cs_standing :: "standing option"

record persisted =
  ps_instance :: string
  ps_model :: string
  ps_status :: string
  ps_expires :: gotime
  ps_grace :: gotime
  ps_position :: int
  ps_depth :: int
  ps_poll_at :: gotime
  ps_country :: string
  ps_block_reason :: string
  ps_quota :: "(string \<times> model_quota) list"
  ps_promo :: string

record persisted_run =
  pr_run :: string
  pr_agent :: string
  pr_trace :: string
  pr_started :: gotime
  pr_requests :: int

type_synonym run_table = "(string \<times> (string \<times> persisted_run) list) list"

datatype disk_file =
    Missing
  | TooLarge
  | Garbage
  | Parsed int "(string \<times> persisted) list" run_table

datatype flush_out = FlushOk | FlushBig | FlushKept | FlushLost

record disk =
  dk_file :: disk_file
  dk_readable :: bool
  dk_writes :: "flush_out list"

record store =
  so_data :: "(string \<times> persisted) list"
  so_runs :: run_table
  so_loaded :: bool
  so_read_failed :: bool
  so_pending :: "(string \<times> persisted option) list"
  so_disk :: disk

definition store_version :: int where "store_version = 1"

definition new_store :: "disk \<Rightarrow> store" where
  "new_store d = \<lparr>so_data = [], so_runs = [], so_loaded = False, so_read_failed = False,
     so_pending = [], so_disk = d\<rparr>"

subsection \<open>Flushing\<close>

definition flush_file :: "flush_out \<Rightarrow> disk_file \<Rightarrow> disk_file \<Rightarrow> disk_file" where
  "flush_file out new old = (case out of FlushOk \<Rightarrow> new | FlushBig \<Rightarrow> TooLarge | FlushKept \<Rightarrow> old | FlushLost \<Rightarrow> Missing)"

definition disk_write :: "disk_file \<Rightarrow> disk \<Rightarrow> disk" where
  "disk_write new d = (case dk_writes d of
     [] \<Rightarrow> d\<lparr>dk_file := new, dk_readable := True\<rparr>
   | w # ws \<Rightarrow> d\<lparr>dk_file := flush_file w new (dk_file d),
       dk_readable := (if w = FlushKept then dk_readable d else True), dk_writes := ws\<rparr>)"

definition flush_locked :: "store \<Rightarrow> store" where
  "flush_locked s = s\<lparr>so_disk := disk_write (Parsed store_version (so_data s) (so_runs s)) (so_disk s)\<rparr>"

text \<open>The result says that the flush was skipped.\<close>

definition flush_unless_read_failed :: "store \<Rightarrow> bool \<times> store" where
  "flush_unless_read_failed s = (if so_read_failed s then (True, s) else (False, flush_locked s))"

definition record_pending :: "string \<Rightarrow> persisted option \<Rightarrow> store \<Rightarrow> store" where
  "record_pending k v s = s\<lparr>so_pending := AList.update k v (so_pending s)\<rparr>"

text \<open>A flush, with the mutation remembered when it was skipped.\<close>

definition flush_or_pend :: "string \<Rightarrow> persisted option \<Rightarrow> store \<Rightarrow> store" where
  "flush_or_pend k v s = (case flush_unless_read_failed s of
     (True, s') \<Rightarrow> record_pending k v s' | (False, s') \<Rightarrow> s')"

subsection \<open>Loading\<close>

fun apply_pending_data ::
    "(string \<times> persisted option) list \<Rightarrow> (string \<times> persisted) list \<Rightarrow> (string \<times> persisted) list" where
  "apply_pending_data [] m = m"
| "apply_pending_data ((k, None) # ps) m = apply_pending_data ps (AList.delete k m)"
| "apply_pending_data ((k, Some v) # ps) m = apply_pending_data ps (AList.update k v m)"

definition apply_pending :: "store \<Rightarrow> store" where
  "apply_pending s = (if so_pending s = [] then s
     else flush_locked (s\<lparr>so_data := apply_pending_data (so_pending s) (so_data s), so_pending := []\<rparr>))"

definition resumable :: "persisted \<Rightarrow> bool" where
  "resumable p \<longleftrightarrow> \<not> (ps_status p = ''active'' \<and> ps_instance p = [])"

definition load_sessions :: "(string \<times> persisted) list \<Rightarrow> (string \<times> persisted) list" where
  "load_sessions m = filter (\<lambda>(k, p). resumable p) m"

definition load_runs :: "run_table \<Rightarrow> run_table" where
  "load_runs m = filter (\<lambda>(k, as). as \<noteq> [])
     (map (\<lambda>(k, as). (k, filter (\<lambda>(a, r). pr_run r \<noteq> []) as)) m)"

definition load_locked :: "store \<Rightarrow> store" where
  "load_locked s = (if so_loaded s then s else
     let s0 = s\<lparr>so_data := [], so_runs := []\<rparr>;
         ok = (\<lambda>s. apply_pending (s\<lparr>so_loaded := True, so_read_failed := False\<rparr>))
     in case dk_file (so_disk s) of
          TooLarge \<Rightarrow> ok s0
        | Missing \<Rightarrow> ok s0
        | Garbage \<Rightarrow> if dk_readable (so_disk s) then ok s0 else s0\<lparr>so_read_failed := True\<rparr>
        | Parsed v ss rs \<Rightarrow>
            if \<not> dk_readable (so_disk s) then s0\<lparr>so_read_failed := True\<rparr>
            else if v \<noteq> store_version then ok s0
            else ok (s0\<lparr>so_data := load_sessions ss, so_runs := load_runs rs\<rparr>))"

subsection \<open>Sessions\<close>

definition to_persisted :: "cached \<Rightarrow> persisted" where
  "to_persisted c = \<lparr>ps_instance = cs_instance c, ps_model = cs_model c, ps_status = cs_status c,
     ps_expires = cs_expires c, ps_grace = cs_grace c, ps_position = cs_position c, ps_depth = cs_depth c,
     ps_poll_at = cs_poll_at c, ps_country = cs_country c, ps_block_reason = cs_block_reason c,
     ps_quota = (case cs_quota c of None \<Rightarrow> [] | Some q \<Rightarrow> q), ps_promo = cs_promo c\<rparr>"

definition of_persisted :: "persisted \<Rightarrow> cached" where
  "of_persisted p = \<lparr>cs_status = ps_status p, cs_instance = ps_instance p, cs_model = ps_model p,
     cs_expires = ps_expires p, cs_grace = ps_grace p, cs_position = ps_position p, cs_depth = ps_depth p,
     cs_poll_at = ps_poll_at p, cs_country = ps_country p, cs_block_reason = ps_block_reason p,
     cs_signals = [], cs_active = 0, cs_limit = 0,
     cs_quota = (if ps_quota p = [] then None else Some (ps_quota p)), cs_promo = ps_promo p, cs_standing = None\<rparr>"

definition store_load :: "string \<Rightarrow> gotime \<Rightarrow> store \<Rightarrow> cached option \<times> store" where
  "store_load k now s = (let s = load_locked s in
     case map_of (so_data s) k of
       None \<Rightarrow> (None, s)
     | Some p \<Rightarrow>
         if \<not> is_zero (ps_grace p) \<and> ps_grace p < now
         then (None, flush_or_pend k None (s\<lparr>so_data := AList.delete k (so_data s)\<rparr>))
         else (Some (of_persisted p), s))"

definition store_save :: "string \<Rightarrow> cached option \<Rightarrow> store \<Rightarrow> store" where
  "store_save k co s = (if k = [] then s else let s = load_locked s in
     case co of
       None \<Rightarrow> flush_or_pend k None (s\<lparr>so_data := AList.delete k (so_data s)\<rparr>)
     | Some c \<Rightarrow>
         if cs_instance c = [] \<and> cs_status c \<noteq> ''queued''
         then flush_or_pend k None (s\<lparr>so_data := AList.delete k (so_data s)\<rparr>)
         else flush_or_pend k (Some (to_persisted c))
                (s\<lparr>so_data := AList.update k (to_persisted c) (so_data s)\<rparr>))"

definition store_remove :: "string \<Rightarrow> string \<Rightarrow> store \<Rightarrow> store" where
  "store_remove k expected s = (if k = [] then s else let s = load_locked s in
     case map_of (so_data s) k of
       None \<Rightarrow> s
     | Some p \<Rightarrow>
         if expected \<noteq> [] \<and> ps_instance p \<noteq> expected then s
         else flush_or_pend k None (s\<lparr>so_data := AList.delete k (so_data s)\<rparr>))"

subsection \<open>Runs\<close>

definition agents_of :: "run_table \<Rightarrow> string \<Rightarrow> (string \<times> persisted_run) list" where
  "agents_of m k = (case map_of m k of None \<Rightarrow> [] | Some as \<Rightarrow> as)"

definition store_save_run :: "string \<Rightarrow> string \<Rightarrow> persisted_run \<Rightarrow> store \<Rightarrow> store" where
  "store_save_run k a r s = (if k = [] \<or> a = [] \<or> pr_run r = [] then s else let s = load_locked s in
     snd (flush_unless_read_failed
       (s\<lparr>so_runs := AList.update k (AList.update a r (agents_of (so_runs s) k)) (so_runs s)\<rparr>)))"

definition store_load_run :: "string \<Rightarrow> string \<Rightarrow> store \<Rightarrow> persisted_run option \<times> store" where
  "store_load_run k a s = (if k = [] \<or> a = [] then (None, s) else let s = load_locked s in
     (map_of (agents_of (so_runs s) k) a, s))"

definition store_remove_run :: "string \<Rightarrow> string \<Rightarrow> store \<Rightarrow> store" where
  "store_remove_run k a s = (if k = [] \<or> a = [] then s else let s = load_locked s in
     case map_of (so_runs s) k of
       None \<Rightarrow> s
     | Some as \<Rightarrow>
         if map_of as a = None then s
         else let as' = AList.delete a as;
                  rs = (if as' = [] then AList.delete k (so_runs s) else AList.update k as' (so_runs s))
              in snd (flush_unless_read_failed (s\<lparr>so_runs := rs\<rparr>)))"

subsection \<open>Any sequence of operations\<close>

datatype store_op =
    SLoad string gotime
  | SSave string "cached option"
  | SRemove string string
  | SSaveRun string string persisted_run
  | SLoadRun string string
  | SRemoveRun string string

fun store_apply :: "store_op \<Rightarrow> store \<Rightarrow> store" where
  "store_apply (SLoad k now) s = snd (store_load k now s)"
| "store_apply (SSave k c) s = store_save k c s"
| "store_apply (SRemove k e) s = store_remove k e s"
| "store_apply (SSaveRun k a r) s = store_save_run k a r s"
| "store_apply (SLoadRun k a) s = snd (store_load_run k a s)"
| "store_apply (SRemoveRun k a) s = store_remove_run k a s"

subsection \<open>Lemmas\<close>

text \<open>The file exists, is within the cap, and cannot be read.\<close>

definition unreadable :: "disk \<Rightarrow> bool" where
  "unreadable d \<longleftrightarrow> \<not> dk_readable d \<and> dk_file d \<noteq> Missing \<and> dk_file d \<noteq> TooLarge"

lemma load_unreadable:
  "\<not> so_loaded s \<Longrightarrow> unreadable (so_disk s) \<Longrightarrow>
     load_locked s = s\<lparr>so_data := [], so_runs := [], so_read_failed := True\<rparr>"
  by (cases "dk_file (so_disk s)") (auto simp: load_locked_def unreadable_def Let_def)

lemma load_loaded [simp]: "so_loaded s \<Longrightarrow> load_locked s = s"
  by (simp add: load_locked_def)

lemma flush_or_pend_disk: "so_read_failed s \<Longrightarrow> flush_or_pend k v s = record_pending k v s"
  by (simp add: flush_or_pend_def flush_unless_read_failed_def)

lemma flush_or_pend_ok: "\<not> so_read_failed s \<Longrightarrow> flush_or_pend k v s = flush_locked s"
  by (simp add: flush_or_pend_def flush_unless_read_failed_def)

lemma unreadable_kept:
  assumes "\<not> so_loaded s" "unreadable (so_disk s)"
  shows "so_disk (store_apply a s) = so_disk s \<and> \<not> so_loaded (store_apply a s)"
  using assms load_unreadable [OF assms]
  by (cases a)
    (auto simp: store_load_def store_save_def store_remove_def store_save_run_def store_load_run_def
      store_remove_run_def Let_def flush_or_pend_disk record_pending_def flush_unless_read_failed_def
      split: option.splits)

lemma unreadable_kept_list:
  "\<not> so_loaded s \<Longrightarrow> unreadable (so_disk s) \<Longrightarrow>
     so_disk (fold store_apply as s) = so_disk s \<and> \<not> so_loaded (fold store_apply as s)"
  by (induction as arbitrary: s) (auto simp: unreadable_kept)

lemma apply_pending_data_read:
  "gomap ps \<Longrightarrow> map_of (apply_pending_data ps m) k =
     (case map_of ps k of None \<Rightarrow> map_of m k | Some v \<Rightarrow> v)"
proof (induction ps m rule: apply_pending_data.induct)
  case (2 k' ps m)
  then have "map_of ps k' = None" by (auto simp: gomap_def map_of_eq_None_iff)
  with 2 show ?case by (auto simp: gomap_def gomap_simps split: option.splits)
next
  case (3 k' v ps m)
  then have "map_of ps k' = None" by (auto simp: gomap_def map_of_eq_None_iff)
  with 3 show ?case by (auto simp: gomap_def gomap_simps split: option.splits)
qed simp

lemma gomap_apply_pending: "gomap m \<Longrightarrow> gomap (apply_pending_data ps m)"
  by (induction ps m rule: apply_pending_data.induct) (auto intro: gomap_intros)

subsection \<open>Well-formedness\<close>

text \<open>
  The maps have distinct keys, a store whose last read failed is not loaded, and only such a
  store has pending mutations.
\<close>

definition runs_ok :: "run_table \<Rightarrow> bool" where
  "runs_ok m \<longleftrightarrow> gomap m \<and> (\<forall>as \<in> snd ` set m. gomap as)"

definition disk_ok :: "disk \<Rightarrow> bool" where
  "disk_ok d \<longleftrightarrow> (case dk_file d of Parsed v ss rs \<Rightarrow> gomap ss \<and> runs_ok rs | _ \<Rightarrow> True)"

definition store_ok :: "store \<Rightarrow> bool" where
  "store_ok s \<longleftrightarrow> gomap (so_data s) \<and> runs_ok (so_runs s) \<and> gomap (so_pending s) \<and> (so_read_failed s \<longrightarrow> \<not> so_loaded s) \<and>
     (so_loaded s \<longrightarrow> so_pending s = []) \<and> disk_ok (so_disk s)"

lemma store_ok_new: "disk_ok d \<Longrightarrow> store_ok (new_store d)"
  by (simp add: store_ok_def new_store_def runs_ok_def)

lemma disk_ok_write:
  "disk_ok d \<Longrightarrow> gomap ss \<Longrightarrow> runs_ok rs \<Longrightarrow> disk_ok (disk_write (Parsed v ss rs) d)"
  by (auto simp: disk_ok_def disk_write_def flush_file_def split: list.splits flush_out.splits disk_file.splits)

lemma store_ok_flush: "store_ok s \<Longrightarrow> store_ok (flush_locked s)"
  by (simp add: store_ok_def flush_locked_def disk_ok_write)

lemma store_ok_pend: "store_ok s \<Longrightarrow> \<not> so_loaded s \<Longrightarrow> store_ok (record_pending k v s)"
  by (simp add: store_ok_def record_pending_def gomap_update)

lemma store_ok_flush_or_pend: "store_ok s \<Longrightarrow> store_ok (flush_or_pend k v s)"
  by (cases "so_read_failed s")
    (auto simp: flush_or_pend_disk flush_or_pend_ok store_ok_flush store_ok_def [of s] intro!: store_ok_pend)

lemma store_ok_flush_unless: "store_ok s \<Longrightarrow> store_ok (snd (flush_unless_read_failed s))"
  by (simp add: flush_unless_read_failed_def store_ok_flush)

lemma runs_ok_load: "runs_ok rs \<Longrightarrow> runs_ok (load_runs rs)"
proof -
  assume ok: "runs_ok rs"
  then have "gomap (map (\<lambda>(k, as). (k, filter (\<lambda>(a, r). pr_run r \<noteq> []) as)) rs)"
    by (simp add: runs_ok_def gomap_def comp_def case_prod_beta)
  then have "gomap (load_runs rs)" unfolding load_runs_def by (rule gomap_filter)
  then show ?thesis using ok by (auto simp: runs_ok_def load_runs_def intro!: gomap_filter)
qed

lemma runs_ok_Nil [simp]: "runs_ok []"
  by (simp add: runs_ok_def)

lemma store_ok_fresh:
  assumes "gomap ps" "disk_ok d" "gomap ss" "runs_ok rs"
  shows "store_ok (apply_pending \<lparr>so_data = ss, so_runs = rs, so_loaded = True, so_read_failed = False,
      so_pending = ps, so_disk = d\<rparr>)"
proof (cases "ps = []")
  case False
  have "store_ok \<lparr>so_data = apply_pending_data ps ss, so_runs = rs, so_loaded = True, so_read_failed = False,
      so_pending = [], so_disk = d\<rparr>"
    using assms by (simp add: store_ok_def gomap_apply_pending)
  from store_ok_flush [OF this] False show ?thesis by (simp add: apply_pending_def)
qed (use assms in \<open>simp add: apply_pending_def store_ok_def\<close>)

lemma load_locked_cases:
  assumes "\<not> so_loaded s" "\<not> unreadable (so_disk s)"
  obtains ss rs where
    "load_locked s = apply_pending \<lparr>so_data = ss, so_runs = rs, so_loaded = True, so_read_failed = False,
       so_pending = so_pending s, so_disk = so_disk s\<rparr>"
    "(\<exists>ss0 rs0. dk_file (so_disk s) = Parsed store_version ss0 rs0 \<and> ss = load_sessions ss0 \<and> rs = load_runs rs0) \<or>
     ss = [] \<and> rs = []"
proof (cases "dk_file (so_disk s)")
  case (Parsed v ss0 rs0)
  show ?thesis
  proof (cases "v = store_version")
    case True
    then show ?thesis
      using that [of "load_sessions ss0" "load_runs rs0"] assms Parsed
      by (cases s) (simp add: load_locked_def Let_def unreadable_def)
  next
    case False
    then show ?thesis using that [of "[]" "[]"] assms Parsed
      by (cases s) (simp add: load_locked_def Let_def unreadable_def)
  qed
qed (use that [of "[]" "[]"] assms in \<open>cases s; simp add: load_locked_def Let_def unreadable_def\<close>)+

lemma store_ok_load: "store_ok s \<Longrightarrow> store_ok (load_locked s)"
proof (cases "so_loaded s")
  case False
  assume ok: "store_ok s"
  show ?thesis
  proof (cases "unreadable (so_disk s)")
    case True
    then show ?thesis using ok False by (simp add: load_unreadable store_ok_def)
  next
    case un: False
    from load_locked_cases [OF False un] obtain ss rs where
      l: "load_locked s = apply_pending \<lparr>so_data = ss, so_runs = rs, so_loaded = True, so_read_failed = False,
           so_pending = so_pending s, so_disk = so_disk s\<rparr>"
      and c: "(\<exists>ss0 rs0. dk_file (so_disk s) = Parsed store_version ss0 rs0 \<and> ss = load_sessions ss0 \<and>
          rs = load_runs rs0) \<or> ss = [] \<and> rs = []" .
    have "gomap ss" "runs_ok rs"
      using c ok by (auto simp: store_ok_def disk_ok_def load_sessions_def intro: gomap_filter runs_ok_load)
    then show ?thesis using ok unfolding l by (intro store_ok_fresh) (auto simp: store_ok_def)
  qed
qed simp

lemma store_ok_data: "store_ok s \<Longrightarrow> gomap m \<Longrightarrow> store_ok (s\<lparr>so_data := m\<rparr>)"
  by (simp add: store_ok_def)

lemma gomap_agents: "store_ok s \<Longrightarrow> gomap (agents_of (so_runs s) k)"
  by (force simp: store_ok_def runs_ok_def agents_of_def split: option.splits dest!: map_of_SomeD)

lemma runs_ok_update: "runs_ok m \<Longrightarrow> gomap as \<Longrightarrow> runs_ok (AList.update k as m)"
proof -
  assume ok: "runs_ok m" "gomap as"
  have "gomap x" if "x \<in> snd ` set (AList.update k as m)" for x
  proof -
    have "x \<in> insert as (snd ` set m)" using snd_set_update that by (rule subsetD)
    then show ?thesis using ok by (auto simp only: runs_ok_def insert_iff)
  qed
  then show ?thesis using ok by (simp add: runs_ok_def gomap_update)
qed

lemma store_ok_runs_update:
  "store_ok s \<Longrightarrow> gomap as \<Longrightarrow> store_ok (s\<lparr>so_runs := AList.update k as (so_runs s)\<rparr>)"
  by (simp add: store_ok_def runs_ok_update)

lemma store_ok_runs_delete: "store_ok s \<Longrightarrow> store_ok (s\<lparr>so_runs := AList.delete k (so_runs s)\<rparr>)"
  by (auto simp: store_ok_def runs_ok_def gomap_delete set_delete)

lemmas store_ok_intros = store_ok_flush_or_pend store_ok_flush_unless store_ok_load store_ok_data
  store_ok_runs_update store_ok_runs_delete gomap_agents

lemma store_ok_gomap: "store_ok s \<Longrightarrow> gomap (so_data s)"
  by (simp add: store_ok_def)

lemma store_ok_apply: "store_ok s \<Longrightarrow> store_ok (store_apply a s)"
proof (cases a)
  case (SRemoveRun k g)
  assume ok: "store_ok s"
  have "map_of (so_runs (load_locked s)) k = Some as \<Longrightarrow> gomap as" for as
    using gomap_agents [OF store_ok_load [OF ok], of k] by (simp add: agents_of_def)
  then show ?thesis using SRemoveRun ok
    by (auto simp: store_remove_run_def Let_def intro!: store_ok_intros gomap_delete split: option.splits)
qed (auto simp: store_load_def store_save_def store_remove_def store_save_run_def store_load_run_def Let_def
      intro!: store_ok_intros gomap_update gomap_delete store_ok_gomap split: option.splits)

subsection \<open>Reads after writes\<close>

lemma so_data_flush [simp]:
  "so_data (flush_locked s) = so_data s" "so_runs (flush_locked s) = so_runs s"
  "so_loaded (flush_locked s) = so_loaded s" "so_read_failed (flush_locked s) = so_read_failed s"
  by (simp_all add: flush_locked_def)

lemma so_data_flush_or_pend [simp]:
  "so_data (flush_or_pend k v s) = so_data s" "so_runs (flush_or_pend k v s) = so_runs s"
  "so_loaded (flush_or_pend k v s) = so_loaded s"
  by (simp_all add: flush_or_pend_def flush_unless_read_failed_def record_pending_def)

lemma so_data_flush_unless [simp]:
  "so_data (snd (flush_unless_read_failed s)) = so_data s"
  "so_runs (snd (flush_unless_read_failed s)) = so_runs s"
  "so_loaded (snd (flush_unless_read_failed s)) = so_loaded s"
  by (simp_all add: flush_unless_read_failed_def)

text \<open>What a client of the run table relies on.\<close>

locale keyed_store =
  fixes inv :: "'s \<Rightarrow> bool"
    and get :: "'s \<Rightarrow> 'k \<Rightarrow> 'v option"
    and put :: "'k \<Rightarrow> 'v \<Rightarrow> 's \<Rightarrow> 's"
    and del :: "'k \<Rightarrow> 's \<Rightarrow> 's"
    and okv :: "'k \<Rightarrow> 'v \<Rightarrow> bool"
  assumes put_inv: "inv s \<Longrightarrow> inv (put k v s)"
    and del_inv: "inv s \<Longrightarrow> inv (del k s)"
    and get_put: "inv s \<Longrightarrow> okv k v \<Longrightarrow> get (put k v s) k' = (if k' = k then Some v else get s k')"
    and get_del: "inv s \<Longrightarrow> get (del k s) k' = (if k' = k then None else get s k')"
begin

lemma put_put: "inv s \<Longrightarrow> okv k v \<Longrightarrow> okv k w \<Longrightarrow> get (put k w (put k v s)) k' = get (put k w s) k'"
  by (simp add: get_put put_inv)

lemma del_put: "inv s \<Longrightarrow> okv k v \<Longrightarrow> get (del k (put k v s)) k' = get (del k s) k'"
  by (simp add: get_put get_del put_inv)

lemma fold_put:
  "inv s \<Longrightarrow> (\<forall>(k, v) \<in> set kvs. okv k v) \<Longrightarrow> distinct (map fst kvs) \<Longrightarrow>
     get (fold (\<lambda>(k, v). put k v) kvs s) k = (case map_of kvs k of None \<Rightarrow> get s k | Some v \<Rightarrow> Some v)"
proof (induction kvs arbitrary: s)
  case (Cons kv kvs)
  obtain a v where kv: "kv = (a, v)" by (cases kv)
  have n: "map_of kvs a = None" using Cons.prems(3) kv by (simp add: map_of_eq_None_iff)
  have "get (fold (\<lambda>(k, v). put k v) kvs (put a v s)) k =
      (case map_of kvs k of None \<Rightarrow> get (put a v s) k | Some v \<Rightarrow> Some v)"
    using Cons.prems kv by (intro Cons.IH) (simp_all add: put_inv)
  also have "get (put a v s) k = (if k = a then Some v else get s k)"
    using Cons.prems kv by (intro get_put) simp_all
  finally show ?case using n by (simp add: kv split: option.split)
qed simp

end

definition run_inv :: "store \<Rightarrow> bool" where
  "run_inv s \<longleftrightarrow> store_ok s \<and> so_loaded s"

definition run_get :: "string \<Rightarrow> store \<Rightarrow> string \<Rightarrow> persisted_run option" where
  "run_get key s a = fst (store_load_run key a s)"

lemma agents_of_update: "agents_of (AList.update k as m) k' = (if k' = k then as else agents_of m k')"
  by (simp add: agents_of_def gomap_simps)

lemma agents_of_delete: "agents_of (AList.delete k m) k' = (if k' = k then [] else agents_of m k')"
  by (simp add: agents_of_def gomap_simps)

lemma agents_of_remove:
  "agents_of (if AList.delete a as = [] then AList.delete k m else AList.update k (AList.delete a as) m) k' =
     (if k' = k then AList.delete a as else agents_of m k')"
  by (simp add: agents_of_update agents_of_delete)

lemma run_get_loaded:
  "so_loaded s \<Longrightarrow> run_get key s a = (if key = [] \<or> a = [] then None else map_of (agents_of (so_runs s) key) a)"
  by (simp add: run_get_def store_load_run_def)

lemma store_remove_run_runs:
  assumes "so_loaded s" "key \<noteq> []" "a \<noteq> []"
  shows "map_of (agents_of (so_runs (store_remove_run key a s)) key) a' =
     (if a' = a then None else map_of (agents_of (so_runs s) key) a')"
proof (cases "map_of (so_runs s) key")
  case None
  then show ?thesis using assms by (simp add: store_remove_run_def agents_of_def)
next
  case (Some as)
  then have ag: "agents_of (so_runs s) key = as" by (simp add: agents_of_def)
  show ?thesis
  proof (cases "map_of as a = None")
    case True
    then show ?thesis using assms Some ag by (simp add: store_remove_run_def)
  next
    case False
    then have "so_runs (store_remove_run key a s) =
        (if AList.delete a as = [] then AList.delete key (so_runs s) else AList.update key (AList.delete a as) (so_runs s))"
      using assms Some by (auto simp: store_remove_run_def Let_def)
    then have "agents_of (so_runs (store_remove_run key a s)) key = AList.delete a as"
      by (simp only: agents_of_remove if_True simp_thms)
    then show ?thesis using ag by (simp add: map_of_delete)
  qed
qed

lemma store_save_run_runs:
  assumes "so_loaded s" "key \<noteq> []" "a \<noteq> []" "pr_run r \<noteq> []"
  shows "map_of (agents_of (so_runs (store_save_run key a r s)) key) a' =
     (if a' = a then Some r else map_of (agents_of (so_runs s) key) a')"
  using assms by (simp add: store_save_run_def agents_of_update map_of_update)

lemma run_ops_loaded [simp]:
  "so_loaded s \<Longrightarrow> so_loaded (store_save_run key a r s)"
  "so_loaded s \<Longrightarrow> so_loaded (store_remove_run key a s)"
  by (simp_all add: store_save_run_def store_remove_run_def Let_def split: option.split)

interpretation run_table: keyed_store run_inv "run_get key" "store_save_run key" "store_remove_run key"
  "\<lambda>a r. key \<noteq> [] \<and> a \<noteq> [] \<and> pr_run r \<noteq> []"
proof
  fix s k v k'
  assume i: "run_inv s"
  then have l: "so_loaded s" by (simp add: run_inv_def)
  show "run_inv (store_save_run key k v s)"
    using i l store_ok_apply [of s "SSaveRun key k v"] by (simp add: run_inv_def)
  show "run_inv (store_remove_run key k s)"
    using i l store_ok_apply [of s "SRemoveRun key k"] by (simp add: run_inv_def)
  show "run_get key (store_save_run key k v s) k' = (if k' = k then Some v else run_get key s k')"
    if "key \<noteq> [] \<and> k \<noteq> [] \<and> pr_run v \<noteq> []"
    using l that by (simp add: run_get_loaded store_save_run_runs)
  show "run_get key (store_remove_run key k s) k' = (if k' = k then None else run_get key s k')"
  proof (cases "key = [] \<or> k = []")
    case True
    then show ?thesis using l by (auto simp: run_get_loaded store_remove_run_def)
  next
    case False
    then show ?thesis using l by (simp add: run_get_loaded store_remove_run_runs)
  qed
qed

subsection \<open>Sessions across a restart\<close>

definition persistable :: "cached \<Rightarrow> bool" where
  "persistable c \<longleftrightarrow> cs_instance c \<noteq> [] \<or> cs_status c = ''queued''"

definition expired_at :: "gotime \<Rightarrow> cached \<Rightarrow> bool" where
  "expired_at now c \<longleftrightarrow> \<not> is_zero (cs_grace c) \<and> cs_grace c < now"

text \<open>The fields a restart preserves.\<close>

definition resumed :: "cached \<Rightarrow> cached" where
  "resumed c = c\<lparr>cs_signals := [], cs_active := 0, cs_limit := 0, cs_standing := None,
     cs_quota := (if cs_quota c = Some [] then None else cs_quota c)\<rparr>"

lemma of_to_persisted: "of_persisted (to_persisted c) = resumed c"
  by (cases c) (auto simp: of_persisted_def to_persisted_def resumed_def split: option.splits)

lemma resumable_to_persisted: "persistable c \<Longrightarrow> resumable (to_persisted c)"
  by (auto simp: persistable_def resumable_def to_persisted_def)

lemma ps_grace_to_persisted [simp]: "ps_grace (to_persisted c) = cs_grace c"
  by (simp add: to_persisted_def)

lemma load_reads:
  "map_of (so_data (load_locked s)) k = Some (to_persisted c) \<Longrightarrow> \<not> expired_at now c \<Longrightarrow>
     fst (store_load k now s) = Some (resumed c)"
  by (auto simp: store_load_def Let_def of_to_persisted expired_at_def)

lemma load_locked_ok:
  assumes "\<not> unreadable (so_disk s)" "store_ok s"
  shows "so_loaded (load_locked s) \<and> \<not> so_read_failed (load_locked s) \<and> so_pending (load_locked s) = []"
proof (cases "so_loaded s")
  case False
  from load_locked_cases [OF this assms(1)] obtain ss rs where
    "load_locked s = apply_pending \<lparr>so_data = ss, so_runs = rs, so_loaded = True, so_read_failed = False,
       so_pending = so_pending s, so_disk = so_disk s\<rparr>" .
  then show ?thesis by (auto simp: apply_pending_def flush_locked_def)
qed (use assms in \<open>auto simp: store_ok_def\<close>)

lemma load_locked_writes:
  assumes "\<not> unreadable (so_disk s)" "dk_writes (so_disk s) = []"
  shows "dk_writes (so_disk (load_locked s)) = []"
proof (cases "so_loaded s")
  case False
  from load_locked_cases [OF this assms(1)] obtain ss rs where
    "load_locked s = apply_pending \<lparr>so_data = ss, so_runs = rs, so_loaded = True, so_read_failed = False,
       so_pending = so_pending s, so_disk = so_disk s\<rparr>" .
  then show ?thesis using assms(2) by (auto simp: apply_pending_def flush_locked_def disk_write_def)
qed (use assms in simp)

lemma store_save_ready:
  assumes "store_ok s" "\<not> unreadable (so_disk s)" "k \<noteq> []" "persistable c"
  shows "store_save k (Some c) s = flush_locked ((load_locked s)
    \<lparr>so_data := AList.update k (to_persisted c) (so_data (load_locked s))\<rparr>)"
  using assms load_locked_ok [OF assms(2,1)]
  by (auto simp: store_save_def persistable_def Let_def flush_or_pend_ok)

lemma map_of_load_sessions:
  "gomap m \<Longrightarrow> map_of (load_sessions m) k =
     (case map_of m k of None \<Rightarrow> None | Some p \<Rightarrow> if resumable p then Some p else None)"
  unfolding load_sessions_def by (rule map_of_filter_gomap)

lemma load_parsed:
  assumes "dk_file d = Parsed store_version ss rs" "dk_readable d"
  shows "load_locked (new_store d) = \<lparr>so_data = load_sessions ss, so_runs = load_runs rs, so_loaded = True,
     so_read_failed = False, so_pending = [], so_disk = d\<rparr>"
  using assms by (simp add: load_locked_def new_store_def Let_def apply_pending_def)

lemma save_flushes:
  assumes "store_ok s" "\<not> unreadable (so_disk s)" "dk_writes (so_disk s) = []" "k \<noteq> []" "persistable c"
  shows "dk_file (so_disk (store_save k (Some c) s)) =
      Parsed store_version (AList.update k (to_persisted c) (so_data (load_locked s))) (so_runs (load_locked s))"
    "dk_readable (so_disk (store_save k (Some c) s))"
    "gomap (AList.update k (to_persisted c) (so_data (load_locked s)))"
proof -
  have "dk_writes (so_disk (load_locked s)) = []" by (rule load_locked_writes [OF assms(2,3)])
  then show "dk_file (so_disk (store_save k (Some c) s)) =
      Parsed store_version (AList.update k (to_persisted c) (so_data (load_locked s))) (so_runs (load_locked s))"
    "dk_readable (so_disk (store_save k (Some c) s))"
    using store_save_ready [OF assms(1,2,4,5)] by (simp_all add: flush_locked_def disk_write_def)
  show "gomap (AList.update k (to_persisted c) (so_data (load_locked s)))"
    using store_ok_gomap [OF store_ok_load [OF assms(1)]] by (rule gomap_update)
qed

text \<open>What a new store over the same file reads after a save.\<close>

lemma saved_entries:
  assumes "store_ok s" "\<not> unreadable (so_disk s)" "dk_writes (so_disk s) = []" "k \<noteq> []" "persistable c"
  shows "map_of (so_data (load_locked (new_store (so_disk (store_save k (Some c) s))))) j =
    (case map_of (AList.update k (to_persisted c) (so_data (load_locked s))) j of
       None \<Rightarrow> None | Some p \<Rightarrow> if resumable p then Some p else None)"
  using load_parsed [OF save_flushes(1,2) [OF assms]] map_of_load_sessions [OF save_flushes(3) [OF assms], of j] by simp

lemma saved_reads_back:
  assumes "store_ok s" "\<not> unreadable (so_disk s)" "dk_writes (so_disk s) = []"
    and "k \<noteq> []" "persistable c" "\<not> expired_at now c"
  shows "fst (store_load k now (new_store (so_disk (store_save k (Some c) s)))) = Some (resumed c)"
    "so_disk (snd (store_load k now (new_store (so_disk (store_save k (Some c) s))))) = so_disk (store_save k (Some c) s)"
proof -
  let ?d = "so_disk (store_save k (Some c) s)"
  have k: "map_of (so_data (load_locked (new_store ?d))) k = Some (to_persisted c)"
    using saved_entries [OF assms(1-5), of k] resumable_to_persisted [OF assms(5)] by (simp add: map_of_update)
  then show "fst (store_load k now (new_store ?d)) = Some (resumed c)" by (rule load_reads [OF _ assms(6)])
  have "so_disk (load_locked (new_store ?d)) = ?d"
    using save_flushes(1,2) [OF assms(1-5)] by (simp add: load_locked_def new_store_def apply_pending_def Let_def)
  then show "so_disk (snd (store_load k now (new_store ?d))) = ?d"
    using k assms(6) by (auto simp: store_load_def Let_def expired_at_def to_persisted_def)
qed


definition sample_session :: cached where
  "sample_session = \<lparr>cs_status = ''active'', cs_instance = ''i1'', cs_model = ''m'', cs_expires = hour,
     cs_grace = 2 * hour, cs_position = 0, cs_depth = 0, cs_poll_at = zero_time, cs_country = ''US'',
     cs_block_reason = [], cs_signals = [''vpn''], cs_active = 3, cs_limit = 5, cs_quota = None, cs_promo = [],
     cs_standing = None\<rparr>"

definition empty_disk :: disk where
  "empty_disk = \<lparr>dk_file = Missing, dk_readable = True, dk_writes = []\<rparr>"

lemma empty_disk_facts [simp]:
  "disk_ok empty_disk" "\<not> unreadable empty_disk" "dk_writes empty_disk = []" "store_ok (new_store empty_disk)"
  "so_disk (new_store d) = d" "\<not> so_loaded (new_store d)"
  by (auto simp: disk_ok_def empty_disk_def unreadable_def new_store_def store_ok_def)




subsection \<open>Recovery of mutations made while the file was unreadable\<close>

definition with_disk :: "disk \<Rightarrow> store \<Rightarrow> store" where
  "with_disk d s = s\<lparr>so_disk := d\<rparr>"

lemma save_unreadable:
  assumes "\<not> so_loaded s" "unreadable (so_disk s)" "k \<noteq> []" "persistable c"
  shows "so_pending (store_save k (Some c) s) = AList.update k (Some (to_persisted c)) (so_pending s) \<and>
    \<not> so_loaded (store_save k (Some c) s) \<and> so_disk (store_save k (Some c) s) = so_disk s"
  using assms load_unreadable [OF assms(1,2)]
  by (auto simp: store_save_def persistable_def Let_def flush_or_pend_disk record_pending_def)

lemma remove_unreadable:
  assumes "\<not> so_loaded s" "unreadable (so_disk s)" "k \<noteq> []"
  shows "so_pending (store_remove k e s) = so_pending s \<and> \<not> so_loaded (store_remove k e s) \<and>
    so_disk (store_remove k e s) = so_disk s"
  using assms load_unreadable [OF assms(1,2)] by (simp add: store_remove_def Let_def)

lemma recovered_data:
  assumes "store_ok s" "\<not> so_loaded s" "dk_file d = Parsed store_version ss rs" "dk_readable d" "gomap ss"
  shows "map_of (so_data (load_locked (with_disk d s))) k =
    (case map_of (so_pending s) k of None \<Rightarrow> map_of (load_sessions ss) k | Some v \<Rightarrow> v)"
  using assms apply_pending_data_read [of "so_pending s" "load_sessions ss" k]
  by (auto simp: load_locked_def with_disk_def Let_def apply_pending_def store_ok_def split: option.split)

text \<open>
  A session saved while the file was unreadable is not lost.  Once the file can be read
  again the saved state is merged over the file's content: its key reads back the saved
  session and every key with no pending mutation reads what the file holds.
\<close>

theorem save_survives_unreadable_window:
  assumes "store_ok s" "\<not> so_loaded s" "unreadable (so_disk s)" "k \<noteq> []" "persistable c" "\<not> expired_at now c"
    and "dk_file d = Parsed store_version ss rs" "dk_readable d" "gomap ss" "disk_ok d"
  shows "fst (store_load k now (with_disk d (store_save k (Some c) s))) = Some (resumed c) \<and>
    (k' \<noteq> k \<and> map_of (so_pending s) k' = None \<longrightarrow>
       map_of (so_data (load_locked (with_disk d (store_save k (Some c) s)))) k' = map_of (load_sessions ss) k')"
proof -
  have ok: "store_ok (store_save k (Some c) s)" using store_ok_apply [of s "SSave k (Some c)"] assms(1) by simp
  note u = save_unreadable [OF assms(2-5)]
  have r: "map_of (so_data (load_locked (with_disk d (store_save k (Some c) s)))) j =
      (case map_of (AList.update k (Some (to_persisted c)) (so_pending s)) j of
         None \<Rightarrow> map_of (load_sessions ss) j | Some v \<Rightarrow> v)" for j
    using recovered_data [OF ok _ assms(7-9), of j] u by simp
  show ?thesis
    using load_reads [OF _ assms(6), of "with_disk d (store_save k (Some c) s)" k] r [of k] r [of k']
    by (simp add: map_of_update)
qed

theorem save_survives_unreadable_window_witness:
  "fst (store_load ''k'' 0 (with_disk \<lparr>dk_file = Parsed store_version [] [], dk_readable = True, dk_writes = []\<rparr>
     (store_save ''k'' (Some sample_session) (new_store \<lparr>dk_file = Garbage, dk_readable = False, dk_writes = []\<rparr>)))) =
     Some (resumed sample_session)"
  using save_survives_unreadable_window [of "new_store \<lparr>dk_file = Garbage, dk_readable = False, dk_writes = []\<rparr>"
      "''k''" sample_session 0 "\<lparr>dk_file = Parsed store_version [] [], dk_readable = True, dk_writes = []\<rparr>" "[]" "[]"]
  by (simp add: persistable_def expired_at_def sample_session_def unreadable_def store_ok_new disk_ok_def)

text \<open>
  C10: an invalidation in the same window is lost.  A session saved and then removed while
  the file is unreadable comes back when the file can be read again: \<open>Remove\<close> consults the
  in-memory map, which every failed read has emptied, finds no entry and records nothing.
\<close>

theorem remove_lost_in_unreadable_window:
  assumes "store_ok s" "\<not> so_loaded s" "unreadable (so_disk s)" "k \<noteq> []" "persistable c" "\<not> expired_at now c"
    and "dk_file d = Parsed store_version ss rs" "dk_readable d" "gomap ss"
  shows "fst (store_load k now (with_disk d (store_remove k e (store_save k (Some c) s)))) = Some (resumed c)"
proof -
  let ?s1 = "store_save k (Some c) s"
  let ?s2 = "store_remove k e ?s1"
  have ok: "store_ok ?s2"
    using store_ok_apply [OF store_ok_apply [of s "SSave k (Some c)"], of "SRemove k e"] assms(1) by simp
  note u = save_unreadable [OF assms(2-5)]
  have v: "so_pending ?s2 = AList.update k (Some (to_persisted c)) (so_pending s)" "\<not> so_loaded ?s2"
    using remove_unreadable [of ?s1 k e] u assms(3,4) by simp_all
  have "map_of (so_data (load_locked (with_disk d ?s2))) k = Some (to_persisted c)"
    using recovered_data [OF ok v(2) assms(7-9), of k] v(1) by (simp add: map_of_update)
  then show ?thesis by (rule load_reads [OF _ assms(6)])
qed

theorem remove_lost_in_unreadable_window_witness:
  "fst (store_load ''k'' 0 (with_disk \<lparr>dk_file = Parsed store_version [] [], dk_readable = True, dk_writes = []\<rparr>
     (store_remove ''k'' ''i1'' (store_save ''k'' (Some sample_session)
        (new_store \<lparr>dk_file = Garbage, dk_readable = False, dk_writes = []\<rparr>))))) = Some (resumed sample_session)"
  using remove_lost_in_unreadable_window [of "new_store \<lparr>dk_file = Garbage, dk_readable = False, dk_writes = []\<rparr>"
      "''k''" sample_session 0 "\<lparr>dk_file = Parsed store_version [] [], dk_readable = True, dk_writes = []\<rparr>" "[]" "[]" "''i1''"]
  by (simp add: persistable_def expired_at_def sample_session_def unreadable_def store_ok_new disk_ok_def)

subsection \<open>Compare and remove\<close>

text \<open>
  A stale invalidation cannot clobber a newer session.  On a loaded store \<open>Remove\<close> deletes
  the entry exactly when no instance id is expected or the stored one is the expected one,
  and touches no other key.
\<close>

theorem remove_compares_instance:
  assumes "so_loaded s" "k \<noteq> []"
  shows "map_of (so_data (store_remove k e s)) k' =
    (if k' = k \<and> (\<forall>p. map_of (so_data s) k = Some p \<longrightarrow> e = [] \<or> ps_instance p = e) then None
     else map_of (so_data s) k')"
  using assms by (auto simp: store_remove_def map_of_delete split: option.split)

theorem remove_compares_instance_witness:
  "map_of (so_data (store_remove ''k'' ''old'' (store_save ''k'' (Some sample_session) (new_store empty_disk)))) ''k'' =
     Some (to_persisted sample_session)"
proof -
  let ?s = "store_save ''k'' (Some sample_session) (new_store empty_disk)"
  have d: "so_loaded ?s" "map_of (so_data ?s) ''k'' = Some (to_persisted sample_session)"
    using load_locked_ok [of "new_store empty_disk"]
    by (simp_all add: store_save_def Let_def sample_session_def map_of_update)
  show ?thesis using remove_compares_instance [OF d(1), of "''k''" "''old''" "''k''"] d(2)
    by (simp add: to_persisted_def sample_session_def)
qed

text \<open>
  The run table is a map.  On a store that has read its file, after any list of saves
  of runs with distinct agents, each agent of the token reads back its run, every other
  agent its previous one, and a removed run is gone.
\<close>

theorem run_table_reads_back:
  assumes "store_ok s" "so_loaded s" "key \<noteq> []"
    and "\<forall>(a, r) \<in> set rs. a \<noteq> [] \<and> pr_run r \<noteq> []" "distinct (map fst rs)"
  shows "fst (store_load_run key a (fold (\<lambda>(a, r). store_save_run key a r) rs s)) =
      (case map_of rs a of None \<Rightarrow> fst (store_load_run key a s) | Some r \<Rightarrow> Some r) \<and>
    fst (store_load_run key a (store_remove_run key a (fold (\<lambda>(a, r). store_save_run key a r) rs s))) = None"
proof -
  have i: "run_inv s" using assms(1,2) by (simp add: run_inv_def)
  have f: "run_inv (fold (\<lambda>(a, r). store_save_run key a r) rs s)"
    using i by (induction rs arbitrary: s) (auto intro: run_table.put_inv)
  have "run_get key (fold (\<lambda>(a, r). store_save_run key a r) rs s) a =
      (case map_of rs a of None \<Rightarrow> run_get key s a | Some r \<Rightarrow> Some r)"
    using assms(3,4) by (intro run_table.fold_put [OF i _ assms(5)]) auto
  with run_table.get_del [OF f, of key a a] show ?thesis unfolding run_get_def by simp
qed

theorem run_table_reads_back_witness:
  "fst (store_load_run ''k'' ''ag'' (store_save_run ''k'' ''ag''
     \<lparr>pr_run = ''r1'', pr_agent = ''ag'', pr_trace = [], pr_started = 0, pr_requests = 1\<rparr>
     (load_locked (new_store empty_disk)))) =
   Some \<lparr>pr_run = ''r1'', pr_agent = ''ag'', pr_trace = [], pr_started = 0, pr_requests = 1\<rparr>"
  using run_table_reads_back [of "load_locked (new_store empty_disk)" "''k''"
      "[(''ag'', \<lparr>pr_run = ''r1'', pr_agent = ''ag'', pr_trace = [], pr_started = 0, pr_requests = 1\<rparr>)]" "''ag''"]
    load_locked_ok [of "new_store empty_disk"] store_ok_load [of "new_store empty_disk"]
  by simp

end
