(* ===== verification/RunModel.thy ===== *)
theory RunModel
  imports RunCooldown SessionStore
begin

text \<open>
  \<open>internal/runs/runs.go\<close>, \<open>steps.go\<close> and \<open>drain.go\<close>: the runs of one token.

  A \<open>*Run\<close> is a pointer into the heap of its manager, so that two \<open>Run\<close> objects with equal
  fields stay different; a \<open>*runFlight\<close> likewise.  The code is cut where it releases the
  manager's mutex: each \<open>task\<close> is one critical section (or one call on the store or on the
  upstream), \<open>exec\<close> runs it and returns the tasks that remain to be done in its place, and a
  goroutine is a list of tasks.  Everything a task reads from its surroundings, the clock, the
  caller's context, the upstream's reply and the random bytes, is in the environment \<open>env\<close> of
  that step, with \<open>ev_pick\<close> the choice of a \<open>select\<close> whose cases are both ready (and whether a
  lease holder was cut off by its client).  \<open>None\<close> is a task that has to wait.

  \<open>rm_log\<close> is a ghost: the upstream calls whose reply has arrived, the runs that were dropped
  from the draining list or invalidated, and the runs adopted from the store, newest first.
\<close>

record run_step =
  sp_id :: string
  sp_number :: int
  sp_message :: "string option"
  sp_status :: string
  sp_start :: string

record run =
  r_agent :: string
  r_id :: string
  r_started :: gotime
  r_requests :: int
  r_trace :: string
  r_step_count :: int
  r_steps :: "run_step list"
  r_step_total :: int
  r_status :: string
  r_inflight :: int
  r_finishing :: bool
  r_queued :: bool
  r_drained_at :: gotime

definition fresh_run :: "string \<Rightarrow> string \<Rightarrow> gotime \<Rightarrow> string \<Rightarrow> int \<Rightarrow> run" where
  "fresh_run a i t tr n = \<lparr>r_agent = a, r_id = i, r_started = t, r_requests = n, r_trace = tr, r_step_count = 0,
     r_steps = [], r_step_total = 0, r_status = [], r_inflight = 0, r_finishing = False, r_queued = False,
     r_drained_at = zero_time\<rparr>"

record flight =
  fl_done :: bool
  fl_err :: "gerr option"

datatype call =
    LStart string "string + gerr"
  | LFinish ptr string string int bool
  | LInline string bool
  | LDrop ptr
  | LForget ptr
  | LAdopt string

record options =
  op_rotation :: duration
  op_queue_size :: int
  op_inline_timeout :: duration
  op_drain_cap :: int
  op_drain_ttl :: duration
  op_store :: "store option"

record manager =
  rm_rotation :: duration
  rm_heap :: "ptr \<Rightarrow> run"
  rm_next :: ptr
  rm_runs :: "(string \<times> ptr) list"
  rm_starting :: "(string \<times> ptr) list"
  rm_flights :: "ptr \<Rightarrow> flight"
  rm_next_flight :: ptr
  rm_draining :: "ptr list"
  rm_co :: cooldowns
  rm_total :: int
  rm_queue :: "ptr list"
  rm_queue_size :: int
  rm_inline_timeout :: duration
  rm_stopped :: bool
  rm_kept :: bool
  rm_shutting :: bool
  rm_drain_cap :: int
  rm_drain_ttl :: duration
  rm_store :: "store option"
  rm_key :: string
  rm_log :: "call list"

definition default_finish_queue_size :: int where "default_finish_queue_size = 64"
definition default_inline_finish_timeout :: duration where "default_inline_finish_timeout = 250 * millisecond"
definition default_drain_queue_cap :: int where "default_drain_queue_cap = 64"
definition default_drain_ttl :: duration where "default_drain_ttl = 10 * minute"
definition max_recorded_steps :: nat where "max_recorded_steps = 512"

definition new_run_manager :: "string \<Rightarrow> options \<Rightarrow> manager" where
  "new_run_manager key o1 = \<lparr>rm_rotation = op_rotation o1,
     rm_heap = (\<lambda>_. fresh_run [] [] zero_time [] 0), rm_next = 0, rm_runs = [], rm_starting = [],
     rm_flights = (\<lambda>_. \<lparr>fl_done = False, fl_err = None\<rparr>), rm_next_flight = 0, rm_draining = [],
     rm_co = no_cooldowns, rm_total = 0, rm_queue = [],
     rm_queue_size = (if op_queue_size o1 < 1 then default_finish_queue_size else op_queue_size o1),
     rm_inline_timeout = (if op_inline_timeout o1 \<le> 0 then default_inline_finish_timeout else op_inline_timeout o1),
     rm_stopped = False, rm_kept = False, rm_shutting = False,
     rm_drain_cap = (if op_drain_cap o1 < 1 then default_drain_queue_cap else op_drain_cap o1),
     rm_drain_ttl = (if op_drain_ttl o1 \<le> 0 then default_drain_ttl else op_drain_ttl o1),
     rm_store = op_store o1, rm_key = key, rm_log = []\<rparr>"

definition set_run :: "ptr \<Rightarrow> run \<Rightarrow> manager \<Rightarrow> manager" where
  "set_run p r m = m\<lparr>rm_heap := (rm_heap m)(p := r)\<rparr>"

abbreviation run_at :: "manager \<Rightarrow> ptr \<Rightarrow> run" where "run_at m p \<equiv> rm_heap m p"

subsection \<open>Trace ids and steps\<close>

definition hex_digit :: "nat \<Rightarrow> char" where
  "hex_digit n = (if n < 10 then char_of (48 + n) else char_of (87 + n))"

definition hex_bytes :: "nat list \<Rightarrow> string" where
  "hex_bytes bs = concat (map (\<lambda>b. [hex_digit (b div 16), hex_digit (b mod 16)]) bs)"

function hex_int :: "int \<Rightarrow> string" where
  "hex_int n = (if n < 16 then [hex_digit (nat n)] else hex_int (n div 16) @ [hex_digit (nat (n mod 16))])"
  by pat_completeness auto
termination
  by (relation "measure nat") auto

declare hex_int.simps [simp del]

text \<open>Sixteen random bytes, or \<open>None\<close> when the read fails.\<close>

definition new_trace_session_id :: "nat list option \<Rightarrow> gotime \<Rightarrow> string" where
  "new_trace_session_id rnd now = (case rnd of
     None \<Rightarrow> (if now < 0 then CHR 0x2D # hex_int (- now) else hex_int now)
   | Some b0 \<Rightarrow>
       let b = (b0[6 := (b0 ! 6) mod 16 + 64])[8 := (b0 ! 8) mod 64 + 128]
       in hex_bytes (take 4 b) @ ''-'' @ hex_bytes (take 2 (drop 4 b)) @ ''-'' @ hex_bytes (take 2 (drop 6 b)) @
          ''-'' @ hex_bytes (take 2 (drop 8 b)) @ ''-'' @ hex_bytes (take 6 (drop 10 b)))"

text \<open>\<open>t.UTC().Format(time.RFC3339Nano)\<close>\<close>

definition fmt_rfc3339_nano :: "gotime \<Rightarrow> string" where
  "fmt_rfc3339_nano t = butlast (fmt_rfc3339 t) @ fmt_frac (t mod second) 9 @ ''Z''"

definition next_step_number :: "ptr \<Rightarrow> manager \<Rightarrow> int \<times> manager" where
  "next_step_number p m = (let r = run_at m p; n = r_step_count r + 1
     in (n, set_run p (r\<lparr>r_step_count := n\<rparr>) m))"

definition record_step :: "nat list option \<Rightarrow> gotime \<Rightarrow> ptr option \<Rightarrow> string \<Rightarrow> manager \<Rightarrow> manager" where
  "record_step rnd now po msg m = (case po of None \<Rightarrow> m | Some p \<Rightarrow>
     let r = run_at m p in
     if r_id r = [] then m
     else let n = (if r_step_count r = 0 then int (length (r_steps r)) + 1 else r_step_count r);
              st = \<lparr>sp_id = new_trace_session_id rnd now, sp_number = n,
                    sp_message = (if msg = [] then None else Some msg),
                    sp_status = ''completed'', sp_start = fmt_rfc3339_nano now\<rparr>;
              steps = r_steps r @ [st];
              steps' = (if max_recorded_steps < length steps
                        then drop (length steps - max_recorded_steps) steps else steps)
          in set_run p (r\<lparr>r_step_total := r_step_total r + 1, r_steps := steps'\<rparr>) m)"

definition mark_failed :: "ptr option \<Rightarrow> manager \<Rightarrow> manager" where
  "mark_failed po m = (case po of None \<Rightarrow> m
     | Some p \<Rightarrow> set_run p ((run_at m p)\<lparr>r_status := ''failed''\<rparr>) m)"

definition clone_run :: "run \<Rightarrow> run" where
  "clone_run r = (fresh_run (r_agent r) (r_id r) (r_started r) (r_trace r) (r_requests r))
     \<lparr>r_status := r_status r, r_steps := r_steps r, r_step_total := r_step_total r, r_step_count := r_step_count r\<rparr>"

definition persisted_of :: "run \<Rightarrow> persisted_run" where
  "persisted_of r = \<lparr>pr_run = r_id r, pr_agent = r_agent r, pr_trace = r_trace r, pr_started = r_started r,
     pr_requests = r_requests r\<rparr>"

definition persist_run :: "persisted_run \<Rightarrow> manager \<Rightarrow> manager" where
  "persist_run pr m = (case rm_store m of
     None \<Rightarrow> m
   | Some s \<Rightarrow> if rm_key m = [] then m
       else m\<lparr>rm_store := Some (store_save_run (rm_key m) (pr_agent pr) pr s)\<rparr>)"

definition remove_run :: "string \<Rightarrow> manager \<Rightarrow> manager" where
  "remove_run a m = (case rm_store m of
     None \<Rightarrow> m
   | Some s \<Rightarrow> if rm_key m = [] then m else m\<lparr>rm_store := Some (store_remove_run (rm_key m) a s)\<rparr>)"

subsection \<open>The draining list\<close>

definition run_draining :: "ptr \<Rightarrow> manager \<Rightarrow> bool" where
  "run_draining p m \<longleftrightarrow> p \<in> set (rm_draining m)"

definition drain_expired :: "gotime \<Rightarrow> manager \<Rightarrow> ptr \<Rightarrow> bool" where
  "drain_expired now m p \<longleftrightarrow>
     \<not> is_zero (r_drained_at (run_at m p)) \<and> rm_drain_ttl m < tsub now (r_drained_at (run_at m p))"

definition prune_draining :: "gotime \<Rightarrow> manager \<Rightarrow> manager" where
  "prune_draining now m = (let kept = filter (\<lambda>p. \<not> drain_expired now m p) (rm_draining m);
       over = (if rm_drain_cap m < int (length kept) then drop (nat (rm_drain_cap m)) kept else [])
     in m\<lparr>rm_draining := (if rm_drain_cap m < int (length kept) then take (nat (rm_drain_cap m)) kept else kept),
          rm_log := map LDrop (over @ filter (drain_expired now m) (rm_draining m)) @ rm_log m\<rparr>)"

definition append_draining :: "gotime \<Rightarrow> ptr \<Rightarrow> manager \<Rightarrow> manager" where
  "append_draining now p m = (if p \<in> set (rm_draining m) then m
     else prune_draining now ((set_run p ((run_at m p)\<lparr>r_drained_at := now\<rparr>) m)
            \<lparr>rm_draining := rm_draining m @ [p]\<rparr>))"

definition is_current :: "ptr \<Rightarrow> manager \<Rightarrow> bool" where
  "is_current p m \<longleftrightarrow> map_of (rm_runs m) (r_agent (run_at m p)) = Some p"

definition unset_current :: "ptr \<Rightarrow> manager \<Rightarrow> manager" where
  "unset_current p m = (if is_current p m
     then m\<lparr>rm_runs := AList.delete (r_agent (run_at m p)) (rm_runs m)\<rparr> else m)"

definition remove_draining :: "ptr \<Rightarrow> manager \<Rightarrow> manager" where
  "remove_draining p m = m\<lparr>rm_draining := filter (\<lambda>d. d \<noteq> p) (rm_draining m)\<rparr>"

definition drop_run :: "ptr \<Rightarrow> manager \<Rightarrow> manager" where
  "drop_run p m = remove_draining p (unset_current p m)"

definition finish_payload :: "run \<Rightarrow> string \<times> run_step list \<times> int" where
  "finish_payload r = ((if r_status r = [] then ''completed'' else r_status r), r_steps r,
     (let n = (if r_step_total r = 0 then int (length (r_steps r)) else r_step_total r)
      in if n = 0 then r_requests r else n))"

subsection \<open>Tasks\<close>

datatype task =
    AcquireNew string
  | Acquire string
  | Lease string
  | Rotate bool string
  | RotWait bool string ptr
  | RotLead bool string ptr
  | RotAdopt bool string ptr persisted_run
  | RotStart bool string ptr
  | DropStored string
  | Persist ptr
  | SaveRun persisted_run
  | Enqueue ptr
  | Finish ptr
  | FinishSnap ptr
  | FinishCall ptr string "run_step list" int
  | FinishInline string string
  | Held ptr
  | Precreate string
  | PrewarmOne string
  | Maintain
  | FinishAll
  | Worker
  | ShutBegin
  | ShutClaim
  | ShutSnap ptr bool
  | ShutCall ptr bool string "run_step list" int
  | ShutKept
  | Failed gerr

record env =
  ev_now :: gotime
  ev_ctx :: "gerr option"
  ev_start :: "string + gerr"
  ev_finish :: "gerr option"
  ev_rand :: "nat list option"
  ev_pick :: bool

text \<open>
  The flag of the rotate tasks tells who called \<open>rotate\<close>: \<open>Acquire\<close> leases after a success and
  returns the error otherwise, the other callers only log it.
\<close>

definition rotated :: "bool \<Rightarrow> string \<Rightarrow> task list" where
  "rotated w a = (if w then [Lease a] else [])"

definition rotate_err :: "bool \<Rightarrow> gerr \<Rightarrow> task list" where
  "rotate_err w e = (if w then [Failed e] else [])"

definition cooling_err :: "manager \<Rightarrow> gerr" where
  "cooling_err m = EText (''token cooling down until '' @ fmt_rfc3339 (co_until (rm_co m)))"

definition needs_rotate :: "gotime \<Rightarrow> string \<Rightarrow> manager \<Rightarrow> bool" where
  "needs_rotate now a m = (case map_of (rm_runs m) a of None \<Rightarrow> True
     | Some p \<Rightarrow> rm_rotation m \<le> tsub now (r_started (run_at m p)))"

subsubsection \<open>Acquire and Release\<close>

definition acquire_new :: "env \<Rightarrow> string \<Rightarrow> task list" where
  "acquire_new e a = (case ev_ctx e of Some err \<Rightarrow> [Failed err] | None \<Rightarrow> [Acquire a])"

definition acquire_check :: "env \<Rightarrow> string \<Rightarrow> manager \<Rightarrow> task list \<times> manager" where
  "acquire_check e a m = (if ev_now e < co_until (rm_co m) then ([Failed (cooling_err m)], m)
     else if needs_rotate (ev_now e) a m then ([Rotate True a], m) else ([Lease a], m))"

definition lease :: "env \<Rightarrow> string \<Rightarrow> manager \<Rightarrow> task list \<times> manager" where
  "lease e a m = (case map_of (rm_runs m) a of
     Some p \<Rightarrow> let r = run_at m p in
       ([Held p], (set_run p (r\<lparr>r_inflight := r_inflight r + 1, r_requests := r_requests r + 1\<rparr>) m)
          \<lparr>rm_total := rm_total m + 1\<rparr>)
   | None \<Rightarrow> (case ev_ctx e of Some err \<Rightarrow> ([Failed err], m) | None \<Rightarrow> ([Acquire a], m)))"

definition drop_lease :: "ptr \<Rightarrow> manager \<Rightarrow> manager" where
  "drop_lease p m = (let r = run_at m p in
     if 0 < r_inflight r then set_run p (r\<lparr>r_inflight := r_inflight r - 1\<rparr>) m else m)"

definition release :: "ptr \<Rightarrow> manager \<Rightarrow> task list \<times> manager" where
  "release p m = (let m1 = drop_lease p m in
     if 0 < r_inflight (run_at m1 p) \<or> \<not> run_draining p m1 then ([], m1)
     else ([Enqueue p], unset_current p m1))"

definition release_abandoned :: "gotime \<Rightarrow> ptr \<Rightarrow> manager \<Rightarrow> task list \<times> manager" where
  "release_abandoned now p m = (let m1 = drop_lease p m in
     if 0 < r_inflight (run_at m1 p) then ([], m1)
     else let m2 = (if r_status (run_at m1 p) = [] then set_run p ((run_at m1 p)\<lparr>r_status := ''cancelled''\<rparr>) m1 else m1)
          in if is_current p m2 then ([Enqueue p], append_draining now p (unset_current p m2))
             else ([Enqueue p], m2))"

definition inflight_count_of :: "string \<Rightarrow> manager \<Rightarrow> int" where
  "inflight_count_of a m = (case map_of (rm_runs m) a of Some p \<Rightarrow> r_inflight (run_at m p) | None \<Rightarrow> 0)"

definition inflight_count :: "manager \<Rightarrow> int" where
  "inflight_count m = sum_list (map (\<lambda>(a, p). r_inflight (run_at m p)) (rm_runs m)) +
     sum_list (map (\<lambda>p. r_inflight (run_at m p)) (rm_draining m))"

definition invalidate_run :: "string \<Rightarrow> manager \<Rightarrow> manager" where
  "invalidate_run a m = remove_run a (m\<lparr>rm_runs := AList.delete a (rm_runs m),
     rm_log := (case map_of (rm_runs m) a of None \<Rightarrow> [] | Some p \<Rightarrow> [LForget p]) @ rm_log m\<rparr>)"

subsubsection \<open>Rotation\<close>

definition rotate_enter :: "env \<Rightarrow> bool \<Rightarrow> string \<Rightarrow> manager \<Rightarrow> task list \<times> manager" where
  "rotate_enter e w a m = (case ev_ctx e of Some err \<Rightarrow> (rotate_err w err, m) | None \<Rightarrow>
     if rm_shutting m then (rotate_err w EShuttingDown, m)
     else if ev_now e < co_until (rm_co m) then (rotate_err w (cooling_err m), m)
     else if \<not> needs_rotate (ev_now e) a m then (rotated w a, m)
     else case map_of (rm_starting m) a of
       Some f \<Rightarrow> ([RotWait w a f], m)
     | None \<Rightarrow> let f = rm_next_flight m in
         ([RotLead w a f], m\<lparr>rm_next_flight := f + 1,
            rm_flights := (rm_flights m)(f := \<lparr>fl_done = False, fl_err = None\<rparr>),
            rm_starting := AList.update a f (rm_starting m)\<rparr>))"

text \<open>The waiter's \<open>select\<close>: the flight is done, or its own context is.\<close>

definition rotate_wait :: "env \<Rightarrow> bool \<Rightarrow> string \<Rightarrow> ptr \<Rightarrow> manager \<Rightarrow> (task list \<times> manager) option" where
  "rotate_wait e w a f m = (if fl_done (rm_flights m f) \<and> \<not> (ev_ctx e \<noteq> None \<and> ev_pick e) then
       (case fl_err (rm_flights m f) of
          None \<Rightarrow> Some (rotated w a, m)
        | Some err \<Rightarrow> if err_ctx err \<and> ev_ctx e = None then Some ([Rotate w a], m) else Some (rotate_err w err, m))
     else case ev_ctx e of Some err \<Rightarrow> Some (rotate_err w err, m) | None \<Rightarrow> None)"

definition rotate_lead :: "env \<Rightarrow> bool \<Rightarrow> string \<Rightarrow> ptr \<Rightarrow> manager \<Rightarrow> task list \<times> manager" where
  "rotate_lead e w a f m = (case rm_store m of
     None \<Rightarrow> ([RotStart w a f], m)
   | Some s \<Rightarrow> if rm_key m = [] then ([RotStart w a f], m)
       else let (found, s') = store_load_run (rm_key m) a s; m' = m\<lparr>rm_store := Some s'\<rparr> in
         case found of
           None \<Rightarrow> ([RotStart w a f], m')
         | Some pr \<Rightarrow> if pr_run pr \<noteq> [] \<and> tsub (ev_now e) (pr_started pr) < rm_rotation m
             then ([RotAdopt w a f pr], m') else ([DropStored a, RotStart w a f], m'))"

definition close_flight :: "string \<Rightarrow> ptr \<Rightarrow> gerr option \<Rightarrow> manager \<Rightarrow> manager" where
  "close_flight a f err m = m\<lparr>rm_flights := (rm_flights m)(f := \<lparr>fl_done = True, fl_err = err\<rparr>),
     rm_starting := AList.delete a (rm_starting m)\<rparr>"

definition alloc_run :: "run \<Rightarrow> manager \<Rightarrow> ptr \<times> manager" where
  "alloc_run r m = (rm_next m, m\<lparr>rm_heap := (rm_heap m)(rm_next m := r), rm_next := rm_next m + 1\<rparr>)"

text \<open>A new current run takes the place of the old one, which starts draining.\<close>

definition swap_current :: "gotime \<Rightarrow> string \<Rightarrow> run \<Rightarrow> manager \<Rightarrow> ptr \<times> ptr option \<times> manager" where
  "swap_current now a r m = (let old = map_of (rm_runs m) a; (p, m1) = alloc_run r m;
       m2 = m1\<lparr>rm_runs := AList.update a p (rm_runs m1)\<rparr>
     in (p, old, case old of None \<Rightarrow> m2 | Some q \<Rightarrow> append_draining now q m2))"

definition enqueue_old :: "ptr option \<Rightarrow> task list" where
  "enqueue_old old = (case old of None \<Rightarrow> [] | Some q \<Rightarrow> [Enqueue q])"

text \<open>The early return of this section leaves the flight open, as the code does.\<close>

definition rotate_adopt :: "env \<Rightarrow> bool \<Rightarrow> string \<Rightarrow> ptr \<Rightarrow> persisted_run \<Rightarrow> manager \<Rightarrow> task list \<times> manager" where
  "rotate_adopt e w a f pr m = (if rm_shutting m then (rotate_err w EShuttingDown, m)
     else let (p, old, m1) = swap_current (ev_now e) a
                (fresh_run a (pr_run pr) (pr_started pr) (pr_trace pr) (pr_requests pr))
                (close_flight a f None (m\<lparr>rm_log := LAdopt (pr_run pr) # rm_log m\<rparr>))
          in (enqueue_old old @ rotated w a, m1))"

definition rotate_start :: "env \<Rightarrow> bool \<Rightarrow> string \<Rightarrow> ptr \<Rightarrow> manager \<Rightarrow> task list \<times> manager" where
  "rotate_start e w a f m = (let m0 = m\<lparr>rm_log := LStart a (ev_start e) # rm_log m\<rparr> in
     case ev_start e of
       Inr err \<Rightarrow> (rotate_err w err, close_flight a f (Some err) m0)
     | Inl rid \<Rightarrow> let m1 = close_flight a f None m0 in
         if rm_shutting m1 then (FinishInline rid a # rotate_err w EShuttingDown, m1)
         else let (p, old, m2) = swap_current (ev_now e) a
                    (fresh_run a rid (ev_now e) (new_trace_session_id (ev_rand e) (ev_now e)) 0) m1
              in (Persist p # enqueue_old old @ rotated w a, m2))"

definition precreate :: "env \<Rightarrow> string \<Rightarrow> manager \<Rightarrow> task list \<times> manager" where
  "precreate e a m = (if ev_ctx e \<noteq> None then ([], m)
     else if needs_rotate (ev_now e) a m then ([Rotate False a], m) else ([], m))"

definition prewarm_one :: "string \<Rightarrow> manager \<Rightarrow> task list" where
  "prewarm_one a m = (if map_of (rm_runs m) a \<noteq> None then [] else [Rotate False a])"

definition prewarm :: "string list \<Rightarrow> task list" where
  "prewarm as = map PrewarmOne as"

subsubsection \<open>The finish queue\<close>

text \<open>When the queue is full the job runs inline, in the goroutine of the caller.\<close>

definition enqueue_finish :: "ptr \<Rightarrow> manager \<Rightarrow> task list \<times> manager" where
  "enqueue_finish p m = (if r_queued (run_at m p) then ([], m)
     else let m1 = set_run p ((run_at m p)\<lparr>r_queued := True\<rparr>) m in
       if int (length (rm_queue m1)) < rm_queue_size m1 then ([], m1\<lparr>rm_queue := rm_queue m1 @ [p]\<rparr>)
       else ([Finish p], m1))"

definition worker :: "env \<Rightarrow> manager \<Rightarrow> (task list \<times> manager) option" where
  "worker e m = (case rm_queue m of
     [] \<Rightarrow> if rm_stopped m then Some ([], m) else None
   | p # q \<Rightarrow> if rm_stopped m \<and> ev_ctx e \<noteq> None \<and> ev_pick e then Some ([], m)
              else Some ([Finish p, Worker], m\<lparr>rm_queue := q\<rparr>))"

definition finish_claim :: "ptr \<Rightarrow> manager \<Rightarrow> task list \<times> manager" where
  "finish_claim p m = (let r = (run_at m p)\<lparr>r_queued := False\<rparr>; m1 = set_run p r m in
     if 0 < r_inflight r \<or> r_finishing r then ([], m1)
     else if is_current p m1 then ([], m1)
     else ([FinishSnap p], set_run p (r\<lparr>r_finishing := True\<rparr>) m1))"

definition finish_call :: "env \<Rightarrow> ptr \<Rightarrow> string \<Rightarrow> int \<Rightarrow> manager \<Rightarrow> task list \<times> manager" where
  "finish_call e p status tot m =
     (let m0 = m\<lparr>rm_log := LFinish p (r_id (run_at m p)) status tot (ev_finish e = None) # rm_log m\<rparr> in
      case ev_finish e of
        Some err \<Rightarrow> ([], append_draining (ev_now e) p (set_run p ((run_at m0 p)\<lparr>r_finishing := False\<rparr>) m0))
      | None \<Rightarrow> ([DropStored (r_agent (run_at m0 p))], remove_draining p m0))"

definition finish_inline :: "env \<Rightarrow> string \<Rightarrow> manager \<Rightarrow> manager" where
  "finish_inline e rid m = m\<lparr>rm_log := LInline rid (ev_finish e = None) # rm_log m\<rparr>"

definition finish_all :: "gotime \<Rightarrow> manager \<Rightarrow> task list \<times> manager" where
  "finish_all now m = (let idle = (\<lambda>p. r_inflight (run_at m p) \<le> 0);
       todo = map snd (filter (\<lambda>(a, p). idle p) (rm_runs m)) @ filter idle (rm_draining m);
       m1 = m\<lparr>rm_runs := filter (\<lambda>(a, p). \<not> idle p) (rm_runs m),
              rm_draining := filter (\<lambda>p. \<not> idle p) (rm_draining m)\<rparr>;
       m2 = fold (\<lambda>(a, p) m. append_draining now p m) (rm_runs m1) m1
     in (map Finish todo, prune_draining now m2))"

definition maintain :: "env \<Rightarrow> manager \<Rightarrow> task list \<times> manager" where
  "maintain e m = (if ev_now e < co_until (rm_co m) then ([], m)
     else let old = map fst (filter (\<lambda>(a, p). rm_rotation m \<le> tsub (ev_now e) (r_started (run_at m p))) (rm_runs m));
              m1 = prune_draining (ev_now e) m
          in (map (Rotate False) old @ map Enqueue (rm_draining m1), m1))"

subsubsection \<open>Shutdown\<close>

definition shutdown_begin :: "manager \<Rightarrow> manager" where
  "shutdown_begin m = m\<lparr>rm_shutting := True, rm_stopped := True\<rparr>"

definition claim_finishing :: "ptr list \<Rightarrow> manager \<Rightarrow> ptr list \<times> manager" where
  "claim_finishing ps m = foldl (\<lambda>(acc, m) p. if r_finishing (run_at m p) then (acc, m)
       else (acc @ [p], set_run p ((run_at m p)\<lparr>r_finishing := True\<rparr>) m)) ([], m) ps"

definition shutdown_claim :: "manager \<Rightarrow> task list \<times> manager" where
  "shutdown_claim m = (if rm_store m \<noteq> None \<and> rm_key m \<noteq> [] then
       let snap = map (\<lambda>(a, p). SaveRun (persisted_of (clone_run (run_at m p)))) (rm_runs m);
           (ps, m1) = claim_finishing (rm_draining m) m
       in (snap @ map (\<lambda>p. ShutSnap p True) ps @ [ShutKept], m1)
     else let (ps, m1) = claim_finishing (map snd (rm_runs m) @ rm_draining m) m
          in (map (\<lambda>p. ShutSnap p False) ps, m1\<lparr>rm_runs := [], rm_draining := []\<rparr>))"

definition shut_call :: "env \<Rightarrow> ptr \<Rightarrow> bool \<Rightarrow> string \<Rightarrow> int \<Rightarrow> manager \<Rightarrow> task list \<times> manager" where
  "shut_call e p stored status tot m =
     (let m0 = m\<lparr>rm_log := LFinish p (r_id (run_at m p)) status tot (ev_finish e = None) # rm_log m\<rparr>
      in (if ev_finish e = None \<and> stored then [DropStored (r_agent (run_at m0 p))] else [], m0))"

subsubsection \<open>One step of a goroutine\<close>

fun exec :: "env \<Rightarrow> task \<Rightarrow> manager \<Rightarrow> (task list \<times> manager) option" where
  "exec e (AcquireNew a) m = Some (acquire_new e a, m)"
| "exec e (Acquire a) m = Some (acquire_check e a m)"
| "exec e (Lease a) m = Some (lease e a m)"
| "exec e (Rotate w a) m = Some (rotate_enter e w a m)"
| "exec e (RotWait w a f) m = rotate_wait e w a f m"
| "exec e (RotLead w a f) m = Some (rotate_lead e w a f m)"
| "exec e (RotAdopt w a f pr) m = Some (rotate_adopt e w a f pr m)"
| "exec e (RotStart w a f) m = Some (rotate_start e w a f m)"
| "exec e (DropStored a) m = Some ([], remove_run a m)"
| "exec e (Persist p) m = Some ([SaveRun (persisted_of (run_at m p))], m)"
| "exec e (SaveRun pr) m = Some ([], persist_run pr m)"
| "exec e (Enqueue p) m = Some (enqueue_finish p m)"
| "exec e (Finish p) m = Some (finish_claim p m)"
| "exec e (FinishSnap p) m =
     (let (st, steps, n) = finish_payload (run_at m p) in Some ([FinishCall p st steps n], m))"
| "exec e (FinishCall p st steps n) m = Some (finish_call e p st n m)"
| "exec e (FinishInline rid a) m = Some ([], finish_inline e rid m)"
| "exec e (Held p) m = Some (if ev_pick e then release_abandoned (ev_now e) p m else release p m)"
| "exec e (Precreate a) m = Some (precreate e a m)"
| "exec e (PrewarmOne a) m = Some (prewarm_one a m, m)"
| "exec e Maintain m = Some (maintain e m)"
| "exec e FinishAll m = Some (finish_all (ev_now e) m)"
| "exec e Worker m = worker e m"
| "exec e ShutBegin m = Some ([ShutClaim], shutdown_begin m)"
| "exec e ShutClaim m = Some (shutdown_claim m)"
| "exec e (ShutSnap p b) m =
     (let (st, steps, n) = finish_payload (run_at m p) in Some ([ShutCall p b st steps n], m))"
| "exec e (ShutCall p b st steps n) m = Some (shut_call e p b st n m)"
| "exec e ShutKept m = Some ([], m\<lparr>rm_kept := True\<rparr>)"
| "exec e (Failed err) m = None"

text \<open>
  \<open>FinishRun\<close> is the synchronous finish that no other package calls; it claims nothing, so it
  stays outside the step relation.
\<close>

definition finish_run_direct :: "env \<Rightarrow> ptr option \<Rightarrow> manager \<Rightarrow> manager" where
  "finish_run_direct e po m = (case po of None \<Rightarrow> m | Some p \<Rightarrow>
     let m1 = drop_run p m; (st, steps, n) = finish_payload (run_at m1 p);
         m2 = m1\<lparr>rm_log := LFinish p (r_id (run_at m1 p)) st n (ev_finish e = None) # rm_log m1\<rparr>
     in case ev_finish e of
          Some err \<Rightarrow> append_draining (ev_now e) p m2
        | None \<Rightarrow> remove_run (r_agent (run_at m2 p)) m2)"

definition set_store :: "store option \<Rightarrow> manager \<Rightarrow> manager" where
  "set_store s m = m\<lparr>rm_store := s\<rparr>"

record run_snapshot =
  rn_active :: int
  rn_cooldown_until :: gotime
  rn_requests :: int
  rn_ban :: "ban option"
  rn_banned_until :: gotime

definition take_snapshot :: "manager \<Rightarrow> run_snapshot" where
  "take_snapshot m = \<lparr>rn_active = int (length (rm_runs m)), rn_cooldown_until = co_until (rm_co m),
     rn_requests = rm_total m, rn_ban = co_ban (rm_co m), rn_banned_until = co_ban_until (rm_co m)\<rparr>"

end
