(* ===== verification/Threads.thy ===== *)
theory Threads
  imports Prelude
begin

text \<open>
  Goroutines as lists of tasks.  A concurrent component is a state with a list of task lists;
  a step takes the first task of one list, runs it, and puts the tasks that continue it in
  its place.  Here: counting the pending tasks of a kind, and the locale of such systems with
  the invariant rules its clients share.
\<close>

subsection \<open>Counting pending tasks\<close>

definition pend :: "('t \<Rightarrow> bool) \<Rightarrow> 't list list \<Rightarrow> int" where
  "pend P ts = int (length (filter P (concat ts)))"

definition many :: "('t \<Rightarrow> bool) \<Rightarrow> 't list \<Rightarrow> int" where
  "many P xs = int (length (filter P xs))"

lemma many_simps [simp]:
  "many P [] = 0" "many P (x # xs) = (if P x then 1 else 0) + many P xs" "many P (xs @ ys) = many P xs + many P ys"
  by (simp_all add: many_def)

lemma many_nonneg [simp]: "0 \<le> many P xs" "0 \<le> pend P ts"
  by (simp_all add: many_def pend_def)

lemma pend_Nil [simp]: "pend P [] = 0"
  by (simp add: pend_def)

lemma pend_Cons [simp]: "pend P (xs # ts) = many P xs + pend P ts"
  by (simp add: pend_def many_def)

lemma pend_append [simp]: "pend P (ts @ us) = pend P ts + pend P us"
  by (simp add: pend_def)

lemma pend_update:
  "i < length ts \<Longrightarrow> ts ! i = t # rest \<Longrightarrow>
     pend P (ts[i := new @ rest]) = pend P ts - (if P t then 1 else 0) + many P new"
proof (induction ts arbitrary: i)
  case (Cons xs ts)
  then show ?case by (cases i) auto
qed simp

lemma pend_pos: "i < length ts \<Longrightarrow> t \<in> set (ts ! i) \<Longrightarrow> P t \<Longrightarrow> 1 \<le> pend P ts"
proof (induction ts arbitrary: i)
  case (Cons xs ts)
  show ?case
  proof (cases i)
    case 0
    with Cons.prems have "filter P xs \<noteq> []" by (auto simp: filter_empty_conv)
    then have "1 \<le> many P xs" by (simp add: many_def Suc_le_eq)
    then show ?thesis by (simp add: add_increasing2)
  next
    case (Suc j)
    then show ?thesis using Cons.IH [of j] Cons.prems by (simp add: add_increasing)
  qed
qed simp

lemma many_map_none: "(\<And>x. x \<in> set xs \<Longrightarrow> \<not> P (f x)) \<Longrightarrow> many P (map f xs) = 0"
  by (simp add: many_def filter_map comp_def filter_empty_conv)

lemma pend_singletons [simp]: "pend P (map (\<lambda>t. [t]) ts) = many P ts"
  by (induction ts) auto

lemma set_concat_update:
  "i < length ts \<Longrightarrow> ts ! i = t # rest \<Longrightarrow>
     set (concat (ts[i := new @ rest])) \<subseteq> set new \<union> set (concat ts)"
proof (induction ts arbitrary: i)
  case (Cons xs ts)
  then show ?case by (cases i) auto
qed simp

lemma in_concat_nth: "i < length ts \<Longrightarrow> ts ! i = t # rest \<Longrightarrow> t \<in> set (concat ts)"
  by (metis UN_I list.set_intros(1) nth_mem set_concat)

subsection \<open>Systems of goroutines\<close>

text \<open>A schedule names the goroutine that steps and the environment it finds.\<close>

fun play :: "('e \<Rightarrow> 't \<Rightarrow> 'm \<Rightarrow> ('t list \<times> 't list \<times> 'm) option) \<Rightarrow> (nat \<times> 'e) list \<Rightarrow>
    'm \<times> 't list list \<Rightarrow> ('m \<times> 't list list) option" where
  "play exec [] s = Some s"
| "play exec ((i, e) # ps) (m, ts) = (if i < length ts then
     (case ts ! i of [] \<Rightarrow> None
      | t # rest \<Rightarrow> (case exec e t m of None \<Rightarrow> None
          | Some (new, sp, m') \<Rightarrow> play exec ps (m', ts[i := new @ rest] @ map (\<lambda>t. [t]) sp))) else None)"

locale goroutines =
  fixes exec :: "'e \<Rightarrow> 't \<Rightarrow> 'm \<Rightarrow> ('t list \<times> 't list \<times> 'm) option"
    and entry :: "'t \<Rightarrow> bool"
    and other :: "'m \<Rightarrow> 'm \<Rightarrow> bool"
    and start :: "'m \<Rightarrow> bool"
    and reach :: "'m \<times> 't list list \<Rightarrow> bool"
  assumes reach_induct: "reach (m, ts) \<Longrightarrow>
      (\<And>m. start m \<Longrightarrow> Q m []) \<Longrightarrow>
      (\<And>m ts i t rest e new sp m'. reach (m, ts) \<Longrightarrow> Q m ts \<Longrightarrow> i < length ts \<Longrightarrow> ts ! i = t # rest \<Longrightarrow>
         exec e t m = Some (new, sp, m') \<Longrightarrow> Q m' (ts[i := new @ rest] @ map (\<lambda>t. [t]) sp)) \<Longrightarrow>
      (\<And>m ts t. reach (m, ts) \<Longrightarrow> Q m ts \<Longrightarrow> entry t \<Longrightarrow> Q m (ts @ [[t]])) \<Longrightarrow>
      (\<And>m ts m'. reach (m, ts) \<Longrightarrow> Q m ts \<Longrightarrow> other m m' \<Longrightarrow> Q m' ts) \<Longrightarrow> Q m ts"
    and reach_thread: "reach (m, ts) \<Longrightarrow> i < length ts \<Longrightarrow> ts ! i = t # rest \<Longrightarrow> exec e t m = Some (new, sp, m') \<Longrightarrow>
      reach (m', ts[i := new @ rest] @ map (\<lambda>t. [t]) sp)"
begin

lemma play_reach: "reach s \<Longrightarrow> play exec ps s = Some s' \<Longrightarrow> reach s'"
proof (induction ps arbitrary: s)
  case (Cons p ps)
  obtain i e where p: "p = (i, e)" by (cases p)
  obtain m ts where s: "s = (m, ts)" by (cases s)
  from Cons.prems obtain t rest new sp m' where x: "i < length ts" "ts ! i = t # rest" "exec e t m = Some (new, sp, m')"
      "play exec ps (m', ts[i := new @ rest] @ map (\<lambda>t. [t]) sp) = Some s'"
    by (auto simp: p s split: if_splits list.splits option.splits)
  then show ?case using Cons reach_thread [of m ts i t rest e new sp m'] by (simp add: s)
qed simp

text \<open>
  A token is a kind of task that never appears or disappears without the state's count of it
  changing with it.
\<close>

lemma token_count_reach:
  assumes "reach (m, ts)"
    and "\<And>m. start m \<Longrightarrow> f m = 0" "\<And>t. entry t \<Longrightarrow> \<not> P t" "\<And>m m'. other m m' \<Longrightarrow> f m' = (f m :: int)"
    and keep: "\<And>e t m ts new sp m'. reach (m, ts) \<Longrightarrow> t \<in> set (concat ts) \<Longrightarrow> exec e t m = Some (new, sp, m') \<Longrightarrow>
      (P t \<Longrightarrow> 1 \<le> f m) \<Longrightarrow> many P new + many P sp - (if P t then 1 else 0) = f m' - f m"
  shows "pend P ts = f m"
proof (rule reach_induct [OF assms(1), where Q = "\<lambda>m ts. pend P ts = f m"])
  fix m ts i t rest e new sp m'
  assume I: "reach (m, ts)" "pend P ts = f m" "i < length ts" "ts ! i = t # rest" "exec e t m = Some (new, sp, m')"
  have "P t \<Longrightarrow> 1 \<le> f m" using pend_pos [OF I(3), of t P] I(2,4) by simp
  from keep [OF I(1) in_concat_nth [OF I(3,4)] I(5) this] pend_update [OF I(3,4), of P new] I(2)
  show "pend P (ts[i := new @ rest] @ map (\<lambda>t. [t]) sp) = f m'" by simp
qed (use assms in auto)

lemma token_count:
  assumes "reach (m, ts)"
    and "\<And>m. start m \<Longrightarrow> f m = 0" "\<And>t. entry t \<Longrightarrow> \<not> P t" "\<And>m m'. other m m' \<Longrightarrow> f m' = (f m :: int)"
    and "\<And>e t m new sp m'. exec e t m = Some (new, sp, m') \<Longrightarrow> (P t \<Longrightarrow> 1 \<le> f m) \<Longrightarrow>
      many P new + many P sp - (if P t then 1 else 0) = f m' - f m"
  shows "pend P ts = f m"
  using assms by (rule token_count_reach)

text \<open>A property of the state and of each pending task, kept by every step.\<close>

lemma invariant:
  assumes "reach (m, ts)"
    and "\<And>m. start m \<Longrightarrow> I m"
    and "\<And>m t. I m \<Longrightarrow> entry t \<Longrightarrow> J m t"
    and oth: "\<And>m m'. I m \<Longrightarrow> other m m' \<Longrightarrow> I m' \<and> (\<forall>t. J m t \<longrightarrow> J m' t)"
    and keep: "\<And>e t m new sp m'. I m \<Longrightarrow> J m t \<Longrightarrow> exec e t m = Some (new, sp, m') \<Longrightarrow>
      I m' \<and> (\<forall>u \<in> set new \<union> set sp. J m' u) \<and> (\<forall>u. J m u \<longrightarrow> J m' u)"
  shows "I m \<and> (\<forall>t \<in> set (concat ts). J m t)"
proof (rule reach_induct [OF assms(1), where Q = "\<lambda>m ts. I m \<and> (\<forall>t \<in> set (concat ts). J m t)"])
  fix m ts i t rest e new sp m'
  assume A: "I m \<and> (\<forall>t \<in> set (concat ts). J m t)" "i < length ts" "ts ! i = t # rest"
    "exec e t m = Some (new, sp, m')"
  have k: "I m' \<and> (\<forall>u \<in> set new \<union> set sp. J m' u) \<and> (\<forall>u. J m u \<longrightarrow> J m' u)"
    by (rule keep [OF _ _ A(4)]) (use A(1) in_concat_nth [OF A(2,3)] in auto)
  have s: "set (concat (ts[i := new @ rest])) \<subseteq> set new \<union> set (concat ts)" by (rule set_concat_update [OF A(2,3)])
  show "I m' \<and> (\<forall>t \<in> set (concat (ts[i := new @ rest] @ map (\<lambda>t. [t]) sp)). J m' t)"
  proof (intro conjI ballI)
    fix u
    assume "u \<in> set (concat (ts[i := new @ rest] @ map (\<lambda>t. [t]) sp))"
    then have "u \<in> set (concat (ts[i := new @ rest])) \<or> u \<in> set sp" by auto
    with s consider "u \<in> set new \<union> set sp" | "u \<in> set (concat ts)" by blast
    then show "J m' u" using k A(1) by cases auto
  qed (use k in simp)
next
  fix m ts t
  assume "I m \<and> (\<forall>t \<in> set (concat ts). J m t)" "entry t"
  then show "I m \<and> (\<forall>t \<in> set (concat (ts @ [[t]])). J m t)" using assms(3) by auto
next
  fix m ts m'
  assume "I m \<and> (\<forall>t \<in> set (concat ts). J m t)" "other m m'"
  then show "I m' \<and> (\<forall>t \<in> set (concat ts). J m' t)" using oth [of m m'] by auto
qed (use assms(2) in auto)

end

end
