(* ===== verification/RunLifecycle.thy ===== *)
theory RunLifecycle
  imports RunModel Threads
begin

text \<open>
  The runs of one token under every interleaving: the step relation of a manager with any
  number of goroutines, its invariants, and what they give.
\<close>

subsection \<open>The system\<close>

type_synonym run_system = "manager \<times> task list list"

fun entry_task :: "task \<Rightarrow> bool" where
  "entry_task (AcquireNew a) = True"
| "entry_task (Precreate a) = True"
| "entry_task (PrewarmOne a) = True"
| "entry_task Maintain = True"
| "entry_task FinishAll = True"
| "entry_task ShutBegin = True"
| "entry_task _ = False"

text \<open>The operations that are one critical section and leave nothing to do.\<close>

datatype local_op =
    LInvalidate string
  | LCooldown cooldown_op
  | LRecord "nat list option" ptr string
  | LMarkFailed ptr
  | LNextStep ptr
  | LSetStore "store option"

fun local_apply :: "zone option \<Rightarrow> gotime \<Rightarrow> local_op \<Rightarrow> manager \<Rightarrow> manager option" where
  "local_apply tz now (LInvalidate a) m = Some (invalidate_run a m)"
| "local_apply tz now (LCooldown c) m = (case cooldown_apply tz c now (rm_co m) of
     None \<Rightarrow> None | Some co \<Rightarrow> Some (m\<lparr>rm_co := co\<rparr>))"
| "local_apply tz now (LRecord rnd p msg) m = Some (record_step rnd now (Some p) msg m)"
| "local_apply tz now (LMarkFailed p) m = Some (mark_failed (Some p) m)"
| "local_apply tz now (LNextStep p) m = Some (snd (next_step_number p m))"
| "local_apply tz now (LSetStore s) m = Some (set_store s m)"

inductive run_step_rel :: "zone option \<Rightarrow> run_system \<Rightarrow> run_system \<Rightarrow> bool" for tz where
  thread: "i < length ts \<Longrightarrow> ts ! i = t # rest \<Longrightarrow> exec e t m = Some (new, m') \<Longrightarrow>
    run_step_rel tz (m, ts) (m', ts[i := new @ rest])"
| spawn: "entry_task t \<Longrightarrow> run_step_rel tz (m, ts) (m, ts @ [[t]])"
| local: "local_apply tz now op m = Some m' \<Longrightarrow> run_step_rel tz (m, ts) (m', ts)"

text \<open>One manager as it is built, with its finish worker.\<close>

inductive run_reach :: "zone option \<Rightarrow> run_system \<Rightarrow> bool" for tz where
  init: "run_reach tz (new_run_manager key opts, [[Worker]])"
| step: "run_reach tz s \<Longrightarrow> run_step_rel tz s s' \<Longrightarrow> run_reach tz s'"

subsection \<open>What the helpers leave alone\<close>

named_theorems run_frame \<open>fields a helper of the manager does not touch\<close>

lemma set_run_frame [run_frame, simp]:
  "rm_heap (set_run p r m) q = (if q = p then r else rm_heap m q)"
  "rm_next (set_run p r m) = rm_next m" "rm_runs (set_run p r m) = rm_runs m"
  "rm_starting (set_run p r m) = rm_starting m" "rm_draining (set_run p r m) = rm_draining m"
  "rm_queue (set_run p r m) = rm_queue m" "rm_log (set_run p r m) = rm_log m"
  "rm_shutting (set_run p r m) = rm_shutting m" "rm_drain_cap (set_run p r m) = rm_drain_cap m"
  "rm_co (set_run p r m) = rm_co m" "rm_queue_size (set_run p r m) = rm_queue_size m"
  "rm_flights (set_run p r m) = rm_flights m" "rm_drain_ttl (set_run p r m) = rm_drain_ttl m"
  by (simp_all add: set_run_def)

lemma prune_frame [run_frame, simp]:
  "rm_heap (prune_draining now m) = rm_heap m" "rm_next (prune_draining now m) = rm_next m"
  "rm_runs (prune_draining now m) = rm_runs m" "rm_starting (prune_draining now m) = rm_starting m"
  "rm_queue (prune_draining now m) = rm_queue m" "rm_shutting (prune_draining now m) = rm_shutting m"
  "rm_drain_cap (prune_draining now m) = rm_drain_cap m" "rm_flights (prune_draining now m) = rm_flights m"
  by (simp_all add: prune_draining_def Let_def)

lemma append_frame [run_frame, simp]:
  "rm_next (append_draining now p m) = rm_next m" "rm_runs (append_draining now p m) = rm_runs m"
  "rm_starting (append_draining now p m) = rm_starting m" "rm_queue (append_draining now p m) = rm_queue m"
  "rm_shutting (append_draining now p m) = rm_shutting m" "rm_drain_cap (append_draining now p m) = rm_drain_cap m"
  "rm_flights (append_draining now p m) = rm_flights m"
  "r_inflight (rm_heap (append_draining now p m) q) = r_inflight (rm_heap m q)"
  "r_finishing (rm_heap (append_draining now p m) q) = r_finishing (rm_heap m q)"
  "r_agent (rm_heap (append_draining now p m) q) = r_agent (rm_heap m q)"
  by (simp_all add: append_draining_def set_run_def)

lemma unset_frame [run_frame, simp]:
  "rm_heap (unset_current p m) = rm_heap m" "rm_next (unset_current p m) = rm_next m"
  "rm_starting (unset_current p m) = rm_starting m" "rm_draining (unset_current p m) = rm_draining m"
  "rm_queue (unset_current p m) = rm_queue m" "rm_log (unset_current p m) = rm_log m"
  "rm_shutting (unset_current p m) = rm_shutting m" "rm_drain_cap (unset_current p m) = rm_drain_cap m"
  by (simp_all add: unset_current_def)

lemma remove_draining_frame [run_frame, simp]:
  "rm_heap (remove_draining p m) = rm_heap m" "rm_next (remove_draining p m) = rm_next m"
  "rm_runs (remove_draining p m) = rm_runs m" "rm_starting (remove_draining p m) = rm_starting m"
  "rm_queue (remove_draining p m) = rm_queue m" "rm_log (remove_draining p m) = rm_log m"
  "rm_shutting (remove_draining p m) = rm_shutting m" "rm_drain_cap (remove_draining p m) = rm_drain_cap m"
  "rm_draining (remove_draining p m) = filter (\<lambda>d. d \<noteq> p) (rm_draining m)"
  by (simp_all add: remove_draining_def)

lemma remove_run_frame [run_frame, simp]:
  "rm_heap (remove_run a m) = rm_heap m" "rm_next (remove_run a m) = rm_next m"
  "rm_runs (remove_run a m) = rm_runs m" "rm_starting (remove_run a m) = rm_starting m"
  "rm_queue (remove_run a m) = rm_queue m" "rm_log (remove_run a m) = rm_log m"
  "rm_shutting (remove_run a m) = rm_shutting m" "rm_drain_cap (remove_run a m) = rm_drain_cap m"
  "rm_draining (remove_run a m) = rm_draining m"
  by (simp_all add: remove_run_def split: option.split)

lemma persist_run_frame [run_frame, simp]:
  "rm_heap (persist_run r m) = rm_heap m" "rm_next (persist_run r m) = rm_next m"
  "rm_runs (persist_run r m) = rm_runs m" "rm_starting (persist_run r m) = rm_starting m"
  "rm_queue (persist_run r m) = rm_queue m" "rm_log (persist_run r m) = rm_log m"
  "rm_shutting (persist_run r m) = rm_shutting m" "rm_drain_cap (persist_run r m) = rm_drain_cap m"
  "rm_draining (persist_run r m) = rm_draining m"
  by (simp_all add: persist_run_def split: option.split)

lemma close_flight_frame [run_frame, simp]:
  "rm_heap (close_flight a f err m) = rm_heap m" "rm_next (close_flight a f err m) = rm_next m"
  "rm_runs (close_flight a f err m) = rm_runs m" "rm_queue (close_flight a f err m) = rm_queue m"
  "rm_log (close_flight a f err m) = rm_log m" "rm_shutting (close_flight a f err m) = rm_shutting m"
  "rm_drain_cap (close_flight a f err m) = rm_drain_cap m" "rm_draining (close_flight a f err m) = rm_draining m"
  "rm_starting (close_flight a f err m) = AList.delete a (rm_starting m)"
  by (simp_all add: close_flight_def)

lemma drop_lease_frame [run_frame, simp]:
  "rm_next (drop_lease p m) = rm_next m" "rm_runs (drop_lease p m) = rm_runs m"
  "rm_starting (drop_lease p m) = rm_starting m" "rm_draining (drop_lease p m) = rm_draining m"
  "rm_queue (drop_lease p m) = rm_queue m" "rm_log (drop_lease p m) = rm_log m"
  "rm_shutting (drop_lease p m) = rm_shutting m" "rm_drain_cap (drop_lease p m) = rm_drain_cap m"
  "r_inflight (rm_heap (drop_lease p m) q) = (if q = p \<and> 0 < r_inflight (rm_heap m p)
     then r_inflight (rm_heap m p) - 1 else r_inflight (rm_heap m q))"
  "r_finishing (rm_heap (drop_lease p m) q) = r_finishing (rm_heap m q)"
  "r_agent (rm_heap (drop_lease p m) q) = r_agent (rm_heap m q)"
  "r_status (rm_heap (drop_lease p m) q) = r_status (rm_heap m q)"
  by (simp_all add: drop_lease_def Let_def)

lemma swap_current_facts:
  assumes "swap_current now a r m = (p, old, m')"
  shows "p = rm_next m" "old = map_of (rm_runs m) a" "rm_next m' = rm_next m + 1"
    "rm_runs m' = AList.update a (rm_next m) (rm_runs m)" "rm_starting m' = rm_starting m"
    "rm_queue m' = rm_queue m" "rm_shutting m' = rm_shutting m" "rm_drain_cap m' = rm_drain_cap m"
    "r_inflight (rm_heap m' q) = (if q = rm_next m then r_inflight r else r_inflight (rm_heap m q))"
    "r_finishing (rm_heap m' q) = (if q = rm_next m then r_finishing r else r_finishing (rm_heap m q))"
    "r_agent (rm_heap m' q) = (if q = rm_next m then r_agent r else r_agent (rm_heap m q))"
  using assms by (auto simp: swap_current_def alloc_run_def Let_def split: option.splits)

lemma fold_append_frame [run_frame, simp]:
  fixes xs :: "(string \<times> ptr) list" and now :: gotime
  defines "g \<equiv> fold (\<lambda>(a, p) m. append_draining now p m) xs"
  shows "rm_next (g m) = rm_next m" "rm_runs (g m) = rm_runs m"
    "rm_starting (g m) = rm_starting m" "rm_queue (g m) = rm_queue m"
    "rm_shutting (g m) = rm_shutting m" "rm_drain_cap (g m) = rm_drain_cap m"
    "r_inflight (rm_heap (g m) q) = r_inflight (rm_heap m q)"
    "r_finishing (rm_heap (g m) q) = r_finishing (rm_heap m q)"
    "r_agent (rm_heap (g m) q) = r_agent (rm_heap m q)"
  unfolding g_def by (induction xs arbitrary: m) auto

text \<open>\<open>claim_finishing\<close> marks the runs it returns, each of them once.\<close>

lemma claim_finishing_Nil [simp]: "claim_finishing [] m = ([], m)"
  by (simp add: claim_finishing_def)

lemma claim_finishing_Cons:
  "claim_finishing (p # ps) m = (if r_finishing (rm_heap m p) then claim_finishing ps m
     else let (qs, m') = claim_finishing ps (set_run p ((rm_heap m p)\<lparr>r_finishing := True\<rparr>) m) in (p # qs, m'))"
proof -
  have acc: "foldl (\<lambda>(acc, m) p. if r_finishing (run_at m p) then (acc, m)
       else (acc @ [p], set_run p ((run_at m p)\<lparr>r_finishing := True\<rparr>) m)) (acc, m) ps =
     (let (qs, m') = claim_finishing ps m in (acc @ qs, m'))" for acc m ps
    unfolding claim_finishing_def
  proof (induction ps arbitrary: acc m)
    case (Cons p ps)
    show ?case
      using Cons.IH [of "acc @ [p]"] Cons.IH [of "[p]"] Cons.IH [of acc] Cons.IH [of "[]"]
      by (simp add: Let_def case_prod_beta)
  qed simp
  show ?thesis using acc [of "[p]"] by (simp add: claim_finishing_def Let_def case_prod_beta)
qed

lemma claim_finishing_facts:
  assumes "claim_finishing ps m = (qs, m')"
  shows "rm_next m' = rm_next m \<and> rm_runs m' = rm_runs m \<and> rm_starting m' = rm_starting m \<and>
    rm_queue m' = rm_queue m \<and> rm_shutting m' = rm_shutting m \<and> rm_drain_cap m' = rm_drain_cap m \<and>
    rm_draining m' = rm_draining m \<and> rm_log m' = rm_log m \<and>
    (\<forall>q. r_inflight (rm_heap m' q) = r_inflight (rm_heap m q) \<and> r_agent (rm_heap m' q) = r_agent (rm_heap m q) \<and>
       (r_finishing (rm_heap m' q) \<longleftrightarrow> r_finishing (rm_heap m q) \<or> q \<in> set ps) \<and>
       (q \<in> set qs \<longleftrightarrow> q \<in> set ps \<and> \<not> r_finishing (rm_heap m q))) \<and> distinct qs"
  using assms
proof (induction ps arbitrary: m qs)
  case (Cons p ps)
  show ?case
  proof (cases "r_finishing (rm_heap m p)")
    case True
    then show ?thesis using Cons by (auto simp: claim_finishing_Cons)
  next
    case False
    let ?m = "set_run p ((rm_heap m p)\<lparr>r_finishing := True\<rparr>) m"
    obtain qs' where q: "claim_finishing ps ?m = (qs', m')" "qs = p # qs'"
      using Cons.prems False by (auto simp: claim_finishing_Cons Let_def split: prod.splits)
    from Cons.IH [OF q(1)] show ?thesis using q(2) False by auto
  qed
qed simp

lemma claim_finishing_frame [run_frame, simp]:
  "rm_next (snd (claim_finishing ps m)) = rm_next m" "rm_runs (snd (claim_finishing ps m)) = rm_runs m"
  "rm_starting (snd (claim_finishing ps m)) = rm_starting m" "rm_queue (snd (claim_finishing ps m)) = rm_queue m"
  "rm_shutting (snd (claim_finishing ps m)) = rm_shutting m"
  "rm_drain_cap (snd (claim_finishing ps m)) = rm_drain_cap m"
  "rm_draining (snd (claim_finishing ps m)) = rm_draining m" "rm_log (snd (claim_finishing ps m)) = rm_log m"
  "r_inflight (rm_heap (snd (claim_finishing ps m)) q) = r_inflight (rm_heap m q)"
  "r_agent (rm_heap (snd (claim_finishing ps m)) q) = r_agent (rm_heap m q)"
  "r_finishing (rm_heap (snd (claim_finishing ps m)) q) \<longleftrightarrow> r_finishing (rm_heap m q) \<or> q \<in> set ps"
  "q \<in> set (fst (claim_finishing ps m)) \<longleftrightarrow> q \<in> set ps \<and> \<not> r_finishing (rm_heap m q)"
  "distinct (fst (claim_finishing ps m))"
  using claim_finishing_facts [of ps m "fst (claim_finishing ps m)" "snd (claim_finishing ps m)"] by simp_all

subsection \<open>Single flight\<close>

text \<open>The tasks of the leader that is starting a run for agent \<open>a\<close>.\<close>

fun leads :: "string \<Rightarrow> task \<Rightarrow> bool" where
  "leads a (RotLead w b f) = (b = a)"
| "leads a (RotAdopt w b f pr) = (b = a)"
| "leads a (RotStart w b f) = (b = a)"
| "leads a _ = False"

definition one_leader :: "run_system \<Rightarrow> bool" where
  "one_leader s \<longleftrightarrow> (\<forall>a. pend (leads a) (snd s) \<le> (if map_of (rm_starting (fst s)) a \<noteq> None then 1 else 0))"

lemmas exec_defs = acquire_new_def acquire_check_def lease_def rotate_enter_def rotate_wait_def rotate_lead_def
  rotate_adopt_def rotate_start_def precreate_def prewarm_one_def enqueue_finish_def worker_def finish_claim_def
  finish_call_def finish_inline_def release_def release_abandoned_def shutdown_begin_def shut_call_def
  rotate_err_def rotated_def enqueue_old_def

lemma exec_leads:
  assumes "exec e t m = Some (new, m')"
  shows "many (leads a) new - (if leads a t then 1 else 0) \<le>
    (if map_of (rm_starting m') a \<noteq> None then 1 else 0) - (if map_of (rm_starting m) a \<noteq> None then 1 else 0)"
proof (cases t)
  case (RotLead w b f)
  then show ?thesis using assms
    by (auto simp: rotate_lead_def Let_def split: option.splits if_splits prod.splits)
next
  case (RotAdopt w b f pr)
  then show ?thesis using assms
    by (auto simp: rotate_adopt_def Let_def rotate_err_def rotated_def enqueue_old_def map_of_delete
        split: option.splits if_splits prod.splits dest!: swap_current_facts(5))
next
  case (RotStart w b f)
  then show ?thesis using assms
    by (auto simp: rotate_start_def Let_def rotate_err_def rotated_def enqueue_old_def map_of_delete
        split: option.splits if_splits prod.splits sum.splits dest!: swap_current_facts(5))
next
  case (Rotate w b)
  then show ?thesis using assms
    by (auto simp: rotate_enter_def Let_def rotate_err_def rotated_def map_of_update
        split: option.splits if_splits)
next
  case Maintain
  then show ?thesis using assms by (auto simp: maintain_def Let_def many_map_none split: if_splits)
next
  case FinishAll
  then show ?thesis using assms by (auto simp: finish_all_def Let_def many_map_none)
next
  case ShutClaim
  then show ?thesis using assms
    by (auto simp: shutdown_claim_def Let_def many_map_none case_prod_beta split: if_splits prod.splits
        dest!: claim_finishing_facts)
qed (use assms in \<open>auto simp: exec_defs Let_def split: option.splits if_splits list.splits prod.splits\<close>)

lemma local_starting:
  "local_apply tz now op m = Some m' \<Longrightarrow> rm_starting m' = rm_starting m"
  by (cases op) (auto simp: invalidate_run_def record_step_def mark_failed_def next_step_number_def set_store_def
      Let_def split: option.splits if_splits)

lemma one_leader_step:
  assumes "run_step_rel tz s s'" "one_leader s"
  shows "one_leader s'"
  using assms(1)
proof (cases rule: run_step_rel.cases)
  case (thread i ts t rest e m new m')
  show ?thesis
    unfolding one_leader_def
  proof
    fix a
    have "pend (leads a) ts \<le> (if map_of (rm_starting m) a \<noteq> None then 1 else 0)"
      using assms(2) thread(1) by (simp add: one_leader_def)
    moreover note exec_leads [OF thread(5), of a] pend_update [OF thread(3,4), of "leads a" new]
    ultimately show "pend (leads a) (snd s') \<le> (if map_of (rm_starting (fst s')) a \<noteq> None then 1 else 0)"
      unfolding thread(2) fst_conv snd_conv by linarith
  qed
next
  case (spawn t m ts)
  moreover from spawn(3) have "\<not> leads a t" for a by (cases t) auto
  ultimately show ?thesis using assms(2) by (simp add: one_leader_def)
next
  case (local now op m m' ts)
  then show ?thesis using assms(2) by (simp add: one_leader_def local_starting)
qed

lemma one_leader_reach: "run_reach tz s \<Longrightarrow> one_leader s"
proof (induction rule: run_reach.induct)
  case (init key opts)
  show ?case by (simp add: one_leader_def)
qed (rule one_leader_step)

subsection \<open>Pointers\<close>

text \<open>Every pointer in use was allocated, and what is not allocated is neither leased nor finishing.\<close>

fun task_ptr :: "task \<Rightarrow> ptr option" where
  "task_ptr (Persist p) = Some p"
| "task_ptr (Enqueue p) = Some p"
| "task_ptr (Finish p) = Some p"
| "task_ptr (FinishSnap p) = Some p"
| "task_ptr (FinishCall p st steps n) = Some p"
| "task_ptr (Held p) = Some p"
| "task_ptr (ShutSnap p b) = Some p"
| "task_ptr (ShutCall p b st steps n) = Some p"
| "task_ptr _ = None"

definition task_ok :: "ptr \<Rightarrow> task \<Rightarrow> bool" where
  "task_ok n t \<longleftrightarrow> (\<forall>p. task_ptr t = Some p \<longrightarrow> p < n)"

lemma task_ok_simps [simp]:
  "task_ptr t = None \<Longrightarrow> task_ok n t" "task_ptr t = Some p \<Longrightarrow> task_ok n t \<longleftrightarrow> p < n"
  by (simp_all add: task_ok_def)

definition manager_ok :: "manager \<Rightarrow> bool" where
  "manager_ok m \<longleftrightarrow> (\<forall>p \<in> set (rm_draining m). p < rm_next m) \<and> (\<forall>(a, p) \<in> set (rm_runs m). p < rm_next m) \<and>
     (\<forall>p \<in> set (rm_queue m). p < rm_next m) \<and>
     (\<forall>p. rm_next m \<le> p \<longrightarrow> r_inflight (rm_heap m p) = 0 \<and> \<not> r_finishing (rm_heap m p)) \<and>
     gomap (rm_runs m) \<and> (\<forall>(a, p) \<in> set (rm_runs m). r_agent (rm_heap m p) = a)"

definition pointers_ok :: "run_system \<Rightarrow> bool" where
  "pointers_ok s \<longleftrightarrow> manager_ok (fst s) \<and> (\<forall>ts \<in> set (snd s). \<forall>t \<in> set ts. task_ok (rm_next (fst s)) t)"

lemma prune_subset: "set (rm_draining (prune_draining now m)) \<subseteq> set (rm_draining m)"
  by (auto simp: prune_draining_def Let_def dest: in_set_takeD)

lemma append_subset: "set (rm_draining (append_draining now p m)) \<subseteq> insert p (set (rm_draining m))"
  using prune_subset [of now "(set_run p ((run_at m p)\<lparr>r_drained_at := now\<rparr>) m)\<lparr>rm_draining := rm_draining m @ [p]\<rparr>"]
  by (auto simp: append_draining_def)

lemma fold_append_subset:
  "set (rm_draining (fold (\<lambda>(a, p) m. append_draining now p m) xs m)) \<subseteq> snd ` set xs \<union> set (rm_draining m)"
proof (induction xs arbitrary: m)
  case (Cons x xs)
  show ?case using Cons.IH [of "append_draining now (snd x) m"] append_subset [of now "snd x" m]
    by (auto simp: case_prod_beta)
qed simp

lemma runs_update_ok:
  assumes "gomap xs" "(b, q) \<in> set (AList.update a p xs)"
  shows "b = a \<and> q = p \<or> (b, q) \<in> set xs \<and> b \<noteq> a"
proof -
  have "map_of (AList.update a p xs) b = Some q"
    using assms(2) gomap_map_of [OF gomap_update [OF assms(1)]] by blast
  then show ?thesis using gomap_map_of [OF assms(1), of b q] by (simp add: map_of_update split: if_splits)
qed

lemma manager_okI:
  assumes "\<And>p. p \<in> set (rm_draining m) \<Longrightarrow> p < rm_next m"
    "\<And>a p. (a, p) \<in> set (rm_runs m) \<Longrightarrow> p < rm_next m \<and> r_agent (rm_heap m p) = a"
    "\<And>p. p \<in> set (rm_queue m) \<Longrightarrow> p < rm_next m"
    "\<And>p. rm_next m \<le> p \<Longrightarrow> r_inflight (rm_heap m p) = 0 \<and> \<not> r_finishing (rm_heap m p)"
    "gomap (rm_runs m)"
  shows "manager_ok m"
  unfolding manager_ok_def using assms by blast

lemma manager_okD:
  assumes "manager_ok m"
  shows "p \<in> set (rm_draining m) \<Longrightarrow> p < rm_next m"
    and "(a, p) \<in> set (rm_runs m) \<Longrightarrow> p < rm_next m \<and> r_agent (rm_heap m p) = a"
    and "p \<in> set (rm_queue m) \<Longrightarrow> p < rm_next m"
    and "rm_next m \<le> p \<Longrightarrow> r_inflight (rm_heap m p) = 0 \<and> \<not> r_finishing (rm_heap m p)"
    and "gomap (rm_runs m)"
  using assms unfolding manager_ok_def by blast+

lemma manager_ok_current: "manager_ok m \<Longrightarrow> map_of (rm_runs m) a = Some p \<Longrightarrow> p < rm_next m \<and> r_agent (rm_heap m p) = a"
  using manager_okD(2) map_of_SomeD by metis

text \<open>The same manager with fewer entries, or with entries that are allocated.\<close>

lemma manager_ok_shrink:
  assumes ok: "manager_ok m" and n: "rm_next m' = rm_next m"
    and d: "set (rm_draining m') \<subseteq> set (rm_draining m) \<union> ps"
    and r: "set (rm_runs m') \<subseteq> set (rm_runs m)" "gomap (rm_runs m')"
    and q: "set (rm_queue m') \<subseteq> set (rm_queue m) \<union> ps"
    and ps: "\<And>p. p \<in> ps \<Longrightarrow> p < rm_next m"
    and f: "\<And>p. rm_next m \<le> p \<Longrightarrow> r_inflight (rm_heap m' p) = 0 \<and> \<not> r_finishing (rm_heap m' p)"
    and g: "\<And>p. r_agent (rm_heap m' p) = r_agent (rm_heap m p)"
  shows "manager_ok m'"
proof (rule manager_okI)
  show "p < rm_next m'" if "p \<in> set (rm_draining m')" for p
    using that d ps manager_okD(1) [OF ok] n by (metis Un_iff subsetD)
  show "p < rm_next m' \<and> r_agent (rm_heap m' p) = a" if "(a, p) \<in> set (rm_runs m')" for a p
    using manager_okD(2) [OF ok subsetD [OF r(1) that]] n g by simp
  show "p < rm_next m'" if "p \<in> set (rm_queue m')" for p
    using that q ps manager_okD(3) [OF ok] n by (metis Un_iff subsetD)
qed (use f n r in simp_all)

lemma unset_subset: "set (rm_runs (unset_current p m)) \<subseteq> set (rm_runs m)"
  by (auto simp: unset_current_def set_delete)

lemma gomap_unset: "gomap (rm_runs m) \<Longrightarrow> gomap (rm_runs (unset_current p m))"
  by (simp add: unset_current_def gomap_delete)

lemma manager_ok_swap:
  assumes "swap_current now a r m = (p, old, m')" "manager_ok m" "r_agent r = a" "r_inflight r = 0" "\<not> r_finishing r"
  shows "manager_ok m'" "rm_next m' = rm_next m + 1" "p < rm_next m'" "old = Some q \<Longrightarrow> q < rm_next m'"
proof -
  note f = swap_current_facts [OF assms(1)]
  have o: "q < rm_next m" if "old = Some q" for q
    using that f(2) manager_ok_current [OF assms(2)] by auto
  show "rm_next m' = rm_next m + 1" "p < rm_next m'" "old = Some q \<Longrightarrow> q < rm_next m'"
    using f(1,3) o [of q] by simp_all
  have dsub: "set (rm_draining m') \<subseteq> set (rm_draining m) \<union> set_option old"
  proof (cases "map_of (rm_runs m) a")
    case (Some q)
    then show ?thesis using assms(1)
      append_subset [of now q "m\<lparr>rm_heap := (rm_heap m)(rm_next m := r), rm_next := rm_next m + 1,
        rm_runs := AList.update a (rm_next m) (rm_runs m)\<rparr>"]
      by (auto simp: swap_current_def alloc_run_def Let_def)
  qed (use assms(1) in \<open>auto simp: swap_current_def alloc_run_def Let_def\<close>)
  show "manager_ok m'"
  proof (rule manager_okI)
    show "q < rm_next m'" if "q \<in> set (rm_draining m')" for q
      using subsetD [OF dsub that] manager_okD(1) [OF assms(2), of q] o [of q] f(3) by auto
    show "q < rm_next m' \<and> r_agent (rm_heap m' q) = b" if "(b, q) \<in> set (rm_runs m')" for b q
      using runs_update_ok [OF manager_okD(5) [OF assms(2)], of b q a "rm_next m"] that f(4)
        manager_okD(2) [OF assms(2), of b q] f(3) f(11) [of q] assms(3) by auto
    show "q < rm_next m'" if "q \<in> set (rm_queue m')" for q
      using that f(3,6) manager_okD(3) [OF assms(2), of q] by simp
    show "r_inflight (rm_heap m' q) = 0 \<and> \<not> r_finishing (rm_heap m' q)" if "rm_next m' \<le> q" for q
      using that f(3) f(9) [of q] f(10) [of q] manager_okD(4) [OF assms(2), of q] by simp
    show "gomap (rm_runs m')" using f(4) manager_okD(5) [OF assms(2)] by (simp add: gomap_update)
  qed
qed

lemma manager_ok_irrelevant [simp]:
  "manager_ok (m\<lparr>rm_store := v1\<rparr>) = manager_ok m" "manager_ok (m\<lparr>rm_flights := v2\<rparr>) = manager_ok m"
  "manager_ok (m\<lparr>rm_next_flight := v3\<rparr>) = manager_ok m" "manager_ok (m\<lparr>rm_starting := v4\<rparr>) = manager_ok m"
  "manager_ok (m\<lparr>rm_log := v5\<rparr>) = manager_ok m" "manager_ok (m\<lparr>rm_total := v6\<rparr>) = manager_ok m"
  "manager_ok (m\<lparr>rm_co := v7\<rparr>) = manager_ok m" "manager_ok (m\<lparr>rm_kept := v8\<rparr>) = manager_ok m"
  "manager_ok (m\<lparr>rm_shutting := v9\<rparr>) = manager_ok m" "manager_ok (m\<lparr>rm_stopped := v9\<rparr>) = manager_ok m"
  by (simp_all add: manager_ok_def)

lemma manager_ok_helpers [simp]:
  "manager_ok (remove_run a m) = manager_ok m" "manager_ok (persist_run pr m) = manager_ok m"
  "manager_ok (close_flight a f err m) = manager_ok m"
  by (simp_all add: manager_ok_def)

lemma manager_ok_set_run:
  "manager_ok m \<Longrightarrow> p < rm_next m \<Longrightarrow> r_agent r = r_agent (rm_heap m p) \<Longrightarrow> manager_ok (set_run p r m)"
  by (rule manager_ok_shrink [of m _ "{}"]) (auto dest: manager_okD(4,5))

lemma manager_ok_draining:
  assumes "manager_ok m" "rm_next m' = rm_next m" "set (rm_draining m') \<subseteq> set (rm_draining m) \<union> ps"
    "\<And>p. p \<in> ps \<Longrightarrow> p < rm_next m" "rm_runs m' = rm_runs m" "rm_queue m' = rm_queue m"
    "\<And>p. r_inflight (rm_heap m' p) = r_inflight (rm_heap m p)"
    "\<And>p. r_finishing (rm_heap m' p) = r_finishing (rm_heap m p)"
    "\<And>p. r_agent (rm_heap m' p) = r_agent (rm_heap m p)"
  shows "manager_ok m'"
  by (rule manager_ok_shrink [OF assms(1-3)])
    (simp_all add: assms(4-9) manager_okD(4,5) [OF assms(1)])

lemma manager_ok_prune: "manager_ok m \<Longrightarrow> manager_ok (prune_draining now m)"
  by (rule manager_ok_draining [of m _ "{}"]) (simp_all add: prune_subset)

lemma manager_ok_append: "manager_ok m \<Longrightarrow> p < rm_next m \<Longrightarrow> manager_ok (append_draining now p m)"
  by (rule manager_ok_draining [of m _ "{p}"]) (simp_all add: append_subset)

lemma manager_ok_unset: "manager_ok m \<Longrightarrow> manager_ok (unset_current p m)"
  by (rule manager_ok_shrink [of m _ "{}"])
    (simp_all add: unset_subset gomap_unset manager_okD(4,5))

lemma manager_ok_remove_draining: "manager_ok m \<Longrightarrow> manager_ok (remove_draining p m)"
  by (rule manager_ok_shrink [of m _ "{}"]) (auto dest: manager_okD(4,5))

lemma manager_ok_drop_lease: "manager_ok m \<Longrightarrow> p < rm_next m \<Longrightarrow> manager_ok (drop_lease p m)"
  by (simp add: drop_lease_def Let_def manager_ok_set_run)

lemma manager_ok_fold_append:
  "manager_ok m \<Longrightarrow> (\<forall>x \<in> set xs. snd x < rm_next m) \<Longrightarrow>
     manager_ok (fold (\<lambda>(a, p) m. append_draining now p m) xs m)"
  by (induction xs arbitrary: m) (auto simp: manager_ok_append)

lemma manager_ok_claim: "manager_ok m \<Longrightarrow> set ps \<subseteq> {..<rm_next m} \<Longrightarrow> manager_ok (snd (claim_finishing ps m))"
  by (rule manager_ok_shrink [of m _ "{}"]) (auto dest: manager_okD(4,5))

lemmas manager_ok_intros = manager_ok_set_run manager_ok_prune manager_ok_append manager_ok_unset
  manager_ok_remove_draining manager_ok_drop_lease

lemma finish_all_ok:
  assumes "manager_ok m" "finish_all now m = (new, m')"
  shows "manager_ok m' \<and> rm_next m' = rm_next m \<and> (\<forall>t \<in> set new. task_ok (rm_next m) t)"
proof -
  let ?idle = "\<lambda>p. r_inflight (run_at m p) \<le> 0"
  let ?m1 = "m\<lparr>rm_runs := filter (\<lambda>(a, p). \<not> ?idle p) (rm_runs m), rm_draining := filter (\<lambda>p. \<not> ?idle p) (rm_draining m)\<rparr>"
  have ok1: "manager_ok ?m1"
    by (rule manager_ok_shrink [OF assms(1), of _ "{}"])
      (auto intro: gomap_filter dest: manager_okD(4) [OF assms(1)] simp: manager_okD(5) [OF assms(1)])
  have new: "new = map Finish (map snd (filter (\<lambda>(a, p). ?idle p) (rm_runs m)) @ filter ?idle (rm_draining m))"
    and m': "m' = prune_draining now (fold (\<lambda>(a, p) m. append_draining now p m) (rm_runs ?m1) ?m1)"
    using assms(2) unfolding finish_all_def Let_def by simp_all
  have "manager_ok m'" unfolding m'
    by (intro manager_ok_prune manager_ok_fold_append ok1) (auto dest: manager_okD(2) [OF assms(1)])
  moreover have "task_ok (rm_next m) t" if "t \<in> set new" for t
    using that new manager_okD(1,2) [OF assms(1)] by auto
  ultimately show ?thesis by (simp add: m')
qed

lemma exec_ok:
  assumes "exec e t m = Some (new, m')" "manager_ok m" "task_ok (rm_next m) t"
  shows "manager_ok m' \<and> rm_next m \<le> rm_next m' \<and> (\<forall>u \<in> set new. task_ok (rm_next m') u)"
proof (cases t)
  case (RotAdopt w b f pr)
  show ?thesis
  proof (cases "rm_shutting m")
    case False
    let ?m0 = "close_flight b f None (m\<lparr>rm_log := LAdopt (pr_run pr) # rm_log m\<rparr>)"
    obtain p old m1 where sw: "swap_current (ev_now e) b
        (fresh_run b (pr_run pr) (pr_started pr) (pr_trace pr) (pr_requests pr)) ?m0 = (p, old, m1)"
      by (metis prod_cases3)
    have "manager_ok ?m0" using assms(2) by simp
    from manager_ok_swap [OF sw this] show ?thesis
      using assms(1) RotAdopt False sw
      by (auto simp: rotate_adopt_def rotated_def enqueue_old_def fresh_run_def split: option.splits)
  qed (use assms RotAdopt in \<open>auto simp: rotate_adopt_def rotate_err_def\<close>)
next
  case (RotStart w b f)
  show ?thesis
  proof (cases "rm_shutting m \<or> (\<exists>err. ev_start e = Inr err)")
    case False
    then obtain rid where rid: "ev_start e = Inl rid" by (cases "ev_start e") auto
    let ?m0 = "close_flight b f None (m\<lparr>rm_log := LStart b (ev_start e) # rm_log m\<rparr>)"
    let ?r = "fresh_run b rid (ev_now e) (new_trace_session_id (ev_rand e) (ev_now e)) 0"
    obtain p old m1 where sw: "swap_current (ev_now e) b ?r ?m0 = (p, old, m1)" by (metis prod_cases3)
    have "manager_ok ?m0" using assms(2) by simp
    from manager_ok_swap [OF sw this] show ?thesis
      using assms(1) RotStart False sw rid
      by (auto simp: rotate_start_def rotated_def enqueue_old_def fresh_run_def Let_def split: option.splits)
  qed (use assms RotStart in \<open>auto simp: rotate_start_def rotate_err_def Let_def split: sum.splits\<close>)
next
  case FinishAll
  then show ?thesis using finish_all_ok [OF assms(2)] assms(1) by auto
next
  case Maintain
  then show ?thesis using assms(1,2) manager_ok_prune manager_okD(1) [OF manager_ok_prune [OF assms(2)]]
    by (auto simp: maintain_def Let_def split: if_splits)
next
  case ShutClaim
  have d: "set (rm_draining m) \<subseteq> {..<rm_next m}" "set (map snd (rm_runs m) @ rm_draining m) \<subseteq> {..<rm_next m}"
    using manager_okD(1,2) [OF assms(2)] by auto
  have u: "\<forall>p \<in> set (rm_draining m). p < rm_next m" "\<And>a p. (a, p) \<in> set (rm_runs m) \<Longrightarrow> p < rm_next m"
    using manager_okD(1,2) [OF assms(2)] by auto
  have z: "manager_ok (m1\<lparr>rm_runs := [], rm_draining := []\<rparr>)" if "manager_ok m1" for m1
    by (rule manager_ok_shrink [OF that, of _ "{}"]) (auto dest: manager_okD(4) [OF that])
  show ?thesis
    using ShutClaim assms(1) manager_ok_claim [OF assms(2) d(1)] z [OF manager_ok_claim [OF assms(2) d(2)]] u
    by (auto simp: shutdown_claim_def Let_def case_prod_beta split: if_splits intro: u)
next
  case (Lease a)
  then show ?thesis using assms manager_ok_current [OF assms(2), of a]
    by (auto simp: lease_def Let_def manager_ok_set_run split: option.splits)
next
  case Worker
  have "manager_ok (m\<lparr>rm_queue := q\<rparr>)" if "rm_queue m = p # q" for p q
    by (rule manager_ok_shrink [OF assms(2), of _ "{}"])
      (use that in \<open>auto dest: manager_okD(4) [OF assms(2)] simp: manager_okD(5) [OF assms(2)]\<close>)
  then show ?thesis using assms Worker manager_okD(3) [OF assms(2)]
    by (auto simp: worker_def split: list.splits if_splits)
next
  case (Enqueue p)
  then have p: "p < rm_next m" using assms(3) by simp
  let ?m1 = "set_run p ((run_at m p)\<lparr>r_queued := True\<rparr>) m"
  have ok1: "manager_ok ?m1" using assms(2) p by (simp add: manager_ok_set_run)
  have "manager_ok (?m1\<lparr>rm_queue := rm_queue m @ [p]\<rparr>)"
    by (rule manager_ok_shrink [OF ok1, of _ "{p}"])
      (use p in \<open>auto simp: manager_okD(4,5) [OF assms(2)]\<close>)
  then show ?thesis using assms Enqueue p ok1 by (auto simp: enqueue_finish_def Let_def split: if_splits)
next
  case (Held p)
  then show ?thesis using assms
    by (auto simp: release_def release_abandoned_def Let_def intro!: manager_ok_intros split: if_splits)
next
  case (Finish p)
  then show ?thesis using assms
    by (auto simp: finish_claim_def Let_def intro!: manager_ok_intros split: if_splits)
next
  case (FinishCall p st steps n)
  then show ?thesis using assms
    by (auto simp: finish_call_def Let_def intro!: manager_ok_intros split: option.splits)
qed (use assms in \<open>auto simp: exec_defs Let_def split: option.splits if_splits prod.splits\<close>)

lemma pointers_ok_step:
  assumes "run_step_rel tz s s'" "pointers_ok s"
  shows "pointers_ok s'"
  using assms(1)
proof (cases rule: run_step_rel.cases)
  case (thread i ts t rest e m new m')
  have ok: "manager_ok m" "\<forall>us \<in> set ts. \<forall>u \<in> set us. task_ok (rm_next m) u"
    using assms(2) thread(1) by (simp_all add: pointers_ok_def)
  have "t # rest \<in> set ts" using thread(3,4) nth_mem by metis
  then have "task_ok (rm_next m) t" "\<forall>u \<in> set rest. task_ok (rm_next m) u" using ok(2) by auto
  note x = exec_ok [OF thread(5) ok(1) this(1)] and r = this(2)
  have mono: "task_ok (rm_next m) u \<Longrightarrow> task_ok (rm_next m') u" for u
    using x by (auto simp: task_ok_def)
  have "set (ts[i := new @ rest]) \<subseteq> insert (new @ rest) (set ts)" by (rule set_update_subset_insert)
  then show ?thesis using x r ok(2) mono unfolding thread(2) pointers_ok_def by fastforce
next
  case (spawn t m ts)
  moreover from spawn(3) have "task_ok (rm_next m) t" by (cases t) auto
  ultimately show ?thesis using assms(2) by (auto simp: pointers_ok_def)
next
  case (local now op m m' ts)
  have "manager_ok m' \<and> rm_next m' = rm_next m" if "manager_ok m"
  proof -
    have "rm_next m' = rm_next m \<and> rm_draining m' = rm_draining m \<and> rm_queue m' = rm_queue m \<and>
        set (rm_runs m') \<subseteq> set (rm_runs m) \<and> (gomap (rm_runs m) \<longrightarrow> gomap (rm_runs m')) \<and>
        (\<forall>q. r_inflight (rm_heap m' q) = r_inflight (rm_heap m q) \<and>
             r_finishing (rm_heap m' q) = r_finishing (rm_heap m q) \<and> r_agent (rm_heap m' q) = r_agent (rm_heap m q))"
      using local(3)
      by (cases op) (auto simp: invalidate_run_def record_step_def mark_failed_def next_step_number_def set_store_def
          Let_def set_delete gomap_delete split: option.splits if_splits)
    then show ?thesis
      by (intro conjI manager_ok_shrink [OF that, of m' "{}"])
        (simp_all add: manager_okD(4,5) [OF that])
  qed
  then show ?thesis using assms(2) unfolding local(1,2) by (simp add: pointers_ok_def)
qed

lemma manager_ok_new [simp]: "manager_ok (new_run_manager key opts)"
  by (rule manager_okI) (auto simp: new_run_manager_def fresh_run_def)

lemma pointers_ok_reach: "run_reach tz s \<Longrightarrow> pointers_ok s"
proof (induction rule: run_reach.induct)
  case (init key opts)
  show ?case by (simp add: pointers_ok_def)
qed (rule pointers_ok_step)

text \<open>Invariants of the threads: one rule for all of them, with the pointers in order.\<close>

lemma run_invariant:
  assumes r: "run_reach tz s"
    and init: "\<And>key opts. I (new_run_manager key opts) [[Worker]]"
    and thread: "\<And>m ts i t rest e new m'. I m ts \<Longrightarrow> manager_ok m \<Longrightarrow> task_ok (rm_next m) t \<Longrightarrow>
      (\<And>u us. us \<in> set ts \<Longrightarrow> u \<in> set us \<Longrightarrow> task_ok (rm_next m) u) \<Longrightarrow>
      i < length ts \<Longrightarrow> ts ! i = t # rest \<Longrightarrow> exec e t m = Some (new, m') \<Longrightarrow> I m' (ts[i := new @ rest])"
    and spawn: "\<And>m ts t. I m ts \<Longrightarrow> entry_task t \<Longrightarrow> I m (ts @ [[t]])"
    and local: "\<And>m ts now op m'. I m ts \<Longrightarrow> local_apply tz now op m = Some m' \<Longrightarrow> I m' ts"
  shows "I (fst s) (snd s)"
  using r
proof (induction rule: run_reach.induct)
  case (init key opts)
  show ?case by (simp add: assms(2))
next
  case (step s s')
  note po = pointers_ok_reach [OF step(1)]
  show ?case using step(2)
  proof (cases rule: run_step_rel.cases)
    case (thread i ts t rest e m new m')
    have "t # rest \<in> set ts" using thread(3,4) nth_mem by metis
    then show ?thesis using assms(3) [of m ts t i rest e new m'] thread step(3) po
      by (auto simp: pointers_ok_def)
  next
    case (spawn t m ts)
    then show ?thesis using assms(4) step(3) by simp
  next
    case (local now op m m' ts)
    then show ?thesis using assms(5) [of m ts now op m'] step(3) by simp
  qed
qed

subsection \<open>Leases\<close>

text \<open>The \<open>inflight\<close> counter of a run is the number of goroutines that hold it.\<close>

fun holds :: "ptr \<Rightarrow> task \<Rightarrow> bool" where
  "holds p (Held q) = (q = p)"
| "holds p _ = False"

lemma exec_holds:
  assumes "exec e t m = Some (new, m')" "manager_ok m" "holds p t \<Longrightarrow> 0 < r_inflight (rm_heap m p)"
  shows "r_inflight (rm_heap m' p) - r_inflight (rm_heap m p) = many (holds p) new - (if holds p t then 1 else 0)"
proof (cases t)
  case (RotAdopt w b f pr)
  then show ?thesis using assms(1) manager_okD(4) [OF assms(2), of p]
    by (auto simp: rotate_adopt_def Let_def rotate_err_def rotated_def enqueue_old_def fresh_run_def
        split: option.splits if_splits prod.splits dest!: swap_current_facts(9) [of _ _ _ _ _ _ _ p])
next
  case (RotStart w b f)
  then show ?thesis using assms(1) manager_okD(4) [OF assms(2), of p]
    by (auto simp: rotate_start_def Let_def rotate_err_def rotated_def enqueue_old_def fresh_run_def
        split: option.splits if_splits prod.splits sum.splits dest!: swap_current_facts(9) [of _ _ _ _ _ _ _ p])
next
  case Maintain
  then show ?thesis using assms by (auto simp: maintain_def Let_def many_map_none split: if_splits)
next
  case FinishAll
  then show ?thesis using assms by (auto simp: finish_all_def Let_def many_map_none)
next
  case ShutClaim
  then show ?thesis using assms
    by (auto simp: shutdown_claim_def Let_def many_map_none case_prod_beta split: if_splits)
qed (use assms in \<open>auto simp: exec_defs Let_def split: option.splits if_splits list.splits prod.splits\<close>)

definition leases_ok :: "manager \<Rightarrow> task list list \<Rightarrow> bool" where
  "leases_ok m ts \<longleftrightarrow> (\<forall>p. r_inflight (rm_heap m p) = pend (holds p) ts)"

lemma leases_reach: "run_reach tz s \<Longrightarrow> leases_ok (fst s) (snd s)"
proof (erule run_invariant)
  fix m ts i t rest e new m'
  assume I: "leases_ok m ts" and ok: "manager_ok m" "i < length ts" "ts ! i = t # rest" "exec e t m = Some (new, m')"
  show "leases_ok m' (ts[i := new @ rest])"
    unfolding leases_ok_def
  proof
    fix p
    have h: "holds p t \<Longrightarrow> 0 < r_inflight (rm_heap m p)"
      using pend_pos [OF ok(2), of t "holds p"] ok(3) I by (simp add: leases_ok_def)
    have "r_inflight (rm_heap m p) = pend (holds p) ts" using I by (simp add: leases_ok_def)
    with exec_holds [OF ok(4,1) h] pend_update [OF ok(2,3), of "holds p" new]
    show "r_inflight (rm_heap m' p) = pend (holds p) (ts[i := new @ rest])" by linarith
  qed
next
  fix m ts t
  assume "leases_ok m ts" and e: "entry_task t"
  moreover from e have "\<not> holds p t" for p by (cases t) auto
  ultimately show "leases_ok m (ts @ [[t]])" by (simp add: leases_ok_def)
next
  fix m ts now op m'
  assume "leases_ok m ts" "local_apply tz now op m = Some m'"
  moreover from this(2) have "r_inflight (rm_heap m' p) = r_inflight (rm_heap m p)" for p
    by (cases op) (auto simp: invalidate_run_def record_step_def mark_failed_def next_step_number_def set_store_def
        Let_def split: option.splits if_splits)
  ultimately show "leases_ok m' ts" by (simp add: leases_ok_def)
qed (simp add: leases_ok_def new_run_manager_def fresh_run_def)

subsection \<open>One FINISH per run\<close>

fun finishes :: "ptr \<Rightarrow> task \<Rightarrow> bool" where
  "finishes p (FinishSnap q) = (q = p)"
| "finishes p (FinishCall q st steps n) = (q = p)"
| "finishes p (ShutSnap q b) = (q = p)"
| "finishes p (ShutCall q b st steps n) = (q = p)"
| "finishes p _ = False"

fun is_finish :: "ptr \<Rightarrow> call \<Rightarrow> bool" where
  "is_finish p (LFinish q i st n done) = (q = p \<and> done)"
| "is_finish p _ = False"

definition finished :: "ptr \<Rightarrow> call list \<Rightarrow> int" where
  "finished p cs = int (length (filter (is_finish p) cs))"

lemma finished_simps [simp]:
  "finished p [] = 0" "finished p (c # cs) = (if is_finish p c then 1 else 0) + finished p cs"
  "finished p (cs @ cs') = finished p cs + finished p cs'" "finished p (map LDrop ps) = 0"
  by (simp_all add: finished_def filter_map comp_def)

lemma finished_prune [simp]: "finished p (rm_log (prune_draining now m)) = finished p (rm_log m)"
  by (simp add: prune_draining_def Let_def)

lemma finished_append [simp]: "finished p (rm_log (append_draining now q m)) = finished p (rm_log m)"
  by (simp add: append_draining_def)

lemma finished_fold_append [simp]:
  "finished p (rm_log (fold (\<lambda>(a, q) m. append_draining now q m) xs m)) = finished p (rm_log m)"
  by (induction xs arbitrary: m) auto

lemma finished_swap: "swap_current now a r m = (p, old, m') \<Longrightarrow> finished q (rm_log m') = finished q (rm_log m)"
  by (auto simp: swap_current_def alloc_run_def Let_def split: option.splits)

lemma drop_lease_log [simp]: "rm_log (drop_lease p m) = rm_log m"
  by (simp add: drop_lease_def Let_def)

lemma many_finishes_distinct:
  "distinct ps \<Longrightarrow> many (finishes p) (map (\<lambda>q. ShutSnap q b) ps) = (if p \<in> set ps then 1 else 0)"
  by (induction ps) auto

lemma exec_finishes:
  assumes "exec e t m = Some (new, m')" "manager_ok m"
  shows "many (finishes p) new - (if finishes p t then 1 else 0) + finished p (rm_log m') - finished p (rm_log m) \<le>
    (if r_finishing (rm_heap m' p) then 1 else 0) - (if r_finishing (rm_heap m p) then 1 else 0)"
proof (cases t)
  case (RotAdopt w b f pr)
  then show ?thesis using assms(1) manager_okD(4) [OF assms(2), of p]
    by (auto simp: rotate_adopt_def Let_def rotate_err_def rotated_def enqueue_old_def fresh_run_def
        swap_current_facts(10) finished_swap split: option.splits if_splits prod.splits)
next
  case (RotStart w b f)
  then show ?thesis using assms(1) manager_okD(4) [OF assms(2), of p]
    by (auto simp: rotate_start_def Let_def rotate_err_def rotated_def enqueue_old_def fresh_run_def
        swap_current_facts(10) finished_swap split: option.splits if_splits prod.splits sum.splits)
next
  case Maintain
  then show ?thesis using assms by (auto simp: maintain_def Let_def many_map_none split: if_splits)
next
  case FinishAll
  then show ?thesis using assms by (auto simp: finish_all_def Let_def many_map_none)
next
  case ShutClaim
  then show ?thesis using assms
    by (auto simp: shutdown_claim_def Let_def many_map_none many_finishes_distinct case_prod_beta split: if_splits)
qed (use assms in \<open>auto simp: exec_defs Let_def split: option.splits if_splits list.splits prod.splits\<close>)

definition finish_once :: "manager \<Rightarrow> task list list \<Rightarrow> bool" where
  "finish_once m ts \<longleftrightarrow>
     (\<forall>p. pend (finishes p) ts + finished p (rm_log m) \<le> (if r_finishing (rm_heap m p) then 1 else 0))"

lemma local_frame:
  "local_apply tz now op m = Some m' \<Longrightarrow> r_inflight (rm_heap m' p) = r_inflight (rm_heap m p) \<and>
     r_finishing (rm_heap m' p) = r_finishing (rm_heap m p) \<and> finished p (rm_log m') = finished p (rm_log m) \<and>
     rm_draining m' = rm_draining m \<and> rm_shutting m' = rm_shutting m \<and> rm_drain_cap m' = rm_drain_cap m \<and>
     (\<forall>a. map_of (rm_runs m') a = Some p \<longrightarrow> map_of (rm_runs m) a = Some p) \<and>
     r_agent (rm_heap m' p) = r_agent (rm_heap m p) \<and> rm_next m' = rm_next m \<and> rm_queue m' = rm_queue m"
  by (cases op) (auto simp: invalidate_run_def record_step_def mark_failed_def next_step_number_def set_store_def
      Let_def map_of_delete split: option.splits if_splits)

lemma finish_once_reach: "run_reach tz s \<Longrightarrow> finish_once (fst s) (snd s)"
proof (erule run_invariant)
  fix m ts i t rest e new m'
  assume I: "finish_once m ts" and ok: "manager_ok m" "i < length ts" "ts ! i = t # rest" "exec e t m = Some (new, m')"
  show "finish_once m' (ts[i := new @ rest])"
    unfolding finish_once_def
  proof
    fix p
    have "pend (finishes p) ts + finished p (rm_log m) \<le> (if r_finishing (rm_heap m p) then 1 else 0)"
      using I by (simp add: finish_once_def)
    with exec_finishes [OF ok(4,1), of p] pend_update [OF ok(2,3), of "finishes p" new]
    show "pend (finishes p) (ts[i := new @ rest]) + finished p (rm_log m') \<le>
        (if r_finishing (rm_heap m' p) then 1 else 0)" by linarith
  qed
next
  fix m ts t
  assume "finish_once m ts" and e: "entry_task t"
  moreover from e have "\<not> finishes p t" for p by (cases t) auto
  ultimately show "finish_once m (ts @ [[t]])" by (simp add: finish_once_def)
next
  fix m ts now op m'
  assume "finish_once m ts" "local_apply tz now op m = Some m'"
  then show "finish_once m' ts" using local_frame by (simp add: finish_once_def)
qed (simp add: finish_once_def new_run_manager_def)

subsection \<open>A run is not finished while it is leased or current\<close>

fun is_shut_claim :: "task \<Rightarrow> bool" where
  "is_shut_claim ShutClaim = True"
| "is_shut_claim _ = False"

lemma exec_shutting:
  assumes "exec e t m = Some (new, m')"
  shows "rm_shutting m' \<longleftrightarrow> rm_shutting m \<or> t = ShutBegin"
proof (cases t)
  case (RotAdopt w b f pr)
  then show ?thesis using assms
    by (auto simp: rotate_adopt_def swap_current_facts(7) split: if_splits prod.splits)
next
  case (RotStart w b f)
  then show ?thesis using assms
    by (auto simp: rotate_start_def Let_def swap_current_facts(7) split: if_splits prod.splits sum.splits)
next
  case (RotLead w b f)
  then show ?thesis using assms
    by (auto simp: rotate_lead_def Let_def split: option.splits if_splits prod.splits)
qed (use assms in \<open>auto simp: exec_defs maintain_def finish_all_def shutdown_claim_def case_prod_beta Let_def
      split: option.splits if_splits list.splits\<close>)

lemma exec_shut_claim:
  assumes "exec e t m = Some (new, m')" "u \<in> set new" "is_shut_claim u"
  shows "t = ShutBegin"
proof (cases t)
  case (RotAdopt w b f pr)
  then show ?thesis using assms
    by (auto simp: rotate_adopt_def rotate_err_def rotated_def enqueue_old_def split: if_splits prod.splits option.splits)
next
  case (RotStart w b f)
  then show ?thesis using assms
    by (auto simp: rotate_start_def Let_def rotate_err_def rotated_def enqueue_old_def
        split: if_splits prod.splits sum.splits option.splits)
qed (use assms in \<open>auto simp: exec_defs maintain_def finish_all_def shutdown_claim_def case_prod_beta Let_def
      split: option.splits if_splits list.splits\<close>)

definition claims_shut :: "manager \<Rightarrow> task list list \<Rightarrow> bool" where
  "claims_shut m ts \<longleftrightarrow> (0 < pend is_shut_claim ts \<longrightarrow> rm_shutting m)"

lemma many_pos: "0 < many P xs \<Longrightarrow> \<exists>x \<in> set xs. P x"
  by (auto simp: many_def filter_empty_conv)

lemma claims_shut_reach: "run_reach tz s \<Longrightarrow> claims_shut (fst s) (snd s)"
proof (erule run_invariant)
  fix m ts i t rest e new m'
  assume I: "claims_shut m ts" and ok: "i < length ts" "ts ! i = t # rest" "exec e t m = Some (new, m')"
  show "claims_shut m' (ts[i := new @ rest])"
    unfolding claims_shut_def
  proof
    assume "0 < pend is_shut_claim (ts[i := new @ rest])"
    then consider "0 < pend is_shut_claim ts" | "0 < many is_shut_claim new"
      using pend_update [OF ok(1,2), of is_shut_claim new] many_nonneg [of is_shut_claim] by (fastforce split: if_splits)
    then show "rm_shutting m'"
      by cases (use I exec_shutting [OF ok(3)] exec_shut_claim [OF ok(3)] many_pos [of is_shut_claim new] in
        \<open>auto simp: claims_shut_def\<close>)
  qed
next
  fix m ts t
  assume "claims_shut m ts" and e: "entry_task t"
  moreover from e have "\<not> is_shut_claim t" by (cases t) auto
  ultimately show "claims_shut m (ts @ [[t]])" by (simp add: claims_shut_def)
qed (auto simp: claims_shut_def dest: local_frame)

text \<open>Until Shutdown begins, a run that is being finished, or was, is neither leased nor current.\<close>

definition apart :: "manager \<Rightarrow> bool" where
  "apart m \<longleftrightarrow> (\<forall>p. r_finishing (rm_heap m p) \<longrightarrow> r_inflight (rm_heap m p) = 0 \<and> (\<forall>a. map_of (rm_runs m) a \<noteq> Some p))"

lemma apartD:
  assumes "apart m" "r_finishing (rm_heap m p)"
  shows "r_inflight (rm_heap m p) = 0" "map_of (rm_runs m) a \<noteq> Some p"
  using assms by (auto simp: apart_def)

lemma apart_frame:
  assumes "apart m"
    and "\<And>p. r_finishing (rm_heap m' p) \<Longrightarrow> r_finishing (rm_heap m p)"
    and "\<And>p. r_finishing (rm_heap m' p) \<Longrightarrow> r_inflight (rm_heap m' p) = r_inflight (rm_heap m p)"
    and "\<And>a p. map_of (rm_runs m') a = Some p \<Longrightarrow> map_of (rm_runs m) a = Some p"
  shows "apart m'"
  unfolding apart_def using assms(2,3,4) apartD [OF assms(1)] by metis

lemma apart_swap:
  assumes "swap_current now a r m = (p, old, m')" "apart m" "manager_ok m" "\<not> r_finishing r"
  shows "apart m'"
  unfolding apart_def
proof (intro allI impI conjI)
  note f = swap_current_facts [OF assms(1)]
  fix q assume "r_finishing (rm_heap m' q)"
  then have q: "q \<noteq> rm_next m" "r_finishing (rm_heap m q)" using f(10) [of q] assms(4) by (auto split: if_splits)
  show "r_inflight (rm_heap m' q) = 0" using f(9) [of q] q apartD(1) [OF assms(2) q(2)] by simp
  show "map_of (rm_runs m') b \<noteq> Some q" for b
    using f(4) q apartD(2) [OF assms(2) q(2), of b] by (simp add: map_of_update)
qed

lemma map_of_unset: "map_of (rm_runs (unset_current p m)) a =
    (if is_current p m \<and> a = r_agent (rm_heap m p) then None else map_of (rm_runs m) a)"
  by (simp add: unset_current_def map_of_delete)

lemma apart_unset: "apart m \<Longrightarrow> apart (unset_current p m)"
  by (rule apart_frame) (simp_all add: map_of_unset split: if_splits)

lemma apart_append: "apart m \<Longrightarrow> apart (append_draining now p m)"
  by (rule apart_frame) simp_all

lemma apart_set_run:
  "apart m \<Longrightarrow> r_inflight r = r_inflight (rm_heap m p) \<Longrightarrow> r_finishing r = r_finishing (rm_heap m p) \<Longrightarrow>
     apart (set_run p r m)"
  by (rule apart_frame) (simp_all split: if_splits)

lemma apart_irrelevant [simp]:
  "apart (m\<lparr>rm_store := v1\<rparr>) = apart m" "apart (m\<lparr>rm_flights := v2\<rparr>) = apart m"
  "apart (m\<lparr>rm_next_flight := v3\<rparr>) = apart m" "apart (m\<lparr>rm_starting := v4\<rparr>) = apart m"
  "apart (m\<lparr>rm_log := v5\<rparr>) = apart m" "apart (m\<lparr>rm_total := v6\<rparr>) = apart m"
  "apart (m\<lparr>rm_co := v7\<rparr>) = apart m" "apart (m\<lparr>rm_kept := v8\<rparr>) = apart m"
  "apart (m\<lparr>rm_shutting := v9\<rparr>) = apart m" "apart (m\<lparr>rm_stopped := v9\<rparr>) = apart m"
  "apart (m\<lparr>rm_queue := v10\<rparr>) = apart m" "apart (m\<lparr>rm_draining := v10\<rparr>) = apart m"
  "apart (remove_run a m) = apart m" "apart (persist_run pr m) = apart m"
  "apart (close_flight a f err m) = apart m" "apart (prune_draining now m) = apart m"
  "apart (remove_draining p m) = apart m"
  by (simp_all add: apart_def)

lemma apart_fold_append: "apart m \<Longrightarrow> apart (fold (\<lambda>(a, p) m. append_draining now p m) xs m)"
  by (induction xs arbitrary: m) (auto simp: apart_append)

lemma apart_fewer_runs:
  "apart m \<Longrightarrow> gomap (rm_runs m) \<Longrightarrow> apart (m\<lparr>rm_runs := filter (\<lambda>(a, p). P p) (rm_runs m)\<rparr>)"
  by (auto simp: apart_def map_of_filter_gomap split: option.splits if_splits)

lemma apart_drop_lease: "apart m \<Longrightarrow> apart (drop_lease p m)"
  by (rule apart_frame) (auto dest: apartD(1))

lemma apart_release: "apart m \<Longrightarrow> apart (snd (release p m))"
  by (simp add: release_def Let_def apart_drop_lease apart_unset)

lemma apart_release_abandoned: "apart m \<Longrightarrow> apart (snd (release_abandoned now p m))"
  by (simp add: release_abandoned_def Let_def apart_drop_lease apart_unset apart_append apart_set_run)

lemma exec_apart:
  assumes "exec e t m = Some (new, m')" "manager_ok m" "apart m" "\<And>p. 0 \<le> r_inflight (rm_heap m p)"
    and "t \<noteq> ShutClaim"
  shows "apart m'"
proof (cases t)
  case (RotAdopt w b f pr)
  have c: "apart (close_flight b f None (m\<lparr>rm_log := l\<rparr>))" "manager_ok (close_flight b f None (m\<lparr>rm_log := l\<rparr>))" for l
    using assms(2,3) by (simp_all add: apart_def)
  show ?thesis using RotAdopt assms(1,3)
    by (auto simp: rotate_adopt_def fresh_run_def split: if_splits prod.splits dest!: apart_swap [OF _ c])
next
  case (RotStart w b f)
  have c: "apart (close_flight b f None (m\<lparr>rm_log := l\<rparr>))" "manager_ok (close_flight b f None (m\<lparr>rm_log := l\<rparr>))" for l
    using assms(2,3) by (simp_all add: apart_def)
  have d: "apart (close_flight b f err (m\<lparr>rm_log := l\<rparr>))" for l err
    using assms(3) by (simp add: apart_def)
  show ?thesis using RotStart assms(1,3) d
    by (auto simp: rotate_start_def Let_def fresh_run_def split: if_splits prod.splits sum.splits
        dest!: apart_swap [OF _ c])
next
  case (Lease a)
  show ?thesis
  proof (cases "map_of (rm_runs m) a")
    case None
    then show ?thesis using assms Lease by (auto simp: lease_def split: option.splits)
  next
    case (Some p)
    then have "\<not> r_finishing (rm_heap m p)" using apartD(2) [OF assms(3)] by blast
    then show ?thesis using assms(1) Lease Some
      by (auto simp: lease_def Let_def intro!: apart_frame [OF assms(3)] split: if_splits)
  qed
next
  case (Held p)
  then show ?thesis
    using assms(1) apart_release [OF assms(3), of p] apart_release_abandoned [OF assms(3), of "ev_now e" p]
    by (simp split: if_splits)
next
  case (Finish p)
  show ?thesis
  proof (cases "r_inflight (rm_heap m p) \<le> 0 \<and> \<not> r_finishing (rm_heap m p) \<and> \<not> is_current p m")
    case True
    then have z: "r_inflight (rm_heap m p) = 0" using assms(4) [of p] by simp
    have nc: "map_of (rm_runs m) a \<noteq> Some p" for a
      using True manager_ok_current [OF assms(2), of a p] by (auto simp: is_current_def)
    have "m' = set_run p ((rm_heap m p)\<lparr>r_queued := False, r_finishing := True\<rparr>)
        (set_run p ((rm_heap m p)\<lparr>r_queued := False\<rparr>) m)"
      using assms(1) Finish True by (auto simp: finish_claim_def Let_def is_current_def split: if_splits)
    then show ?thesis using z nc apartD [OF assms(3)] by (auto simp: apart_def)
  next
    case False
    then have "m' = set_run p ((rm_heap m p)\<lparr>r_queued := False\<rparr>) m"
      using assms(1) Finish by (auto simp: finish_claim_def Let_def is_current_def split: if_splits)
    then show ?thesis by (auto intro!: apart_frame [OF assms(3)] split: if_splits)
  qed
next
  case (FinishCall p st steps n)
  have r: "apart (set_run p (r\<lparr>r_finishing := False\<rparr>) (m\<lparr>rm_log := l\<rparr>))"
    if "r_inflight r = r_inflight (rm_heap m p)" for r l
    using assms(3) that by (simp add: apart_def)
  show ?thesis using assms(1,3) FinishCall
    by (auto simp: finish_call_def Let_def intro!: apart_append r split: option.splits)
next
  case (Enqueue p)
  have r: "apart (set_run p ((rm_heap m p)\<lparr>r_queued := True\<rparr>) m)" using assms(3) by (simp add: apart_set_run)
  then show ?thesis using assms(1,3) Enqueue
    by (auto simp: enqueue_finish_def Let_def split: if_splits)
next
  case FinishAll
  have m': "m' = prune_draining (ev_now e) (fold (\<lambda>(a, p) m. append_draining (ev_now e) p m)
      (filter (\<lambda>(a, p). \<not> r_inflight (rm_heap m p) \<le> 0) (rm_runs m))
      (m\<lparr>rm_runs := filter (\<lambda>(a, p). \<not> r_inflight (rm_heap m p) \<le> 0) (rm_runs m),
         rm_draining := filter (\<lambda>p. \<not> r_inflight (rm_heap m p) \<le> 0) (rm_draining m)\<rparr>))"
    using assms(1) FinishAll by (simp add: finish_all_def Let_def)
  have "apart (m\<lparr>rm_runs := filter (\<lambda>(a, p). \<not> r_inflight (rm_heap m p) \<le> 0) (rm_runs m)\<rparr>)"
    by (rule apart_fewer_runs [OF assms(3) manager_okD(5) [OF assms(2)]])
  then show ?thesis unfolding m' by (simp add: apart_fold_append)
next
  case ShutClaim
  then show ?thesis using assms(5) by simp
next
  case Worker
  then show ?thesis using assms(1,3) by (auto simp: worker_def split: list.splits if_splits)
next
  case Maintain
  then show ?thesis using assms(1,3) by (auto simp: maintain_def Let_def split: if_splits)
next
  case (Rotate w a)
  then show ?thesis using assms(1,3) by (auto simp: rotate_enter_def Let_def split: if_splits option.splits)
next
  case (RotLead w a f)
  then show ?thesis using assms(1,3) by (auto simp: rotate_lead_def Let_def split: if_splits option.splits prod.splits)
next
  case (RotWait w a f)
  then show ?thesis using assms(1,3) by (auto simp: rotate_wait_def split: if_splits option.splits)
qed (use assms(1,3) in \<open>auto simp: acquire_new_def acquire_check_def precreate_def prewarm_one_def finish_inline_def
      shutdown_begin_def shut_call_def Let_def split: option.splits if_splits prod.splits\<close>)

definition apart_until_shutdown :: "manager \<Rightarrow> task list list \<Rightarrow> bool" where
  "apart_until_shutdown m ts \<longleftrightarrow> (\<not> rm_shutting m \<longrightarrow> apart m) \<and> leases_ok m ts \<and> claims_shut m ts"

lemma apart_reach: "run_reach tz s \<Longrightarrow> apart_until_shutdown (fst s) (snd s)"
proof -
  have "run_reach tz s \<Longrightarrow> (\<not> rm_shutting (fst s) \<longrightarrow> apart (fst s)) \<and> claims_shut (fst s) (snd s) \<and> leases_ok (fst s) (snd s)"
  proof (induction rule: run_reach.induct)
    case (init key opts)
    show ?case
      using claims_shut_reach [OF run_reach.init [of tz key opts]] leases_reach [OF run_reach.init [of tz key opts]]
      by (simp add: apart_def new_run_manager_def fresh_run_def)
  next
    case (step s s')
    note r = run_reach.step [OF step(1,2)]
    have "apart (fst s')" if n: "\<not> rm_shutting (fst s')"
      using step(2)
    proof (cases rule: run_step_rel.cases)
      case (thread i ts t rest e m new m')
      have sh: "\<not> rm_shutting m" using exec_shutting [OF thread(5)] n thread(2) by simp
      have "t \<noteq> ShutClaim"
      proof
        assume "t = ShutClaim"
        then have "1 \<le> pend is_shut_claim ts" using thread(3,4) by (intro pend_pos [of i _ t]) auto
        then show False using step(3) sh thread(1) by (simp add: claims_shut_def)
      qed
      then show ?thesis
        using exec_apart [OF thread(5)] pointers_ok_reach [OF step(1)] step(3) sh thread(1,2)
        by (auto simp: pointers_ok_def leases_ok_def)
    next
      case (spawn t m ts)
      then show ?thesis using step(3) n by simp
    next
      case (local now op m m' ts)
      then show ?thesis using step(3) n local_frame [OF local(3)]
        by (auto intro!: apart_frame [of m])
    qed
    then show ?case using claims_shut_reach [OF r] leases_reach [OF r] by simp
  qed
  then show "run_reach tz s \<Longrightarrow> apart_until_shutdown (fst s) (snd s)"
    by (simp add: apart_until_shutdown_def)
qed

subsection \<open>The draining list\<close>

definition drain_ok :: "manager \<Rightarrow> bool" where
  "drain_ok m \<longleftrightarrow> distinct (rm_draining m) \<and> int (length (rm_draining m)) \<le> rm_drain_cap m \<and> 1 \<le> rm_drain_cap m"

lemma drain_ok_prune:
  "distinct (rm_draining m) \<Longrightarrow> 1 \<le> rm_drain_cap m \<Longrightarrow> drain_ok (prune_draining now m)"
  by (auto simp: drain_ok_def prune_draining_def Let_def)

lemma drain_ok_append: "drain_ok m \<Longrightarrow> drain_ok (append_draining now p m)"
  by (auto simp: append_draining_def intro!: drain_ok_prune) (auto simp: drain_ok_def)

lemma drain_ok_fold_append: "drain_ok m \<Longrightarrow> drain_ok (fold (\<lambda>(a, p) m. append_draining now p m) xs m)"
  by (induction xs arbitrary: m) (auto simp: drain_ok_append)

lemma drain_ok_filter: "drain_ok m \<Longrightarrow> rm_draining m' = filter P (rm_draining m) \<Longrightarrow>
    rm_drain_cap m' = rm_drain_cap m \<Longrightarrow> drain_ok m'"
  unfolding drain_ok_def by (auto intro: order_trans [OF of_nat_mono [OF length_filter_le]])

lemma drain_ok_cong: "drain_ok m \<Longrightarrow> rm_draining m' = rm_draining m \<Longrightarrow> rm_drain_cap m' = rm_drain_cap m \<Longrightarrow> drain_ok m'"
  by (simp add: drain_ok_def)

lemma drain_ok_swap:
  assumes "swap_current now a r m = (p, old, m')" "drain_ok m"
  shows "drain_ok m'"
proof -
  let ?m2 = "m\<lparr>rm_heap := (rm_heap m)(rm_next m := r), rm_next := rm_next m + 1,
    rm_runs := AList.update a (rm_next m) (rm_runs m)\<rparr>"
  have "drain_ok ?m2" using assms(2) by (simp add: drain_ok_def)
  then show ?thesis using assms(1) drain_ok_append [of ?m2]
    by (auto simp: swap_current_def alloc_run_def Let_def split: option.splits)
qed

lemma exec_drain:
  assumes "exec e t m = Some (new, m')" "drain_ok m"
  shows "drain_ok m'"
proof (cases t)
  case (RotAdopt w b f pr)
  have c: "drain_ok (close_flight b f None (m\<lparr>rm_log := l\<rparr>))" for l using assms(2) by (simp add: drain_ok_def)
  show ?thesis using RotAdopt assms
    by (auto simp: rotate_adopt_def split: if_splits prod.splits dest!: drain_ok_swap [OF _ c])
next
  case (RotStart w b f)
  have c: "drain_ok (close_flight b f err (m\<lparr>rm_log := l\<rparr>))" for l err
    using assms(2) by (simp add: drain_ok_def)
  show ?thesis using RotStart assms c
    by (auto simp: rotate_start_def Let_def split: if_splits prod.splits sum.splits dest!: drain_ok_swap [OF _ c])
next
  case (Held p)
  have d: "drain_ok (drop_lease p m)" using assms(2) by (simp add: drain_ok_def)
  have u: "drain_ok (unset_current p m1)" if "drain_ok m1" for m1 using that by (simp add: drain_ok_def)
  have r: "drain_ok (set_run p r m1)" if "drain_ok m1" for m1 r using that by (simp add: drain_ok_def)
  show ?thesis using assms(1) Held
    by (auto simp: release_def release_abandoned_def Let_def intro!: d u r drain_ok_append split: if_splits)
next
  case (FinishCall p st steps n)
  have r: "drain_ok (set_run p r (m\<lparr>rm_log := l\<rparr>))" for r l using assms(2) by (simp add: drain_ok_def)
  show ?thesis using assms FinishCall
    by (auto simp: finish_call_def Let_def intro!: r drain_ok_append split: option.splits)
      (auto intro!: drain_ok_filter [OF assms(2)])
next
  case FinishAll
  have "drain_ok (m\<lparr>rm_runs := rs, rm_draining := filter P (rm_draining m)\<rparr>)" for rs P
    by (rule drain_ok_filter [OF assms(2)]) simp_all
  note f = drain_ok_fold_append [OF this]
  have "drain_ok (prune_draining now m1)" if "drain_ok m1" for m1 now
    using that by (intro drain_ok_prune) (simp_all add: drain_ok_def)
  note g = this [OF f]
  show ?thesis using assms(1) FinishAll g by (auto simp only: exec.simps finish_all_def Let_def option.inject prod.inject)
next
  case ShutClaim
  then show ?thesis using assms
    by (auto simp: shutdown_claim_def Let_def case_prod_beta drain_ok_def split: if_splits)
next
  case Maintain
  then show ?thesis using assms drain_ok_prune [of m "ev_now e"]
    by (auto simp: maintain_def Let_def drain_ok_def split: if_splits)
qed (use assms in \<open>auto simp: exec_defs Let_def intro!: drain_ok_cong [OF assms(2)]
      split: option.splits if_splits list.splits prod.splits\<close>)

lemma drain_reach: "run_reach tz s \<Longrightarrow> drain_ok (fst s)"
proof (erule run_invariant)
  show "drain_ok (new_run_manager key opts)" for key opts
    by (simp add: drain_ok_def new_run_manager_def default_drain_queue_cap_def)
  show "drain_ok m'" if "drain_ok m" "local_apply tz now op m = Some m'" for m ts now op m'
    using drain_ok_cong [OF that(1)] local_frame [OF that(2)] by simp
qed (auto intro: exec_drain)

subsection \<open>No run is lost\<close>

definition dropped :: "ptr \<Rightarrow> call list \<Rightarrow> bool" where
  "dropped p cs \<longleftrightarrow> LDrop p \<in> set cs \<or> LForget p \<in> set cs"

definition kept :: "manager \<Rightarrow> ptr \<Rightarrow> bool" where
  "kept m p \<longleftrightarrow> (\<exists>a. map_of (rm_runs m) a = Some p) \<or> p \<in> set (rm_draining m) \<or> r_finishing (rm_heap m p) \<or>
     dropped p (rm_log m)"

fun will_finish :: "ptr \<Rightarrow> task \<Rightarrow> bool" where
  "will_finish p (Finish q) = (q = p)"
| "will_finish p _ = False"

definition tracked :: "manager \<Rightarrow> task list list \<Rightarrow> bool" where
  "tracked m ts \<longleftrightarrow> (\<forall>p < rm_next m. kept m p \<or> (0 < pend (will_finish p) ts \<and> r_inflight (rm_heap m p) = 0))"

lemma dropped_simps [simp]:
  "dropped p (c # cs) \<longleftrightarrow> c = LDrop p \<or> c = LForget p \<or> dropped p cs"
  "dropped p (cs @ cs') \<longleftrightarrow> dropped p cs \<or> dropped p cs'" "dropped p (map LDrop ps) \<longleftrightarrow> p \<in> set ps"
  by (auto simp: dropped_def)

lemma in_take_or_drop: "p \<in> set xs \<Longrightarrow> p \<in> set (take n xs) \<or> p \<in> set (drop n xs)"
  by (metis Un_iff append_take_drop_id set_append)

lemma prune_partition:
  assumes "p \<in> set (rm_draining m)"
  shows "p \<in> set (rm_draining (prune_draining now m)) \<or> LDrop p \<in> set (rm_log (prune_draining now m))"
proof (cases "drain_expired now m p")
  case True
  then show ?thesis using assms by (auto simp: prune_draining_def Let_def)
next
  case False
  then have "p \<in> set (filter (\<lambda>p. \<not> drain_expired now m p) (rm_draining m))" using assms by simp
  from in_take_or_drop [OF this, of "nat (rm_drain_cap m)"] this
  show ?thesis by (simp add: prune_draining_def Let_def image_Un) (metis imageI)
qed

lemma prune_log: "\<exists>ps. rm_log (prune_draining now m) = map LDrop ps @ rm_log m"
  unfolding prune_draining_def Let_def by (auto simp del: map_append)

lemma kept_prune: "kept m p \<Longrightarrow> kept (prune_draining now m) p"
  using prune_partition [of p m now] prune_log [of now m] by (auto simp: kept_def) (auto simp: dropped_def)

lemma kept_prune_in: "p \<in> set (rm_draining m) \<Longrightarrow> kept (prune_draining now m) p"
  by (rule kept_prune) (simp add: kept_def)

lemma kept_append: "kept m p \<or> p = q \<Longrightarrow> kept (append_draining now q m) p"
proof -
  assume k: "kept m p \<or> p = q"
  let ?m = "(set_run q ((run_at m q)\<lparr>r_drained_at := now\<rparr>) m)\<lparr>rm_draining := rm_draining m @ [q]\<rparr>"
  have "kept ?m p" using k by (auto simp: kept_def)
  then show ?thesis using k by (auto simp: append_draining_def kept_prune) (simp add: kept_def)
qed

lemma kept_fold_append: "kept m p \<Longrightarrow> kept (fold (\<lambda>(a, q) m. append_draining now q m) xs m) p"
  by (induction xs arbitrary: m) (auto simp: kept_append)

lemma kept_irrelevant [simp]:
  "kept (m\<lparr>rm_store := v1\<rparr>) p = kept m p" "kept (m\<lparr>rm_flights := v2\<rparr>) p = kept m p"
  "kept (m\<lparr>rm_next_flight := v3\<rparr>) p = kept m p" "kept (m\<lparr>rm_starting := v4\<rparr>) p = kept m p"
  "kept (m\<lparr>rm_total := v6\<rparr>) p = kept m p" "kept (m\<lparr>rm_co := v7\<rparr>) p = kept m p" "kept (m\<lparr>rm_kept := v8\<rparr>) p = kept m p"
  "kept (m\<lparr>rm_shutting := v9\<rparr>) p = kept m p" "kept (m\<lparr>rm_stopped := v9\<rparr>) p = kept m p"
  "kept (m\<lparr>rm_queue := v10\<rparr>) p = kept m p"
  "kept (remove_run a m) p = kept m p" "kept (persist_run pr m) p = kept m p"
  "kept (close_flight a f err m) p = kept m p"
  by (simp_all add: kept_def)

lemma kept_log: "kept m p \<Longrightarrow> kept (m\<lparr>rm_log := c # rm_log m\<rparr>) p"
  by (auto simp: kept_def)

lemma kept_set_run:
  "kept m p \<Longrightarrow> r_finishing r = r_finishing (rm_heap m q) \<or> r_finishing r \<Longrightarrow> kept (set_run q r m) p"
  by (auto simp: kept_def)

lemma kept_unset: "kept m p \<Longrightarrow> p \<noteq> q \<or> q \<in> set (rm_draining m) \<Longrightarrow> kept (unset_current q m) p"
proof (cases "p = q")
  case False
  assume "kept m p"
  moreover have "map_of (rm_runs (unset_current q m)) a = Some p" if "map_of (rm_runs m) a = Some p" for a
    using that False by (auto simp: map_of_unset is_current_def)
  ultimately show ?thesis by (auto simp: kept_def)
qed (auto simp: kept_def)

lemma kept_drop_lease: "kept m p \<Longrightarrow> kept (drop_lease q m) p"
  by (simp add: kept_def)

lemma kept_swap:
  assumes "swap_current now a r m = (q, old, m')" "kept m p" "p < rm_next m"
  shows "kept m' p"
proof -
  let ?m = "m\<lparr>rm_heap := (rm_heap m)(rm_next m := r), rm_next := rm_next m + 1,
    rm_runs := AList.update a (rm_next m) (rm_runs m)\<rparr>"
  show ?thesis
  proof (cases "map_of (rm_runs m) a = Some p")
    case True
    then show ?thesis using assms(1) kept_append [of ?m p p now]
      by (auto simp: swap_current_def alloc_run_def Let_def)
  next
    case False
    have "kept ?m p" using assms(2,3) False by (auto simp: kept_def map_of_update)
    then show ?thesis using assms(1) kept_append [of ?m p _ now]
      by (auto simp: swap_current_def alloc_run_def Let_def split: option.splits)
  qed
qed

lemma kept_swap_new:
  "swap_current now a r m = (q, old, m') \<Longrightarrow> kept m' (rm_next m)"
  using swap_current_facts(4) [of now a r m q old m'] by (auto simp: kept_def map_of_update)

lemma kept_release: "kept m p \<Longrightarrow> kept (snd (release q m)) p"
  by (simp add: release_def Let_def kept_drop_lease kept_unset run_draining_def)

lemma kept_release_abandoned: "kept m p \<Longrightarrow> kept (snd (release_abandoned now q m)) p"
proof (cases "p = q")
  case True
  assume "kept m p"
  then show ?thesis using True by (simp add: release_abandoned_def Let_def kept_drop_lease kept_append kept_set_run)
next
  case False
  assume "kept m p"
  then show ?thesis using False
    by (simp add: release_abandoned_def Let_def kept_drop_lease kept_append kept_unset kept_set_run)
qed

lemma many_in: "x \<in> set xs \<Longrightarrow> P (f x) \<Longrightarrow> 0 < many P (map f xs)"
  by (auto simp: many_def filter_map filter_empty_conv)

lemma finish_all_kept:
  assumes "finish_all now m = (new, m')" "kept m p" "manager_ok m" "\<And>q. 0 \<le> r_inflight (rm_heap m q)"
  shows "kept m' p \<or> (0 < many (will_finish p) new \<and> r_inflight (rm_heap m' p) = 0)"
proof -
  let ?idle = "\<lambda>p. r_inflight (rm_heap m p) \<le> 0"
  let ?m1 = "m\<lparr>rm_runs := filter (\<lambda>(a, p). \<not> ?idle p) (rm_runs m), rm_draining := filter (\<lambda>p. \<not> ?idle p) (rm_draining m)\<rparr>"
  have new: "new = map Finish (map snd (filter (\<lambda>(a, p). ?idle p) (rm_runs m)) @ filter ?idle (rm_draining m))"
    and m': "m' = prune_draining now (fold (\<lambda>(a, p) m. append_draining now p m) (rm_runs ?m1) ?m1)"
    using assms(1) unfolding finish_all_def Let_def by simp_all
  show ?thesis
  proof (cases "kept ?m1 p")
    case True
    then show ?thesis unfolding m' by (simp add: kept_prune kept_fold_append)
  next
    case False
    have g: "gomap (rm_runs m)" by (rule manager_okD(5) [OF assms(3)])
    have todo: "p \<in> set (map snd (filter (\<lambda>(a, p). ?idle p) (rm_runs m)) @ filter ?idle (rm_draining m))"
    proof (cases "\<exists>a. map_of (rm_runs m) a = Some p")
      case True
      then obtain a where a: "map_of (rm_runs m) a = Some p" ..
      have "map_of (rm_runs ?m1) a \<noteq> Some p" using False by (auto simp: kept_def)
      then have "?idle p" using a g by (cases "?idle p") (simp_all add: map_of_filter_gomap)
      then show ?thesis using map_of_SomeD [OF a] by force
    next
      case nc: False
      then show ?thesis using False assms(2) by (auto simp: kept_def)
    qed
    have "0 < many (will_finish p) new" unfolding new by (rule many_in [OF todo]) simp
    moreover have "?idle p" using todo by auto
    moreover have "r_inflight (rm_heap m' p) = r_inflight (rm_heap m p)" by (simp add: m')
    ultimately show ?thesis using assms(4) [of p] by simp
  qed
qed

lemma exec_kept:
  assumes "exec e t m = Some (new, m')" "manager_ok m" "p < rm_next m" "kept m p"
    and "finishes p t \<Longrightarrow> r_finishing (rm_heap m p)" "\<And>q. 0 \<le> r_inflight (rm_heap m q)"
  shows "kept m' p \<or> (0 < many (will_finish p) new \<and> r_inflight (rm_heap m' p) = 0)"
proof (cases t)
  case (RotAdopt w b f pr)
  then show ?thesis using assms(1,3,4) kept_log [OF assms(4)]
    by (auto simp: rotate_adopt_def split: if_splits prod.splits dest!: kept_swap [where p = p])
next
  case (RotStart w b f)
  then show ?thesis using assms(1,3) kept_log [OF assms(4)]
    by (auto simp: rotate_start_def Let_def split: if_splits prod.splits sum.splits dest!: kept_swap [where p = p])
next
  case (Held q)
  then show ?thesis using assms(1) kept_release [OF assms(4), of q] kept_release_abandoned [OF assms(4), of "ev_now e" q]
    by (simp split: if_splits)
next
  case (Lease a)
  then show ?thesis using assms(1,4)
    by (auto simp: lease_def Let_def kept_set_run split: option.splits)
next
  case (Enqueue q)
  then show ?thesis using assms(1,4) by (auto simp: enqueue_finish_def Let_def kept_set_run split: if_splits)
next
  case (Finish q)
  then show ?thesis using assms(1,4) by (auto simp: finish_claim_def Let_def kept_set_run split: if_splits)
next
  case (FinishCall q st steps n)
  show ?thesis
  proof (cases "ev_finish e")
    case None
    then have "kept m' p"
      using assms(1,4,5) FinishCall by (auto simp: finish_call_def Let_def kept_def)
    then show ?thesis ..
  next
    case (Some err)
    have "kept (set_run q ((rm_heap m q)\<lparr>r_finishing := False\<rparr>) (m\<lparr>rm_log := l # rm_log m\<rparr>)) p" if "p \<noteq> q" for l
      using assms(4) that by (auto simp: kept_def)
    then have "kept m' p"
      using assms(1) FinishCall Some by (cases "p = q") (auto simp: finish_call_def Let_def kept_append)
    then show ?thesis ..
  qed
next
  case FinishAll
  then show ?thesis using finish_all_kept assms by simp
next
  case ShutClaim
  have "kept (snd (claim_finishing ps m)) p" for ps
    using assms(4) by (auto simp: kept_def)
  moreover have "kept ((snd (claim_finishing (map snd (rm_runs m) @ rm_draining m) m))\<lparr>rm_runs := [], rm_draining := []\<rparr>) p"
    using assms(4) by (auto simp: kept_def dest!: map_of_SomeD) force
  ultimately show ?thesis using assms(1) ShutClaim
    by (auto simp: shutdown_claim_def Let_def case_prod_beta split: if_splits)
next
  case (ShutCall q b st steps n)
  then show ?thesis using assms(1) kept_log [OF assms(4)] by (auto simp: shut_call_def Let_def)
next
  case (FinishInline rid a)
  then show ?thesis using assms(1) kept_log [OF assms(4)] by (auto simp: finish_inline_def)
next
  case Maintain
  then show ?thesis using assms(1,4) by (auto simp: maintain_def Let_def kept_prune split: if_splits)
next
  case Worker
  then show ?thesis using assms(1,4) by (auto simp: worker_def split: list.splits if_splits)
next
  case (Rotate w a)
  then show ?thesis using assms(1,4) by (auto simp: rotate_enter_def Let_def split: if_splits option.splits)
next
  case (RotLead w a f)
  then show ?thesis using assms(1,4) by (auto simp: rotate_lead_def Let_def split: if_splits option.splits prod.splits)
next
  case (RotWait w a f)
  then show ?thesis using assms(1,4) by (auto simp: rotate_wait_def split: if_splits option.splits)
qed (use assms(1,4) in \<open>auto simp: acquire_new_def acquire_check_def precreate_def prewarm_one_def
      shutdown_begin_def Let_def split: option.splits if_splits prod.splits\<close>)

lemma exec_new_hold:
  assumes "exec e t m = Some (new, m')" "0 < many (holds p) new"
  shows "\<exists>a. map_of (rm_runs m) a = Some p"
proof (cases t)
  case (RotAdopt w b f pr)
  then show ?thesis using assms
    by (auto simp: rotate_adopt_def rotate_err_def rotated_def enqueue_old_def split: if_splits prod.splits option.splits)
next
  case (RotStart w b f)
  then show ?thesis using assms
    by (auto simp: rotate_start_def Let_def rotate_err_def rotated_def enqueue_old_def
        split: if_splits prod.splits sum.splits option.splits)
next
  case Maintain
  then show ?thesis using assms by (auto simp: maintain_def Let_def many_map_none split: if_splits)
next
  case FinishAll
  then show ?thesis using assms by (auto simp: finish_all_def Let_def many_map_none)
next
  case ShutClaim
  then show ?thesis using assms
    by (auto simp: shutdown_claim_def Let_def many_map_none case_prod_beta split: if_splits)
qed (use assms in \<open>auto simp: exec_defs Let_def split: option.splits if_splits list.splits prod.splits\<close>)

lemma exec_alloc:
  assumes "exec e t m = Some (new, m')" "rm_next m \<le> p" "p < rm_next m'"
  shows "kept m' p"
proof (cases t)
  case (RotAdopt w b f pr)
  then show ?thesis using assms
    by (auto simp: rotate_adopt_def swap_current_facts(3) split: if_splits prod.splits
        dest!: kept_swap_new dest: le_less_Suc_eq)
next
  case (RotStart w b f)
  then show ?thesis using assms
    by (auto simp: rotate_start_def Let_def swap_current_facts(3) split: if_splits prod.splits sum.splits
        dest!: kept_swap_new dest: le_less_Suc_eq)
next
  case (RotLead w b f)
  then show ?thesis using assms by (auto simp: rotate_lead_def Let_def split: if_splits option.splits prod.splits)
qed (use assms in \<open>auto simp: exec_defs maintain_def finish_all_def shutdown_claim_def case_prod_beta Let_def
      split: option.splits if_splits list.splits\<close>)

lemma exec_unkept:
  assumes "exec e t m = Some (new, m')" "manager_ok m" "\<not> kept m p" "r_inflight (rm_heap m p) = 0"
    and "\<not> holds p t"
  shows "r_inflight (rm_heap m' p) = 0" and "will_finish p t \<Longrightarrow> kept m' p"
proof -
  have "\<not> 0 < many (holds p) new" using exec_new_hold [OF assms(1), of p] assms(3) by (auto simp: kept_def)
  then have z: "many (holds p) new = 0" using many_nonneg(1) [of "holds p" new] by linarith
  show "r_inflight (rm_heap m' p) = 0"
    using exec_holds [OF assms(1,2), of p] assms(4,5) z by simp
  assume "will_finish p t"
  then have "t = Finish p" by (cases t) auto
  then show "kept m' p" using assms(1,3,4)
    by (auto simp: finish_claim_def Let_def kept_def is_current_def split: if_splits)
qed

lemma tracked_thread:
  assumes "tracked m ts" "leases_ok m ts" "finish_once m ts" "manager_ok m" "i < length ts" "ts ! i = t # rest"
    "exec e t m = Some (new, m')"
  shows "tracked m' (ts[i := new @ rest])"
  unfolding tracked_def
proof (intro allI impI)
  fix p assume p: "p < rm_next m'"
  note up = pend_update [OF assms(5,6), of _ new]
  have nn: "0 \<le> r_inflight (rm_heap m q)" for q using assms(2) by (simp add: leases_ok_def)
  show "kept m' p \<or> (0 < pend (will_finish p) (ts[i := new @ rest]) \<and> r_inflight (rm_heap m' p) = 0)"
  proof (cases "p < rm_next m")
    case False
    then show ?thesis using exec_alloc [OF assms(7), of p] p by simp
  next
    case True
    show ?thesis
    proof (cases "kept m p")
      case k: True
      have f: "r_finishing (rm_heap m p)" if "finishes p t"
      proof -
        have "1 \<le> pend (finishes p) ts" by (rule pend_pos [OF assms(5), of t]) (use assms(6) that in simp_all)
        moreover have "pend (finishes p) ts + finished p (rm_log m) \<le> (if r_finishing (rm_heap m p) then 1 else 0)"
          using assms(3) by (simp add: finish_once_def)
        moreover have "0 \<le> finished p (rm_log m)" by (simp add: finished_def)
        ultimately show ?thesis by (auto split: if_splits)
      qed
      have "0 \<le> pend (will_finish p) ts - (if will_finish p t then 1 else 0)"
        using pend_pos [OF assms(5), of t "will_finish p"] assms(6) by auto
      then show ?thesis using exec_kept [OF assms(7,4) True k f nn] up [of "will_finish p"] by fastforce
    next
      case u: False
      then have w: "0 < pend (will_finish p) ts" "r_inflight (rm_heap m p) = 0"
        using assms(1) True by (auto simp: tracked_def)
      have "\<not> holds p t"
      proof
        assume "holds p t"
        then have "1 \<le> pend (holds p) ts" by (intro pend_pos [OF assms(5), of t]) (simp_all add: assms(6))
        then show False using assms(2) w(2) by (simp add: leases_ok_def)
      qed
      note x = exec_unkept [OF assms(7,4) u w(2) this]
      show ?thesis
      proof (cases "will_finish p t")
        case True
        then show ?thesis using x(2) by simp
      next
        case False
        then have "pend (will_finish p) (ts[i := new @ rest]) = pend (will_finish p) ts + many (will_finish p) new"
          using up [of "will_finish p"] by simp
        then have "0 < pend (will_finish p) (ts[i := new @ rest])"
          using w(1) many_nonneg(1) [of "will_finish p" new] by linarith
        then show ?thesis using x(1) by simp
      qed
    qed
  qed
qed

lemma kept_invalidate: "kept m p \<Longrightarrow> kept (invalidate_run a m) p"
proof (cases "map_of (rm_runs m) a = Some p")
  case True
  then show ?thesis by (auto simp: kept_def invalidate_run_def)
next
  case False
  assume "kept m p"
  moreover have "map_of (AList.delete a (rm_runs m)) b = Some p" if "map_of (rm_runs m) b = Some p" for b
    using that False by (auto simp: map_of_delete)
  ultimately show ?thesis by (auto simp: kept_def invalidate_run_def)
qed

lemma tracked_reach: "run_reach tz s \<Longrightarrow> tracked (fst s) (snd s)"
proof (induction rule: run_reach.induct)
  case (init key opts)
  show ?case by (simp add: tracked_def new_run_manager_def)
next
  case (step s s')
  show ?case using step(2)
  proof (cases rule: run_step_rel.cases)
    case (thread i ts t rest e m new m')
    then show ?thesis
      using tracked_thread [OF _ _ _ _ thread(3-5)] step(3) leases_reach [OF step(1)]
        finish_once_reach [OF step(1)] pointers_ok_reach [OF step(1)]
      by (simp add: pointers_ok_def)
  next
    case (spawn t m ts)
    then show ?thesis using step(3) by (auto simp: tracked_def intro: add_pos_nonneg)
  next
    case (local now op m m' ts)
    have "kept m' p" if "kept m p" for p
      using local(3) that kept_invalidate
      by (cases op) (auto simp: record_step_def mark_failed_def next_step_number_def
          set_store_def Let_def kept_set_run split: option.splits if_splits)
    then show ?thesis using step(3) local_frame [OF local(3)] unfolding local(1,2) tracked_def by auto
  qed
qed

end
