(* ===== verification/RunIds.thy ===== *)
theory RunIds
  imports RunLifecycle
begin

text \<open>
  Runs as the upstream sees them.  A run id enters a manager each time a START returns it and
  each time it is adopted from the store (\<open>rotate\<close> of \<open>runs.go\<close>), and a manager can hold two
  \<open>Run\<close> objects with one id.  Here: how often an id entered, how many FINISH calls it got, and
  the balance of the two in every reachable state.
\<close>

subsection \<open>Entries and FINISH calls of an upstream run id\<close>

fun enters :: "string \<Rightarrow> call \<Rightarrow> bool" where
  "enters i (LStart a r) = (r = Inl i)"
| "enters i (LAdopt j) = (j = i)"
| "enters i _ = False"

fun was_inline :: "string \<Rightarrow> call \<Rightarrow> bool" where
  "was_inline i (LInline j ok) = (j = i)"
| "was_inline i _ = False"

fun finish_of :: "string \<Rightarrow> call \<Rightarrow> bool" where
  "finish_of i (LFinish p j st n ok) = (j = i \<and> ok)"
| "finish_of i (LInline j ok) = (j = i \<and> ok)"
| "finish_of i _ = False"

definition entered :: "string \<Rightarrow> call list \<Rightarrow> int" where
  "entered i cs = many (enters i) cs"

definition inlined :: "string \<Rightarrow> call list \<Rightarrow> int" where
  "inlined i cs = many (was_inline i) cs"

definition finishes_of :: "string \<Rightarrow> call list \<Rightarrow> int" where
  "finishes_of i cs = many (finish_of i) cs"

text \<open>The tasks of a FINISH that is claimed or sent: of a \<open>Run\<close> object, or inline of an id alone.\<close>

fun inlines :: "string \<Rightarrow> task \<Rightarrow> bool" where
  "inlines i (FinishInline j a) = (j = i)"
| "inlines i _ = False"

definition ids :: "string \<Rightarrow> manager \<Rightarrow> ptr list" where
  "ids i m = filter (\<lambda>p. r_id (rm_heap m p) = i) [0..<rm_next m]"

definition finishing :: "manager \<Rightarrow> string \<Rightarrow> task \<Rightarrow> bool" where
  "finishing m i t \<longleftrightarrow> (\<exists>p \<in> set (ids i m). finishes p t) \<or> inlines i t"

lemma entered_simps [simp]:
  "entered i [] = 0" "entered i (c # cs) = (if enters i c then 1 else 0) + entered i cs"
  "entered i (cs @ ds) = entered i cs + entered i ds" "entered i (map LDrop ps) = 0"
  by (simp_all add: entered_def many_map_none)

lemma inlined_simps [simp]:
  "inlined i [] = 0" "inlined i (c # cs) = (if was_inline i c then 1 else 0) + inlined i cs"
  "inlined i (cs @ ds) = inlined i cs + inlined i ds" "inlined i (map LDrop ps) = 0"
  by (simp_all add: inlined_def many_map_none)

subsection \<open>The id of a run never changes\<close>

lemma append_id [simp]: "r_id (rm_heap (append_draining now p m) q) = r_id (rm_heap m q)"
  by (simp add: append_draining_def set_run_def)

lemma fold_append_id [simp]:
  "r_id (rm_heap (fold (\<lambda>(a, p) m. append_draining now p m) xs m) q) = r_id (rm_heap m q)"
  by (induction xs arbitrary: m) auto

lemma drop_lease_id [simp]: "r_id (rm_heap (drop_lease p m) q) = r_id (rm_heap m q)"
  by (simp add: drop_lease_def Let_def)

lemma claim_id [simp]: "r_id (rm_heap (snd (claim_finishing ps m)) q) = r_id (rm_heap m q)"
proof (induction ps arbitrary: m)
  case (Cons p ps)
  then show ?case by (simp add: claim_finishing_Cons Let_def case_prod_beta)
qed simp

lemma swap_id:
  assumes "swap_current now a r m = (p, old, m')"
  shows "r_id (rm_heap m' q) = (if q = rm_next m then r_id r else r_id (rm_heap m q))"
  using assms by (auto simp: swap_current_def alloc_run_def Let_def split: option.splits)

lemma log_prune [simp]:
  "entered i (rm_log (prune_draining now m)) = entered i (rm_log m)"
  "inlined i (rm_log (prune_draining now m)) = inlined i (rm_log m)"
  by (simp_all add: prune_draining_def Let_def)

lemma log_append [simp]:
  "entered i (rm_log (append_draining now p m)) = entered i (rm_log m)"
  "inlined i (rm_log (append_draining now p m)) = inlined i (rm_log m)"
  by (simp_all add: append_draining_def)

lemma log_fold_append [simp]:
  "entered i (rm_log (fold (\<lambda>(a, p) m. append_draining now p m) xs m)) = entered i (rm_log m)"
  "inlined i (rm_log (fold (\<lambda>(a, p) m. append_draining now p m) xs m)) = inlined i (rm_log m)"
  by (induction xs arbitrary: m) auto

lemma log_swap:
  assumes "swap_current now a r m = (p, old, m')"
  shows "entered i (rm_log m') = entered i (rm_log m)" "inlined i (rm_log m') = inlined i (rm_log m)"
  using assms by (auto simp: swap_current_def alloc_run_def Let_def split: option.splits)

lemma ids_frame:
  "rm_next m' = rm_next m \<Longrightarrow> (\<And>p. r_id (rm_heap m' p) = r_id (rm_heap m p)) \<Longrightarrow> ids i m' = ids i m"
  by (simp add: ids_def)

lemma ids_alloc:
  assumes "rm_next m' = rm_next m + 1" "\<And>q. r_id (rm_heap m' q) = (if q = rm_next m then j else r_id (rm_heap m q))"
  shows "ids i m' = ids i m @ (if j = i then [rm_next m] else [])"
proof -
  have "filter (\<lambda>p. r_id (rm_heap m' p) = i) [0..<rm_next m] = ids i m"
    unfolding ids_def by (rule filter_cong) (auto simp: assms(2))
  then show ?thesis by (simp add: ids_def assms)
qed

lemma distinct_ids [simp]: "distinct (ids i m)"
  by (simp add: ids_def)

lemma set_ids [simp]: "p \<in> set (ids i m) \<longleftrightarrow> p < rm_next m \<and> r_id (rm_heap m p) = i"
  by (auto simp: ids_def)

subsection \<open>The balance of entries\<close>

definition balance :: "string \<Rightarrow> manager \<Rightarrow> int" where
  "balance i m = entered i (rm_log m) - inlined i (rm_log m) - int (length (ids i m))"

lemma exec_id_kept:
  assumes "exec e t m = Some (new, m')" "p < rm_next m"
  shows "r_id (rm_heap m' p) = r_id (rm_heap m p)"
proof (cases t)
  case (RotAdopt w b f pr)
  then show ?thesis using assms
    by (auto simp: rotate_adopt_def Let_def swap_id split: if_splits prod.splits)
next
  case (RotStart w b f)
  then show ?thesis using assms
    by (auto simp: rotate_start_def Let_def swap_id split: if_splits prod.splits sum.splits)
next
  case Maintain
  then show ?thesis using assms by (auto simp: maintain_def Let_def split: if_splits)
next
  case FinishAll
  then show ?thesis using assms by (auto simp: finish_all_def Let_def)
next
  case ShutClaim
  then show ?thesis using assms by (auto simp: shutdown_claim_def Let_def case_prod_beta split: if_splits)
qed (use assms in \<open>auto simp: exec_defs Let_def split: option.splits if_splits list.splits prod.splits\<close>)

fun allocates :: "task \<Rightarrow> bool" where
  "allocates (RotAdopt w b f pr) = True"
| "allocates (RotStart w b f) = True"
| "allocates _ = False"

lemma exec_no_alloc:
  assumes "exec e t m = Some (new, m')" "\<not> allocates t"
  shows "rm_next m' = rm_next m"
proof (cases t)
  case Maintain
  then show ?thesis using assms by (auto simp: maintain_def Let_def split: if_splits)
next
  case FinishAll
  then show ?thesis using assms by (auto simp: finish_all_def Let_def)
next
  case ShutClaim
  then show ?thesis using assms by (auto simp: shutdown_claim_def Let_def case_prod_beta split: if_splits)
qed (use assms in \<open>auto simp: exec_defs Let_def split: option.splits if_splits list.splits prod.splits\<close>)

lemma exec_ids_kept:
  assumes "exec e t m = Some (new, m')" "\<not> allocates t"
  shows "ids i m' = ids i m"
  unfolding ids_def exec_no_alloc [OF assms]
  by (rule filter_cong) (auto simp: exec_id_kept [OF assms(1)])

lemma exec_balance:
  assumes "exec e t m = Some (new, m')"
  shows "many (inlines i) new - (if inlines i t then 1 else 0) = balance i m' - balance i m"
proof (cases t)
  case (RotAdopt w b f pr)
  show ?thesis
  proof (cases "rm_shutting m")
    case False
    let ?m0 = "close_flight b f None (m\<lparr>rm_log := LAdopt (pr_run pr) # rm_log m\<rparr>)"
    obtain p old m1 where sw: "swap_current (ev_now e) b
        (fresh_run b (pr_run pr) (pr_started pr) (pr_trace pr) (pr_requests pr)) ?m0 = (p, old, m1)"
      by (metis prod_cases3)
    have "ids i m1 = ids i m @ (if pr_run pr = i then [rm_next m] else [])"
      by (rule ids_alloc) (simp_all add: swap_current_facts(3) [OF sw] swap_id [OF sw] fresh_run_def)
    then show ?thesis using assms RotAdopt False sw log_swap [OF sw, of i]
      by (auto simp: rotate_adopt_def rotated_def enqueue_old_def balance_def split: option.splits)
  qed (use assms RotAdopt in \<open>auto simp: rotate_adopt_def rotate_err_def\<close>)
next
  case (RotStart w b f)
  let ?m0 = "close_flight b f None (m\<lparr>rm_log := LStart b (ev_start e) # rm_log m\<rparr>)"
  show ?thesis
  proof (cases "ev_start e")
    case (Inr err)
    then show ?thesis using assms RotStart
      by (auto simp: rotate_start_def rotate_err_def balance_def ids_def)
  next
    case (Inl rid)
    show ?thesis
    proof (cases "rm_shutting m")
      case True
      then show ?thesis using assms RotStart Inl
        by (auto simp: rotate_start_def rotate_err_def balance_def ids_def)
    next
      case False
      let ?r = "fresh_run b rid (ev_now e) (new_trace_session_id (ev_rand e) (ev_now e)) 0"
      obtain p old m1 where sw: "swap_current (ev_now e) b ?r ?m0 = (p, old, m1)" by (metis prod_cases3)
      have "ids i m1 = ids i m @ (if rid = i then [rm_next m] else [])"
        by (rule ids_alloc) (simp_all add: swap_current_facts(3) [OF sw] swap_id [OF sw] fresh_run_def)
      then show ?thesis using assms RotStart False sw Inl log_swap [OF sw, of i]
        by (auto simp: rotate_start_def rotated_def enqueue_old_def balance_def Let_def
            split: option.splits)
    qed
  qed
next
  case Maintain
  then show ?thesis using assms exec_ids_kept [OF assms]
    by (auto simp: maintain_def Let_def many_map_none balance_def split: if_splits)
next
  case FinishAll
  then show ?thesis using assms exec_ids_kept [OF assms]
    by (auto simp: finish_all_def Let_def many_map_none balance_def)
next
  case ShutClaim
  then show ?thesis using assms exec_ids_kept [OF assms]
    by (auto simp: shutdown_claim_def Let_def many_map_none balance_def case_prod_beta split: if_splits)
qed (use assms exec_ids_kept [OF assms, of i] in \<open>auto simp: exec_defs Let_def balance_def
      split: option.splits if_splits list.splits prod.splits\<close>)

lemma local_ids:
  assumes "local_apply tz now op m = Some m'"
  shows "r_id (rm_heap m' p) = r_id (rm_heap m p)" "rm_next m' = rm_next m"
    "entered i (rm_log m') = entered i (rm_log m)" "inlined i (rm_log m') = inlined i (rm_log m)"
  using assms by (cases op; auto simp: invalidate_run_def record_step_def mark_failed_def next_step_number_def
      set_store_def Let_def split: option.splits if_splits)+

lemma balance_reach: "run_reach tz s \<Longrightarrow> pend (inlines i) (snd s) = balance i (fst s)"
proof (erule run_invariant)
  fix m ts j t rest e new m'
  assume "pend (inlines i) ts = balance i m" "j < length ts" "ts ! j = t # rest" "exec e t m = Some (new, m')"
  then show "pend (inlines i) (ts[j := new @ rest]) = balance i m'"
    using exec_balance [of e t m new m' i] pend_update [of j ts t rest "inlines i" new] by simp
next
  fix m ts t
  assume "pend (inlines i) ts = balance i m" and e: "entry_task t"
  moreover from e have "\<not> inlines i t" by (cases t) auto
  ultimately show "pend (inlines i) (ts @ [[t]]) = balance i m" by simp
next
  fix m ts now op m'
  assume "pend (inlines i) ts = balance i m" "local_apply tz now op m = Some m'"
  then show "pend (inlines i) ts = balance i m'" by (simp add: balance_def local_ids ids_def)
qed (simp add: balance_def ids_def new_run_manager_def)

subsection \<open>Each FINISH call names the id of its run\<close>

definition log_names_runs :: "manager \<Rightarrow> bool" where
  "log_names_runs m \<longleftrightarrow>
     (\<forall>p i st n ok. LFinish p i st n ok \<in> set (rm_log m) \<longrightarrow> p < rm_next m \<and> r_id (rm_heap m p) = i)"

lemma log_names_runs_grow:
  assumes "log_names_runs m" "rm_next m \<le> rm_next m'"
    and "\<And>p. p < rm_next m \<Longrightarrow> r_id (rm_heap m' p) = r_id (rm_heap m p)"
    and "\<And>p i st n ok. LFinish p i st n ok \<in> set (rm_log m') \<Longrightarrow>
      LFinish p i st n ok \<in> set (rm_log m) \<or> p < rm_next m \<and> r_id (rm_heap m p) = i"
  shows "log_names_runs m'"
  unfolding log_names_runs_def
proof (intro allI impI)
  fix p i st n ok
  assume "LFinish p i st n ok \<in> set (rm_log m')"
  then have "p < rm_next m \<and> r_id (rm_heap m p) = i"
    using assms(1,4) unfolding log_names_runs_def by blast
  then show "p < rm_next m' \<and> r_id (rm_heap m' p) = i" using assms(2,3) by simp
qed

text \<open>What a step adds to the log.\<close>

lemma pruned_finish: "LFinish p i st n ok \<in> set (rm_log (prune_draining now m)) \<longleftrightarrow> LFinish p i st n ok \<in> set (rm_log m)"
  by (auto simp: prune_draining_def Let_def)

lemma append_log: "LFinish p i st n ok \<in> set (rm_log (append_draining now q m)) \<longleftrightarrow> LFinish p i st n ok \<in> set (rm_log m)"
  by (auto simp: append_draining_def pruned_finish)

lemma fold_append_log:
  "LFinish p i st n ok \<in> set (rm_log (fold (\<lambda>(a, q) m. append_draining now q m) xs m)) \<longleftrightarrow>
     LFinish p i st n ok \<in> set (rm_log m)"
proof (induction xs arbitrary: m)
  case (Cons x xs)
  show ?case using Cons [of "append_draining now (snd x) m"] by (simp add: append_log case_prod_beta)
qed simp

lemma swap_log:
  "swap_current now a r m = (q, old, m') \<Longrightarrow>
     LFinish p i st n ok \<in> set (rm_log m') \<longleftrightarrow> LFinish p i st n ok \<in> set (rm_log m)"
  by (auto simp: swap_current_def alloc_run_def Let_def append_log split: option.splits)

lemma exec_log:
  assumes "exec e t m = Some (new, m')" "LFinish p i st n ok \<in> set (rm_log m')" "task_ok (rm_next m) t"
  shows "LFinish p i st n ok \<in> set (rm_log m) \<or> p < rm_next m \<and> r_id (rm_heap m p) = i"
proof (cases t)
  case (RotAdopt w b f pr)
  then show ?thesis using assms
    by (auto simp: rotate_adopt_def Let_def swap_log split: if_splits prod.splits)
next
  case (RotStart w b f)
  then show ?thesis using assms
    by (auto simp: rotate_start_def Let_def split: if_splits prod.splits sum.splits
        simp: swap_log)
next
  case Maintain
  then show ?thesis using assms by (auto simp: maintain_def Let_def pruned_finish split: if_splits)
next
  case FinishAll
  then show ?thesis using assms by (auto simp: finish_all_def Let_def pruned_finish fold_append_log)
next
  case ShutClaim
  then show ?thesis using assms by (auto simp: shutdown_claim_def Let_def case_prod_beta split: if_splits)
qed (use assms in \<open>auto simp: exec_defs Let_def append_log split: option.splits if_splits list.splits prod.splits\<close>)

lemma log_names_runs_reach: "run_reach tz s \<Longrightarrow> log_names_runs (fst s)"
proof (erule run_invariant [where I = "\<lambda>m ts. log_names_runs m"])
  fix m ts j t rest e new m'
  assume I: "log_names_runs m" and ok: "manager_ok m" "task_ok (rm_next m) t" "exec e t m = Some (new, m')"
  show "log_names_runs m'"
    by (rule log_names_runs_grow [OF I _ exec_id_kept [OF ok(3)] exec_log [OF ok(3) _ ok(2)]])
      (use exec_ok [OF ok(3,1,2)] in simp_all)
next
  fix m ts now op m'
  assume I: "log_names_runs m" and l: "local_apply tz now op m = Some m'"
  show "log_names_runs m'"
    by (rule log_names_runs_grow [OF I])
      (use l local_ids [OF l] in \<open>cases op; auto simp: invalidate_run_def record_step_def mark_failed_def
        next_step_number_def set_store_def Let_def split: option.splits if_splits\<close>)+
qed (simp_all add: log_names_runs_def new_run_manager_def)

subsection \<open>FINISH calls of an id against those of its runs\<close>

lemma many_le: "(\<And>x. x \<in> set xs \<Longrightarrow> P x \<Longrightarrow> Q x \<or> R x) \<Longrightarrow> many P xs \<le> many Q xs + many R xs"
proof (induction xs)
  case (Cons x xs)
  have "many P xs \<le> many Q xs + many R xs" using Cons by simp
  then show ?case using Cons.prems [of x] by auto
qed simp

lemma many_ex: "many (\<lambda>x. \<exists>p \<in> set ps. P p x) xs \<le> sum_list (map (\<lambda>p. many (P p) xs) ps)"
proof (induction ps)
  case (Cons p ps)
  have "many (\<lambda>x. \<exists>q \<in> set (p # ps). P q x) xs \<le> many (P p) xs + many (\<lambda>x. \<exists>q \<in> set ps. P q x) xs"
    by (rule many_le) auto
  then show ?case using Cons by simp
qed (simp add: many_def)

lemma pend_many: "pend P ts = many P (concat ts)"
  by (simp add: pend_def many_def)

lemma finishes_of_le:
  assumes "log_names_runs m"
  shows "finishes_of i (rm_log m) \<le> sum_list (map (\<lambda>p. finished p (rm_log m)) (ids i m)) + inlined i (rm_log m)"
proof -
  have "finishes_of i (rm_log m) \<le> many (\<lambda>c. \<exists>p \<in> set (ids i m). is_finish p c) (rm_log m) + inlined i (rm_log m)"
    unfolding finishes_of_def inlined_def
  proof (rule many_le)
    fix c
    assume c: "c \<in> set (rm_log m)" "finish_of i c"
    show "(\<exists>p \<in> set (ids i m). is_finish p c) \<or> was_inline i c"
    proof (cases c)
      case (LFinish p j st n ok)
      then show ?thesis using assms c by (force simp: log_names_runs_def)
    qed (use c(2) in simp_all)
  qed
  also have "\<dots> \<le> sum_list (map (\<lambda>p. many (is_finish p) (rm_log m)) (ids i m)) + inlined i (rm_log m)"
    using many_ex [of "ids i m" is_finish "rm_log m"] by simp
  finally show ?thesis by (simp add: finished_def many_def)
qed

lemma finishing_le:
  "pend (finishing m i) ts \<le> sum_list (map (\<lambda>p. pend (finishes p) ts) (ids i m)) + pend (inlines i) ts"
proof -
  have "pend (finishing m i) ts \<le> many (\<lambda>t. \<exists>p \<in> set (ids i m). finishes p t) (concat ts) + pend (inlines i) ts"
    unfolding pend_many finishing_def by (rule many_le) auto
  also have "\<dots> \<le> sum_list (map (\<lambda>p. pend (finishes p) ts) (ids i m)) + pend (inlines i) ts"
    using many_ex [of "ids i m" finishes "concat ts"] by (simp add: pend_many)
  finally show ?thesis .
qed

lemma sum_list_at_most: "(\<And>x. x \<in> set xs \<Longrightarrow> f x \<le> (1::int)) \<Longrightarrow> sum_list (map f xs) \<le> int (length xs)"
  by (induction xs) (auto simp: add_mono)

lemma sum_list_less:
  "(\<And>x. x \<in> set xs \<Longrightarrow> f x \<le> (1::int)) \<Longrightarrow> p \<in> set xs \<Longrightarrow> f p \<le> 0 \<Longrightarrow> sum_list (map f xs) < int (length xs)"
proof (induction xs)
  case (Cons x xs)
  show ?case
  proof (cases "x = p")
    case True
    then show ?thesis using Cons.prems(1,3) sum_list_at_most [of xs f] by force
  next
    case False
    then show ?thesis using Cons.IH Cons.prems by force
  qed
qed simp

text \<open>
  The successful FINISHes of an id and those in flight are at most the times the id entered,
  and fewer when one of its runs has none.
\<close>

lemma finish_count_le:
  assumes "run_reach tz (m, ts)"
  shows "finishes_of i (rm_log m) + pend (finishing m i) ts \<le>
    sum_list (map (\<lambda>p. finished p (rm_log m) + pend (finishes p) ts) (ids i m)) +
    (entered i (rm_log m) - int (length (ids i m)))"
proof -
  have "pend (inlines i) ts + inlined i (rm_log m) = entered i (rm_log m) - int (length (ids i m))"
    using balance_reach [OF assms, of i] by (simp add: balance_def)
  moreover have "sum_list (map (\<lambda>p. finished p (rm_log m) + pend (finishes p) ts) (ids i m)) =
      sum_list (map (\<lambda>p. finished p (rm_log m)) (ids i m)) + sum_list (map (\<lambda>p. pend (finishes p) ts) (ids i m))"
    by (rule sum_list_addf)
  ultimately show ?thesis
    using finishes_of_le [of m i] log_names_runs_reach [OF assms] finishing_le [of m i ts] by simp
qed

lemma finish_once_le:
  assumes r: "run_reach tz (m, ts)"
  shows "finished p (rm_log m) + pend (finishes p) ts \<le> 1"
proof -
  have "pend (finishes p) ts + finished p (rm_log m) \<le> (if r_finishing (rm_heap m p) then 1 else 0)"
    using finish_once_reach [OF r] by (simp add: finish_once_def)
  then show ?thesis by (simp split: if_splits)
qed

lemma upstream_finishes_le:
  assumes "run_reach tz (m, ts)"
  shows "finishes_of i (rm_log m) + pend (finishing m i) ts \<le> entered i (rm_log m)"
  using finish_count_le [OF assms, of i]
    sum_list_at_most [of "ids i m" "\<lambda>p. finished p (rm_log m) + pend (finishes p) ts"] finish_once_le [OF assms]
  by simp

lemma upstream_finishes_less:
  assumes "run_reach tz (m, ts)" "p < rm_next m" "finished p (rm_log m) + pend (finishes p) ts = 0"
  shows "finishes_of (r_id (rm_heap m p)) (rm_log m) + pend (finishing m (r_id (rm_heap m p))) ts <
    entered (r_id (rm_heap m p)) (rm_log m)"
  using finish_count_le [OF assms(1), of "r_id (rm_heap m p)"] assms(2,3)
    sum_list_less [of "ids (r_id (rm_heap m p)) m" "\<lambda>p. finished p (rm_log m) + pend (finishes p) ts" p]
    finish_once_le [OF assms(1)] by simp

end
