(* ===== verification/RunProperties.thy ===== *)
theory RunProperties
  imports RunIds
begin

text \<open>
  What the invariants of \<open>RunLifecycle\<close> say of the runs of a token, and the interleavings in
  which the code does not do what it means to.
\<close>

subsection \<open>A concrete execution for the witnesses\<close>

definition quiet :: env where
  "quiet = \<lparr>ev_now = 0, ev_ctx = None, ev_start = Inl ''r1'', ev_finish = None, ev_rand = None, ev_pick = False\<rparr>"

definition six_hours :: options where
  "six_hours = \<lparr>op_rotation = 6 * hour, op_queue_size = 0, op_inline_timeout = 0, op_drain_cap = 0,
     op_drain_ttl = 0, op_store = None\<rparr>"

text \<open>One request acquires a run for \<open>agent\<close> and holds it.\<close>

fun rplay :: "(nat \<times> env) list \<Rightarrow> run_system \<Rightarrow> run_system option" where
  "rplay [] s = Some s"
| "rplay ((i, e) # ps) (m, ts) = (if i < length ts then
     (case ts ! i of [] \<Rightarrow> None
      | t # rest \<Rightarrow> (case exec e t m of None \<Rightarrow> None | Some (new, m') \<Rightarrow> rplay ps (m', ts[i := new @ rest]))) else None)"

lemma rplay_reach: "run_reach tz s \<Longrightarrow> rplay ps s = Some s' \<Longrightarrow> run_reach tz s'"
proof (induction ps s rule: rplay.induct)
  case (2 i e ps m ts)
  then obtain t rest new m' where x: "i < length ts" "ts ! i = t # rest" "exec e t m = Some (new, m')"
      "rplay ps (m', ts[i := new @ rest]) = Some s'"
    by (auto split: if_splits list.splits option.splits prod.splits)
  have "run_reach tz (m', ts[i := new @ rest])"
    by (rule run_reach.step [OF 2(2) run_step_rel.thread [OF x(1-3)]])
  then show ?case using 2(1) x by simp
qed simp

lemma spawn_reach: "run_reach tz (m, ts) \<Longrightarrow> entry_task t \<Longrightarrow> run_reach tz (m, ts @ [[t]])"
  by (rule run_reach.step [OF _ run_step_rel.spawn])

text \<open>A replayed state is reachable, with what evaluating it shows.\<close>

lemma played:
  assumes "case s of None \<Rightarrow> False | Some (m, ts) \<Rightarrow> P m ts"
    and "s = rplay ps s0" "run_reach tz s0"
  shows "\<exists>m ts. s = Some (m, ts) \<and> run_reach tz (m, ts) \<and> P m ts"
proof (cases s)
  case (Some x)
  then show ?thesis using assms rplay_reach [of tz s0 ps x] by (cases x) simp
qed (use assms(1) in simp)

definition one_lease :: "run_system option" where
  "one_lease = rplay (replicate 8 (1, quiet)) (new_run_manager ''k'' six_hours, [[Worker], [AcquireNew ''a'']])"

lemma one_lease_facts:
  "\<exists>m ts. one_lease = Some (m, ts) \<and> run_reach tz (m, ts) \<and> pend (holds 0) ts = 1 \<and> rm_next m = 1 \<and>
     \<not> rm_shutting m \<and> map_of (rm_runs m) ''a'' = Some 0 \<and> r_id (rm_heap m 0) = ''r1'' \<and>
     entered ''r1'' (rm_log m) = 1"
proof (rule played [OF _ one_lease_def])
  show "run_reach tz (new_run_manager ''k'' six_hours, [[Worker], [AcquireNew ''a'']])"
    using spawn_reach [OF run_reach.init, of "AcquireNew ''a''" tz "''k''" six_hours] by simp
  show "case one_lease of None \<Rightarrow> False | Some (m, ts) \<Rightarrow> pend (holds 0) ts = 1 \<and> rm_next m = 1 \<and>
      \<not> rm_shutting m \<and> map_of (rm_runs m) ''a'' = Some 0 \<and> r_id (rm_heap m 0) = ''r1'' \<and>
      entered ''r1'' (rm_log m) = 1"
    by code_simp
qed

text \<open>Its client goes away, and the worker has the FINISH in flight.\<close>

definition one_finish :: "run_system option" where
  "one_finish = rplay (replicate 8 (1, quiet) @ [(1, quiet\<lparr>ev_pick := True\<rparr>), (1, quiet)] @ replicate 3 (0, quiet))
     (new_run_manager ''k'' six_hours, [[Worker], [AcquireNew ''a'']])"

lemma one_finish_facts:
  "\<exists>m ts. one_finish = Some (m, ts) \<and> run_reach tz (m, ts) \<and> pend (finishes 0) ts = 1 \<and>
     entered ''r1'' (rm_log m) = 1"
proof (rule played [OF _ one_finish_def])
  show "run_reach tz (new_run_manager ''k'' six_hours, [[Worker], [AcquireNew ''a'']])"
    using spawn_reach [OF run_reach.init, of "AcquireNew ''a''" tz "''k''" six_hours] by simp
  show "case one_finish of None \<Rightarrow> False | Some (m, ts) \<Rightarrow> pend (finishes 0) ts = 1 \<and>
      entered ''r1'' (rm_log m) = 1"
    by code_simp
qed

subsection \<open>FINISH and leases\<close>

lemma finished_nonneg: "0 \<le> finished p ls"
  by (simp add: finished_def)

lemma at_most_one:
  "(x::int) + y \<le> (if b then 1 else 0) \<Longrightarrow> 0 \<le> x \<Longrightarrow> 0 \<le> y \<Longrightarrow> y + x \<le> 1 \<and> (\<not> b \<longrightarrow> y = 0 \<and> x = 0)"
  by (auto split: if_splits)

text \<open>
  C3: a \<open>Run\<close> object is FINISHed at most once, and an upstream run at most once per entry.  In
  every interleaving of acquires, releases, rotations, maintain passes, drains, cooldowns and
  Shutdown, the successful FINISH calls of a \<open>Run\<close> object and those still in flight (claimed or
  sent, by the queue worker, inline or by Shutdown) are together at most one, and none without
  the object's finishing mark.  Counted by upstream run id, with the inline FINISH of a
  discarded START, they are at most the number of times the id entered the manager: by a START
  that returned it, or by an adoption from the store.  So a run that STARTed and was never
  adopted is FINISHed upstream at most once; \<open>adopted_run_finished_twice\<close> below is a run that
  was adopted and is FINISHed twice.
\<close>

theorem run_finished_at_most_once:
  assumes "run_reach tz (m, ts)"
  shows "finished p (rm_log m) + pend (finishes p) ts \<le> 1 \<and>
    (\<not> r_finishing (rm_heap m p) \<longrightarrow> finished p (rm_log m) = 0 \<and> pend (finishes p) ts = 0) \<and>
    finishes_of i (rm_log m) + pend (finishing m i) ts \<le> entered i (rm_log m)"
proof -
  have "pend (finishes p) ts + finished p (rm_log m) \<le> (if r_finishing (rm_heap m p) then 1 else 0)"
    using finish_once_reach [OF assms] by (simp add: finish_once_def)
  from at_most_one [OF this many_nonneg(2) finished_nonneg] show ?thesis
    using upstream_finishes_le [OF assms, of i] by simp
qed

theorem run_finished_at_most_once_witness:
  "\<exists>m ts. one_finish = Some (m, ts) \<and> pend (finishes 0) ts = 1 \<and> entered ''r1'' (rm_log m) = 1 \<and>
     finished 0 (rm_log m) = 0 \<and> finishes_of ''r1'' (rm_log m) + pend (finishing m ''r1'') ts \<le> 1"
proof -
  obtain m ts where w: "one_finish = Some (m, ts)" "run_reach None (m, ts)" "pend (finishes 0) ts = 1"
      "entered ''r1'' (rm_log m) = 1"
    using one_finish_facts [of None] by blast
  with run_finished_at_most_once [OF w(2), of 0 "''r1''"] finished_nonneg [of 0 "rm_log m"]
  show ?thesis by auto
qed

text \<open>
  C4: no request runs on a \<open>Run\<close> object that is being FINISHed.  Until Shutdown begins, whenever
  some goroutine holds a lease on a \<open>Run\<close> object, or it is the current one of its agent, no
  FINISH of the object was sent successfully, none is in flight, and its \<open>inflight\<close> counter is the
  number of its holders; and the FINISHes of its upstream run id, sent or in flight, are fewer
  than the entries of that id.  So when the id entered once (one START, no adoption) the leased
  run is not finished upstream either.  With a second entry it can be:
  \<open>adopted_run_leased_while_finished\<close> below is a run leased again, adopted from the store,
  while the FINISH of its abandoned lease is in flight.
\<close>

theorem leased_run_is_not_finished:
  assumes "run_reach tz (m, ts)" "\<not> rm_shutting m"
    and "0 < pend (holds p) ts \<or> map_of (rm_runs m) a = Some p"
  shows "finished p (rm_log m) = 0 \<and> pend (finishes p) ts = 0 \<and> r_inflight (rm_heap m p) = pend (holds p) ts \<and>
    finishes_of (r_id (rm_heap m p)) (rm_log m) + pend (finishing m (r_id (rm_heap m p))) ts <
      entered (r_id (rm_heap m p)) (rm_log m)"
proof -
  have ap: "apart m" and le: "leases_ok m ts"
    using apart_reach [OF assms(1)] assms(2) by (simp_all add: apart_until_shutdown_def)
  have "\<not> r_finishing (rm_heap m p)"
  proof
    assume f: "r_finishing (rm_heap m p)"
    show False using assms(3) apartD(1) [OF ap f] apartD(2) [OF ap f, of a] le by (auto simp: leases_ok_def)
  qed
  moreover have "pend (finishes p) ts + finished p (rm_log m) \<le> (if r_finishing (rm_heap m p) then 1 else 0)"
    using finish_once_reach [OF assms(1)] by (simp add: finish_once_def)
  ultimately have "pend (finishes p) ts + finished p (rm_log m) \<le> 0" by simp
  then have none: "finished p (rm_log m) = 0 \<and> pend (finishes p) ts = 0"
    using many_nonneg(2) [of "finishes p" ts] finished_nonneg [of p "rm_log m"] by linarith
  have ok: "manager_ok m" using pointers_ok_reach [OF assms(1)] by (simp add: pointers_ok_def)
  have alloc: "p < rm_next m"
  proof (cases "map_of (rm_runs m) a = Some p")
    case False
    then have "r_inflight (rm_heap m p) \<noteq> 0" using assms(3) le by (simp add: leases_ok_def)
    then show ?thesis using manager_okD(4) [OF ok, of p] by (cases "rm_next m \<le> p") simp_all
  qed (use manager_ok_current [OF ok] in blast)
  show ?thesis using none le upstream_finishes_less [OF assms(1) alloc] by (simp add: leases_ok_def)
qed

theorem leased_run_is_not_finished_witness:
  "\<exists>m ts. one_lease = Some (m, ts) \<and> finished 0 (rm_log m) = 0 \<and> r_inflight (rm_heap m 0) = 1 \<and>
     entered ''r1'' (rm_log m) = 1 \<and> finishes_of ''r1'' (rm_log m) + pend (finishing m ''r1'') ts < 1"
proof -
  obtain m ts where w: "one_lease = Some (m, ts)" "run_reach None (m, ts)" "pend (holds 0) ts = 1" "\<not> rm_shutting m"
      "r_id (rm_heap m 0) = ''r1''" "entered ''r1'' (rm_log m) = 1"
    using one_lease_facts [of None] by blast
  have "0 < pend (holds 0) ts \<or> map_of (rm_runs m) ''a'' = Some 0" using w(3) by simp
  from leased_run_is_not_finished [OF w(2,4) this] w show ?thesis by auto
qed

subsubsection \<open>A run adopted while it is being finished\<close>

text \<open>
  \<open>ReleaseAbandoned\<close> says that a racing \<open>Acquire\<close> can never lease a run that is about to be
  finished.  With a store it can: the entry of the run leaves the store only after its FINISH
  succeeded, and \<open>rotate\<close> adopts what the store still holds.  Here one client goes away, the
  worker sends the FINISH of run \<open>r1\<close>, and a second request adopts \<open>r1\<close> and leases it; the
  second client goes away too, and \<open>r1\<close> is FINISHed a second time.
\<close>

definition with_store :: options where
  "with_store = six_hours\<lparr>op_store :=
     Some (new_store \<lparr>dk_file = Missing, dk_readable = True, dk_writes = []\<rparr>)\<rparr>"

definition client_gone :: env where "client_gone = quiet\<lparr>ev_pick := True\<rparr>"

definition adopt_race :: "(nat \<times> env) list \<Rightarrow> run_system option" where
  "adopt_race xs = rplay (replicate 8 (1, quiet) @ [(1, client_gone), (1, quiet)] @ replicate 3 (0, quiet) @
     replicate 6 (2, quiet) @ xs)
     (new_run_manager ''k'' with_store, [[Worker], [AcquireNew ''a''], [AcquireNew ''a'']])"

lemma adopt_race_played:
  assumes "case adopt_race xs of None \<Rightarrow> False | Some (m, ts) \<Rightarrow> P m ts"
  shows "\<exists>m ts. run_reach tz (m, ts) \<and> P m ts"
proof -
  have "run_reach tz (new_run_manager ''k'' with_store, [[Worker], [AcquireNew ''a''], [AcquireNew ''a'']])"
    using spawn_reach [OF spawn_reach [OF run_reach.init, of "AcquireNew ''a''"], of "AcquireNew ''a''" tz "''k''" with_store]
    by simp
  from played [OF assms adopt_race_def this] show ?thesis by blast
qed

lemma adopted_run_leased_while_finished:
  "\<exists>m ts. run_reach tz (m, ts) \<and> \<not> rm_shutting m \<and> r_id (rm_heap m 0) = ''r1'' \<and> r_id (rm_heap m 1) = ''r1'' \<and>
     pend (holds 1) ts = 1 \<and> pend (finishes 0) ts = 1 \<and> map_of (rm_runs m) ''a'' = Some 1"
proof (rule adopt_race_played)
  show "case adopt_race [] of None \<Rightarrow> False | Some (m, ts) \<Rightarrow> \<not> rm_shutting m \<and> r_id (rm_heap m 0) = ''r1'' \<and>
      r_id (rm_heap m 1) = ''r1'' \<and> pend (holds 1) ts = 1 \<and> pend (finishes 0) ts = 1 \<and>
      map_of (rm_runs m) ''a'' = Some 1"
    by code_simp
qed

lemma adopted_run_finished_twice:
  "\<exists>m ts. run_reach tz (m, ts) \<and> \<not> rm_shutting m \<and> finishes_of ''r1'' (rm_log m) = 2 \<and>
     filter (\<lambda>c. case c of LStart a r \<Rightarrow> True | LAdopt i \<Rightarrow> True | _ \<Rightarrow> False) (rm_log m) =
       [LAdopt ''r1'', LStart ''a'' (Inl ''r1'')]"
proof (rule adopt_race_played)
  let ?xs = "(0, quiet) # [(2, client_gone), (2, quiet)] @ replicate 5 (0, quiet)"
  show "case adopt_race ?xs of None \<Rightarrow> False | Some (m, ts) \<Rightarrow> \<not> rm_shutting m \<and>
      finishes_of ''r1'' (rm_log m) = 2 \<and>
      filter (\<lambda>c. case c of LStart a r \<Rightarrow> True | LAdopt i \<Rightarrow> True | _ \<Rightarrow> False) (rm_log m) =
        [LAdopt ''r1'', LStart ''a'' (Inl ''r1'')]"
    by code_simp
qed



text \<open>
  The draining list is bounded and holds each run once, whatever fails upstream.
\<close>

theorem draining_bounded:
  assumes "run_reach tz (m, ts)"
  shows "distinct (rm_draining m) \<and> int (length (rm_draining m)) \<le> rm_drain_cap m \<and>
    (\<forall>p \<in> set (rm_draining m). p < rm_next m)"
  using drain_reach [OF assms] pointers_ok_reach [OF assms] manager_okD(1) [of m]
  by (simp add: drain_ok_def pointers_ok_def)

theorem draining_bounded_witness:
  "\<exists>m ts. one_lease = Some (m, ts) \<and> int (length (rm_draining m)) \<le> rm_drain_cap m"
  using one_lease_facts [of None] draining_bounded [where tz = None] by blast

subsection \<open>Starting runs\<close>

text \<open>
  C6: starting a run is single-flight.  For each agent at most one goroutine is between
  becoming the leader and the reply to its START, so at most one START of the agent is in
  flight, and only while the agent's entry is in the table of starting flights.
\<close>

theorem start_is_single_flight:
  assumes "run_reach tz (m, ts)"
  shows "pend (leads a) ts \<le> 1 \<and> (map_of (rm_starting m) a = None \<longrightarrow> pend (leads a) ts = 0)"
proof -
  have "pend (leads a) ts \<le> (if map_of (rm_starting m) a \<noteq> None then 1 else 0)"
    using one_leader_reach [OF assms] by (simp add: one_leader_def)
  then show ?thesis using at_most_one [of "pend (leads a) ts" 0, OF _ many_nonneg(2)] by simp
qed

theorem start_is_single_flight_witness:
  "\<exists>m ts. one_lease = Some (m, ts) \<and> pend (leads ''a'') ts \<le> 1"
  using one_lease_facts [of None] start_is_single_flight [where tz = None and a = "''a''"] by blast

lemma swap_not_shutting: "rm_shutting (close_flight a f err m) = rm_shutting m"
  by simp

lemma exec_shut_current:
  assumes "exec e t m = Some (new, m')" "rm_shutting m" "gomap (rm_runs m)" "map_of (rm_runs m') a = Some p"
  shows "map_of (rm_runs m) a = Some p"
proof (cases t)
  case (RotStart w b f)
  then show ?thesis using assms by (auto simp: rotate_start_def Let_def split: sum.splits)
next
  case (RotLead w b f)
  then show ?thesis using assms by (auto simp: rotate_lead_def Let_def split: if_splits option.splits prod.splits)
next
  case (Held q)
  then show ?thesis using assms
    by (auto simp: release_def release_abandoned_def Let_def map_of_unset split: if_splits)
next
  case FinishAll
  then show ?thesis using assms
    by (auto simp: finish_all_def Let_def map_of_filter_gomap split: option.splits if_splits)
qed (use assms in \<open>auto simp: exec_defs maintain_def shutdown_claim_def case_prod_beta Let_def
      split: option.splits if_splits list.splits\<close>)

text \<open>The reply of a START that was in flight when Shutdown began.\<close>

lemma discarded_start:
  "rm_shutting m \<Longrightarrow> ev_start e = Inl rid \<Longrightarrow> \<exists>m'. exec e (RotStart w a f) m =
     Some (FinishInline rid a # rotate_err w EShuttingDown, m') \<and> rm_runs m' = rm_runs m"
  by (simp add: rotate_start_def Let_def)

text \<open>
  A request holds the run of agent \<open>a\<close>, another waits for the START of agent \<open>b\<close>, and Shutdown
  begins.
\<close>

definition shut_race :: "run_system option" where
  "shut_race = rplay (replicate 8 (1, quiet) @ replicate 4 (2, quiet) @ [(3, quiet)])
     (new_run_manager ''k'' six_hours, [[Worker], [AcquireNew ''a''], [AcquireNew ''b''], [ShutBegin]])"

lemma shut_race_facts:
  "\<exists>m ts. shut_race = Some (m, ts) \<and> run_reach tz (m, ts) \<and> rm_shutting m \<and> 2 < length ts \<and>
     ts ! 2 = [RotStart True ''b'' 1] \<and> map_of (rm_runs m) ''a'' = Some 0"
proof (rule played [OF _ shut_race_def])
  show "run_reach tz (new_run_manager ''k'' six_hours, [[Worker], [AcquireNew ''a''], [AcquireNew ''b''], [ShutBegin]])"
    using spawn_reach [OF spawn_reach [OF spawn_reach [OF run_reach.init, of "AcquireNew ''a''"], of "AcquireNew ''b''"],
      of ShutBegin tz "''k''" six_hours] by simp
  show "case shut_race of None \<Rightarrow> False | Some (m, ts) \<Rightarrow> rm_shutting m \<and> 2 < length ts \<and>
      ts ! 2 = [RotStart True ''b'' 1] \<and> map_of (rm_runs m) ''a'' = Some 0"
    by code_simp
qed

text \<open>
  C7: after Shutdown has begun no run becomes current.  Whatever goroutine steps, and whatever
  START reply or stored run arrives, every current run afterwards was the current run of that
  agent before, and the manager goes on shutting down.  (The run of a START that was in flight
  is FINISHed inline instead, see \<open>discarded_start\<close>.)
\<close>

theorem no_new_run_after_shutdown:
  assumes "run_reach tz (m, ts)" "rm_shutting m" "run_step_rel tz (m, ts) (m', ts')"
    and "map_of (rm_runs m') a = Some p"
  shows "map_of (rm_runs m) a = Some p \<and> rm_shutting m'"
  using assms(3)
proof (cases rule: run_step_rel.cases)
  case (thread i t rest e new)
  have "gomap (rm_runs m)" using pointers_ok_reach [OF assms(1)] manager_okD(5) [of m] by (simp add: pointers_ok_def)
  then show ?thesis using exec_shut_current [OF thread(4) assms(2)] assms(2,4) exec_shutting [OF thread(4)] by simp
next
  case (spawn t)
  then show ?thesis using assms(2,4) by simp
next
  case (local now op)
  then show ?thesis using local_frame [OF local(2), of p] assms(2,4) by simp
qed

theorem no_new_run_after_shutdown_witness:
  "\<exists>m ts m' ts'. shut_race = Some (m, ts) \<and> run_step_rel None (m, ts) (m', ts') \<and>
     map_of (rm_runs m') ''a'' = Some 0 \<and> map_of (rm_runs m) ''a'' = Some 0 \<and> rm_shutting m' \<and>
     [FinishInline ''r2'' ''b'', Failed EShuttingDown] \<in> set ts'"
proof -
  obtain m ts where w: "shut_race = Some (m, ts)" "run_reach None (m, ts)" "rm_shutting m" "2 < length ts"
      "ts ! 2 = [RotStart True ''b'' 1]" "map_of (rm_runs m) ''a'' = Some 0"
    using shut_race_facts [of None] by blast
  obtain m' where x: "exec (quiet\<lparr>ev_start := Inl ''r2''\<rparr>) (RotStart True ''b'' 1) m =
      Some ([FinishInline ''r2'' ''b'', Failed EShuttingDown], m')" "rm_runs m' = rm_runs m"
    using discarded_start [OF w(3), of "quiet\<lparr>ev_start := Inl ''r2''\<rparr>" "''r2''" True "''b''" 1]
    by (auto simp: rotate_err_def)
  let ?ts = "ts[2 := [FinishInline ''r2'' ''b'', Failed EShuttingDown]]"
  have st: "run_step_rel None (m, ts) (m', ?ts)"
    using run_step_rel.thread [OF w(4,5) x(1)] by simp
  have "map_of (rm_runs m') ''a'' = Some 0" using x(2) w(6) by simp
  from no_new_run_after_shutdown [OF w(2,3) st this] this st w(1,4) show ?thesis
    using set_update_memI [of 2 ts] by blast
qed

subsection \<open>Recorded steps\<close>

fun record_all :: "(nat list option \<times> gotime \<times> string) list \<Rightarrow> ptr \<Rightarrow> manager \<Rightarrow> manager" where
  "record_all [] p m = m"
| "record_all ((rnd, now, msg) # xs) p m = record_all xs p (record_step rnd now (Some p) msg m)"

lemma record_step_run:
  assumes "r_id (rm_heap m p) \<noteq> []" "length (r_steps (rm_heap m p)) \<le> max_recorded_steps"
  shows "r_step_total (rm_heap (record_step rnd now (Some p) msg m) p) = r_step_total (rm_heap m p) + 1"
    "length (r_steps (rm_heap (record_step rnd now (Some p) msg m) p)) =
       min max_recorded_steps (length (r_steps (rm_heap m p)) + 1)"
    "r_id (rm_heap (record_step rnd now (Some p) msg m) p) = r_id (rm_heap m p)"
    "r_status (rm_heap (record_step rnd now (Some p) msg m) p) = r_status (rm_heap m p)"
  using assms by (simp_all add: record_step_def Let_def max_recorded_steps_def)

text \<open>
  The steps of a run stay bounded and its FINISH stays honest.  After any number of
  completed chats recorded on a fresh run, at most 512 steps are kept (the newest), and the
  \<open>totalSteps\<close> of its FINISH is the number of chats recorded, also when older steps were
  dropped.
\<close>

theorem recorded_steps_bounded:
  assumes "r_id (rm_heap m p) \<noteq> []" "r_steps (rm_heap m p) = []" "r_step_total (rm_heap m p) = 0" "xs \<noteq> []"
  shows "length (r_steps (rm_heap (record_all xs p m) p)) = min max_recorded_steps (length xs) \<and>
    snd (snd (finish_payload (rm_heap (record_all xs p m) p))) = int (length xs)"
proof -
  have gen: "r_id (rm_heap m p) \<noteq> [] \<Longrightarrow> length (r_steps (rm_heap m p)) \<le> max_recorded_steps \<Longrightarrow>
      length (r_steps (rm_heap (record_all xs p m) p)) = min max_recorded_steps (length (r_steps (rm_heap m p)) + length xs) \<and>
      r_step_total (rm_heap (record_all xs p m) p) = r_step_total (rm_heap m p) + int (length xs)" for xs m
  proof (induction xs p m rule: record_all.induct)
    case (2 rnd now msg xs p m)
    show ?case using 2(1) record_step_run [OF 2(2,3), of rnd now msg] 2(2) by simp
  qed simp
  show ?thesis using gen [of m xs] assms by (auto simp: finish_payload_def Let_def)
qed

theorem recorded_steps_bounded_witness:
  "snd (snd (finish_payload (rm_heap (record_all [(None, 0, ''m1''), (None, 1, [])] 0
     ((new_run_manager ''k'' six_hours)\<lparr>rm_heap := (\<lambda>_. fresh_run ''a'' ''r1'' 0 [] 0)\<rparr>)) 0))) = 2"
proof -
  let ?xs = "[(None, 0, ''m1''), (None, 1, [])] :: (nat list option \<times> gotime \<times> string) list"
  let ?m = "(new_run_manager ''k'' six_hours)\<lparr>rm_heap := (\<lambda>_. fresh_run ''a'' ''r1'' 0 [] 0)\<rparr>"
  have "snd (snd (finish_payload (rm_heap (record_all ?xs 0 ?m) 0))) = int (length ?xs)"
    by (rule recorded_steps_bounded [THEN conjunct2]) (simp_all add: fresh_run_def)
  then show ?thesis by simp
qed

end
