(* ===== verification/GoJson.thy ===== *)
theory GoJson
  imports GoTime Complex_Main
begin

text \<open>
  Go's \<open>encoding/json\<close>, \<open>time.Parse\<close> and \<open>strings\<close>, as far as the program decodes text
  with them.  Strings are byte strings.  A document is cut into tokens and the tokens are read
  by a machine with an explicit stack, so that both passes are total; a number is its exact
  rational value.
\<close>

datatype json =
    JNull
  | JBool bool
  | JNum rat
  | JStr string
  | JArr "json list"
  | JObj "(string \<times> json) list"

abbreviation byte :: "char \<Rightarrow> nat" where "byte c \<equiv> of_char c"

definition is_space :: "char \<Rightarrow> bool" where
  "is_space c \<longleftrightarrow> byte c \<in> {9, 10, 13, 32}"

definition is_digit :: "char \<Rightarrow> bool" where
  "is_digit c \<longleftrightarrow> 48 \<le> byte c \<and> byte c \<le> 57"

definition digit_val :: "char \<Rightarrow> int" where
  "digit_val c = int (byte c) - 48"

definition digits_val :: "string \<Rightarrow> int" where
  "digits_val ds = foldl (\<lambda>n c. n * 10 + digit_val c) 0 ds"

subsection \<open>Strings\<close>

definition hex_val :: "char \<Rightarrow> nat option" where
  "hex_val c = (let n = byte c in
     if 48 \<le> n \<and> n \<le> 57 then Some (n - 48)
     else if 65 \<le> n \<and> n \<le> 70 then Some (n - 55)
     else if 97 \<le> n \<and> n \<le> 102 then Some (n - 87) else None)"

fun hex4 :: "string \<Rightarrow> nat option" where
  "hex4 (a # b # c # d # r) = (case (hex_val a, hex_val b, hex_val c, hex_val d) of
     (Some w, Some x, Some y, Some z) \<Rightarrow> Some (((w * 16 + x) * 16 + y) * 16 + z) | _ \<Rightarrow> None)"
| "hex4 _ = None"

definition utf8 :: "nat \<Rightarrow> string" where
  "utf8 n = (if n < 128 then [char_of n]
     else if n < 2048 then [char_of (192 + n div 64), char_of (128 + n mod 64)]
     else if n < 65536 then [char_of (224 + n div 4096), char_of (128 + n div 64 mod 64), char_of (128 + n mod 64)]
     else [char_of (240 + n div 262144), char_of (128 + n div 4096 mod 64), char_of (128 + n div 64 mod 64),
           char_of (128 + n mod 64)])"

abbreviation bad_rune :: nat where "bad_rune \<equiv> 65533"

definition escape_char :: "char \<Rightarrow> char option" where
  "escape_char e = (let n = byte e in
     if n \<in> {34, 92, 47} then Some e else if n = 98 then Some (char_of (8 :: nat))
     else if n = 102 then Some (char_of (12 :: nat)) else if n = 110 then Some (char_of (10 :: nat))
     else if n = 114 then Some (char_of (13 :: nat)) else if n = 116 then Some (char_of (9 :: nat)) else None)"

text \<open>What an escape stands for, from the text after its backslash, with the characters it takes.\<close>

definition escape_at :: "string \<Rightarrow> (string \<times> nat) option" where
  "escape_at r = (case r of
     [] \<Rightarrow> None
   | e # r' \<Rightarrow>
       if byte e \<noteq> 117 then map_option (\<lambda>x. ([x], 1)) (escape_char e)
       else (case hex4 r' of
         None \<Rightarrow> None
       | Some n \<Rightarrow>
           if n < 55296 \<or> 57343 < n then Some (utf8 n, 5)
           else (case (if map byte (take 2 (drop 4 r')) = [92, 117] then hex4 (drop 6 r') else None) of
               Some k \<Rightarrow> if n < 56320 \<and> 56320 \<le> k \<and> k \<le> 57343
                 then Some (utf8 (65536 + (n - 55296) * 1024 + (k - 56320)), 11) else Some (utf8 bad_rune, 5)
             | None \<Rightarrow> Some (utf8 bad_rune, 5))))"

text \<open>The bytes of a string literal after its opening quote, and what follows the closing one.\<close>

function lex_str :: "string \<Rightarrow> (string \<times> string) option" where
  "lex_str [] = None"
| "lex_str (c # cs) =
     (if byte c = 34 then Some ([], cs)
      else if byte c < 32 then None
      else if byte c \<noteq> 92 then map_option (\<lambda>(s, r). (c # s, r)) (lex_str cs)
      else case escape_at cs of
        None \<Rightarrow> None
      | Some (x, k) \<Rightarrow> map_option (\<lambda>(s, r). (x @ s, r)) (lex_str (drop k cs)))"
  by pat_completeness auto
termination
  by (relation "measure length") auto

lemma lex_str_shorter: "lex_str s = Some (v, r) \<Longrightarrow> length r < length s"
proof (induction s arbitrary: v r rule: lex_str.induct)
  case (2 c cs)
  show ?case
    using 2(1) 2(2) [OF _ _ _ _ refl] 2(3)
    by (fastforce split: if_splits option.splits prod.splits)
qed simp

text \<open>Invalid UTF-8 is replaced byte by byte.\<close>

definition seq_len :: "string \<Rightarrow> nat" where
  "seq_len s = (case map byte (take 4 s) of
     [] \<Rightarrow> 0
   | a # r \<Rightarrow>
     let cont = (\<lambda>i. i < length r \<and> 128 \<le> r ! i \<and> r ! i \<le> 191);
         first = (\<lambda>lo hi. r \<noteq> [] \<and> lo \<le> hd r \<and> hd r \<le> hi) in
     if a < 128 then 1
     else if 194 \<le> a \<and> a \<le> 223 \<and> cont 0 then 2
     else if 224 \<le> a \<and> a \<le> 239 \<and> first (if a = 224 then 160 else 128) (if a = 237 then 159 else 191) \<and> cont 1 then 3
     else if 240 \<le> a \<and> a \<le> 244 \<and> first (if a = 240 then 144 else 128) (if a = 244 then 143 else 191) \<and>
             cont 1 \<and> cont 2 then 4
     else 0)"

function utf8_fix :: "string \<Rightarrow> string" where
  "utf8_fix [] = []"
| "utf8_fix (c # cs) = (case seq_len (c # cs) of
     0 \<Rightarrow> utf8 bad_rune @ utf8_fix cs
   | Suc k \<Rightarrow> c # take k cs @ utf8_fix (drop k cs))"
  by pat_completeness auto
termination
  by (relation "measure length") auto

subsection \<open>Numbers\<close>

text \<open>The digits at the front, with the rest.\<close>

definition span_digits :: "string \<Rightarrow> string \<times> string" where
  "span_digits s = (takeWhile is_digit s, dropWhile is_digit s)"

definition lex_frac :: "string \<Rightarrow> (rat \<times> string) option" where
  "lex_frac s = (case s of
     c # r \<Rightarrow> if c = CHR 0x2E then (let (ds, r') = span_digits r in
         if ds = [] then None else Some (of_int (digits_val ds) / of_int (10 ^ length ds), r'))
       else Some (0, s)
   | [] \<Rightarrow> Some (0, s))"

definition lex_exp :: "string \<Rightarrow> (rat \<times> string) option" where
  "lex_exp s = (case s of
     [] \<Rightarrow> Some (1, s)
   | c # r \<Rightarrow> if byte c \<notin> {69, 101} then Some (1, s)
       else let neg = (case r of [] \<Rightarrow> False | d # _ \<Rightarrow> d = CHR 0x2D);
                r1 = (case r of [] \<Rightarrow> [] | d # r1 \<Rightarrow> if byte d \<in> {43, 45} then r1 else r);
                (ds, r') = span_digits r1 in
            if ds = [] then None
            else let p = of_int (10 ^ nat (digits_val ds)) in Some (if neg then 1 / p else p, r'))"

definition lex_num :: "string \<Rightarrow> (rat \<times> string) option" where
  "lex_num s = (let neg = (case s of [] \<Rightarrow> False | c # _ \<Rightarrow> c = CHR 0x2D);
       (ds, r) = span_digits (if neg then tl s else s) in
     if ds = [] \<or> (hd ds = CHR 0x30 \<and> 1 < length ds) then None
     else case lex_frac r of
       None \<Rightarrow> None
     | Some (f, r1) \<Rightarrow> (case lex_exp r1 of
         None \<Rightarrow> None
       | Some (p, r2) \<Rightarrow> let v = (of_int (digits_val ds) + f) * p in Some (if neg then - v else v, r2)))"

lemma span_digits_length: "length (snd (span_digits s)) \<le> length s"
  by (simp add: span_digits_def length_dropWhile_le)

lemma span_digits_shorter: "span_digits s = (ds, r) \<Longrightarrow> length r + length ds = length s"
  by (metis (no_types, lifting) span_digits_def add.commute length_append prod.inject takeWhile_dropWhile_id)

lemma lex_frac_shorter: "lex_frac s = Some (f, r) \<Longrightarrow> length r \<le> length s"
  using span_digits_length [of "tl s"]
  by (auto simp: lex_frac_def split: list.splits if_splits prod.splits)

lemma lex_exp_shorter: "lex_exp s = Some (f, r) \<Longrightarrow> length r \<le> length s"
  using span_digits_length [of "tl s"] span_digits_length [of "tl (tl s)"]
  by (auto simp: lex_exp_def Let_def split: list.splits if_splits prod.splits)

lemma lex_num_shorter: "lex_num s = Some (v, r) \<Longrightarrow> length r < length s"
  by (cases s) (auto simp: lex_num_def Let_def neq_Nil_conv split: if_splits prod.splits option.splits
      dest!: lex_frac_shorter lex_exp_shorter span_digits_shorter)

subsection \<open>Tokens and values\<close>

datatype token = TObj | TObjEnd | TArr | TArrEnd | TColon | TComma | TLit json

definition punct :: "char \<Rightarrow> token option" where
  "punct c = (let n = byte c in
     if n = 123 then Some TObj else if n = 125 then Some TObjEnd else if n = 91 then Some TArr
     else if n = 93 then Some TArrEnd else if n = 58 then Some TColon else if n = 44 then Some TComma else None)"

definition keyword :: "string \<Rightarrow> (json \<times> nat) option" where
  "keyword s = (if take 4 s = ''null'' then Some (JNull, 3) else if take 4 s = ''true'' then Some (JBool True, 3)
     else if take 5 s = ''false'' then Some (JBool False, 4) else None)"

function json_tokens :: "string \<Rightarrow> token list option" where
  "json_tokens [] = Some []"
| "json_tokens (c # cs) =
     (if is_space c then json_tokens cs
      else case punct c of
        Some t \<Rightarrow> map_option (\<lambda>ts. t # ts) (json_tokens cs)
      | None \<Rightarrow>
          if byte c = 34 then
            (case lex_str cs of
               None \<Rightarrow> None
             | Some (v, r) \<Rightarrow> map_option (\<lambda>ts. TLit (JStr (utf8_fix v)) # ts) (json_tokens r))
          else (case keyword (c # cs) of
            Some (v, k) \<Rightarrow> map_option (\<lambda>ts. TLit v # ts) (json_tokens (drop k cs))
          | None \<Rightarrow>
              (case lex_num (c # cs) of
                 None \<Rightarrow> None
               | Some (v, r) \<Rightarrow> map_option (\<lambda>ts. TLit (JNum v) # ts) (json_tokens r))))"
  by pat_completeness auto
termination
  by (relation "measure length") (auto dest: lex_str_shorter lex_num_shorter)

datatype frame = FArr "json list" | FObj "(string \<times> json) list" string

datatype mode = WantValue bool | WantKey bool | WantColon string | After json

text \<open>The flag of a mode says that the container may also end here.\<close>

fun json_read :: "token list \<Rightarrow> mode \<Rightarrow> frame list \<Rightarrow> json option" where
  "json_read [] m st = (case m of After v \<Rightarrow> if st = [] then Some v else None | _ \<Rightarrow> None)"
| "json_read (t # ts) (WantValue e) st = (case t of
     TLit v \<Rightarrow> json_read ts (After v) st
   | TObj \<Rightarrow> if 10000 \<le> length st then None else json_read ts (WantKey True) (FObj [] [] # st)
   | TArr \<Rightarrow> if 10000 \<le> length st then None else json_read ts (WantValue True) (FArr [] # st)
   | TArrEnd \<Rightarrow> if e then (case st of FArr [] # st' \<Rightarrow> json_read ts (After (JArr [])) st' | _ \<Rightarrow> None) else None
   | _ \<Rightarrow> None)"
| "json_read (t # ts) (WantKey e) st = (case t of
     TLit v \<Rightarrow> (case v of JStr k \<Rightarrow> json_read ts (WantColon k) st | _ \<Rightarrow> None)
   | TObjEnd \<Rightarrow> if e then (case st of FObj _ _ # st' \<Rightarrow> json_read ts (After (JObj [])) st' | _ \<Rightarrow> None) else None
   | _ \<Rightarrow> None)"
| "json_read (t # ts) (WantColon k) st = (case (t, st) of
     (TColon, FObj kvs _ # st') \<Rightarrow> json_read ts (WantValue False) (FObj kvs k # st') | _ \<Rightarrow> None)"
| "json_read (t # ts) (After v) st = (case (t, st) of
     (TComma, FArr vs # st') \<Rightarrow> json_read ts (WantValue False) (FArr (vs @ [v]) # st')
   | (TArrEnd, FArr vs # st') \<Rightarrow> json_read ts (After (JArr (vs @ [v]))) st'
   | (TComma, FObj kvs k # st') \<Rightarrow> json_read ts (WantKey False) (FObj (kvs @ [(k, v)]) [] # st')
   | (TObjEnd, FObj kvs k # st') \<Rightarrow> json_read ts (After (JObj (kvs @ [(k, v)]))) st'
   | _ \<Rightarrow> None)"

definition json_parse :: "string \<Rightarrow> json option" where
  "json_parse s = (case json_tokens s of None \<Rightarrow> None | Some ts \<Rightarrow> json_read ts (WantValue False) [])"

subsection \<open>Decoding into Go values\<close>

text \<open>
  A decoder of a field gets the field's value so far and the JSON value; \<open>None\<close> is a type
  error, after which the decoding goes on and reports the error at the end.  Keys match
  fields by simple case folding.
\<close>

fun fold_name :: "string \<Rightarrow> string" where
  "fold_name [] = []"
| "fold_name (c # cs) = (if map byte (c # take 2 cs) = [226, 132, 170] then CHR 0x6B # fold_name (drop 2 cs)
     else if map byte (c # take 1 cs) = [197, 191] then CHR 0x73 # fold_name (drop 1 cs)
     else (if 65 \<le> byte c \<and> byte c \<le> 90 then char_of (byte c + 32) else c) # fold_name cs)"

definition json_fields :: "string \<Rightarrow> (string \<times> json) list \<Rightarrow> json list" where
  "json_fields name kvs = map snd (filter (\<lambda>(k, v). fold_name k = fold_name name) kvs)"

definition float_ok :: "rat \<Rightarrow> bool" where
  "float_ok x \<longleftrightarrow> \<bar>x\<bar> < 2 ^ 1024 - 2 ^ 970"

definition read_float :: "rat \<Rightarrow> json \<Rightarrow> rat option" where
  "read_float x j = (case j of JNull \<Rightarrow> Some x | JNum n \<Rightarrow> if float_ok n then Some n else None | _ \<Rightarrow> None)"

definition read_string :: "string \<Rightarrow> json \<Rightarrow> string option" where
  "read_string x j = (case j of JNull \<Rightarrow> Some x | JStr s \<Rightarrow> Some s | _ \<Rightarrow> None)"

fun read_all :: "('a \<Rightarrow> json \<Rightarrow> 'a option) \<Rightarrow> 'a \<Rightarrow> json list \<Rightarrow> bool \<times> 'a" where
  "read_all f x [] = (True, x)"
| "read_all f x (j # js) = (case f x j of Some y \<Rightarrow> read_all f y js | None \<Rightarrow> (False, snd (read_all f x js)))"

subsection \<open>Parsing of RFC 3339 times\<close>

definition num_between :: "nat \<Rightarrow> int \<Rightarrow> int \<Rightarrow> string \<Rightarrow> (int \<times> string) option" where
  "num_between w lo hi s = (let ds = take w s; n = digits_val ds in
     if length ds = w \<and> list_all is_digit ds \<and> lo \<le> n \<and> n \<le> hi then Some (n, drop w s) else None)"

definition expect_char :: "char \<Rightarrow> string \<Rightarrow> string option" where
  "expect_char c s = (case s of d # r \<Rightarrow> if d = c then Some r else None | [] \<Rightarrow> None)"

definition month_days :: "int \<Rightarrow> int \<Rightarrow> int" where
  "month_days y m = month_lens y ! nat (m - 1)"

text \<open>The hour may have one digit, and the fraction may follow a comma, as in Go.\<close>

definition hour_at :: "string \<Rightarrow> (int \<times> string) option" where
  "hour_at s = (case num_between 2 0 23 s of Some x \<Rightarrow> Some x
     | None \<Rightarrow> if length s \<ge> 2 \<and> is_digit (s ! 1) then None else num_between 1 0 9 s)"

definition frac_at :: "string \<Rightarrow> int \<times> string" where
  "frac_at s = (case s of
     c # r \<Rightarrow> let (ds, r') = span_digits r in
       if byte c \<in> {44, 46} \<and> ds \<noteq> []
       then (digits_val (take 9 (ds @ replicate 9 (CHR 0x30))), r') else (0, s)
   | [] \<Rightarrow> (0, s))"

definition zone_at :: "string \<Rightarrow> duration option" where
  "zone_at s = (if s = ''Z'' then Some 0 else case s of
     sg # r \<Rightarrow> if byte sg \<in> {43, 45} then
         Option.bind (num_between 2 0 24 r) (\<lambda>(h, r1). Option.bind (expect_char (CHR 0x3A) r1) (\<lambda>r2.
         Option.bind (num_between 2 0 60 r2) (\<lambda>(m, r3). if r3 = [] then
           Some ((if byte sg = 45 then -1 else 1) * (h * hour + m * minute)) else None)))
       else None
   | [] \<Rightarrow> None)"

definition parse_rfc3339 :: "string \<Rightarrow> gotime option" where
  "parse_rfc3339 s =
     Option.bind (num_between 4 0 9999 s) (\<lambda>(y, s1). Option.bind (expect_char (CHR 0x2D) s1) (\<lambda>s2.
     Option.bind (num_between 2 1 12 s2) (\<lambda>(m, s3). Option.bind (expect_char (CHR 0x2D) s3) (\<lambda>s4.
     Option.bind (num_between 2 1 (month_days y m) s4) (\<lambda>(d, s5). Option.bind (expect_char (CHR 0x54) s5) (\<lambda>s6.
     Option.bind (hour_at s6) (\<lambda>(h, s7). Option.bind (expect_char (CHR 0x3A) s7) (\<lambda>s8.
     Option.bind (num_between 2 0 59 s8) (\<lambda>(mi, s9). Option.bind (expect_char (CHR 0x3A) s9) (\<lambda>s10.
     Option.bind (num_between 2 0 59 s10) (\<lambda>(sec, s11). let (ns, s12) = frac_at s11 in
     Option.bind (zone_at s12) (\<lambda>off.
       Some (date_utc y m d h + mi * minute + sec * second + ns - off)))))))))))))"

end
