(* ===== verification/SessionReply.thy ===== *)
theory SessionReply
  imports SessionStore GoJson
begin

text \<open>
  \<open>internal/upstream/session_parse.go\<close>: what the upstream answers to a session call, with the
  daily availability window a \<open>model_unavailable\<close> answer carries, and
  \<open>statusError\<close>/\<open>tableReason\<close> of \<open>internal/session/session_poll.go\<close>.
\<close>

subsection \<open>Strings\<close>

text \<open>
  \<open>strings.ToLower\<close> on ASCII letters and on the two other runes whose lower case is ASCII;
  \<open>contains_str\<close> is \<open>strings.Contains\<close>.
\<close>

fun go_lower :: "string \<Rightarrow> string" where
  "go_lower [] = []"
| "go_lower (c # cs) = (if map byte (c # take 2 cs) = [226, 132, 170] then CHR 0x6B # go_lower (drop 2 cs)
     else if map byte (c # take 1 cs) = [196, 176] then CHR 0x69 # go_lower (drop 1 cs)
     else (if 65 \<le> byte c \<and> byte c \<le> 90 then char_of (byte c + 32) else c) # go_lower cs)"

fun contains_str :: "string \<Rightarrow> string \<Rightarrow> bool" where
  "contains_str [] n = (n = [])"
| "contains_str (c # cs) n = (take (length n) (c # cs) = n \<or> contains_str cs n)"

definition hex2 :: "nat \<Rightarrow> string" where
  "hex2 n = map (\<lambda>d. if d < 10 then char_of (48 + d) else char_of (87 + d)) [n div 16, n mod 16]"

text \<open>\<open>%q\<close>; a byte of a printable rune outside ASCII stands for itself.\<close>

definition quote_byte :: "char \<Rightarrow> string" where
  "quote_byte c = (let n = byte c; esc = (\<lambda>d. [CHR 0x5C, d]) in
     if n = 34 \<or> n = 92 then esc c
     else if n = 7 then esc (CHR 0x61) else if n = 8 then esc (CHR 0x62) else if n = 12 then esc (CHR 0x66)
     else if n = 10 then esc (CHR 0x6E) else if n = 13 then esc (CHR 0x72) else if n = 9 then esc (CHR 0x74)
     else if n = 11 then esc (CHR 0x76)
     else if n < 32 \<or> n = 127 then esc (CHR 0x78) @ hex2 n else [c])"

definition quote_str :: "string \<Rightarrow> string" where
  "quote_str s = [CHR 0x22] @ concat (map quote_byte s) @ [CHR 0x22]"

subsection \<open>The availability window\<close>

record window =
  aw_start :: int
  aw_end :: int
  aw_raw :: string

fun go_atoi :: "string \<Rightarrow> int option" where
  "go_atoi s = (let neg = (s \<noteq> [] \<and> hd s = CHR 0x2D);
       ds = (if s \<noteq> [] \<and> byte (hd s) \<in> {43, 45} then tl s else s); v = digits_val ds in
     if ds = [] \<or> \<not> list_all is_digit ds then None
     else if neg then (if v \<le> 2 ^ 63 then Some (- v) else None)
     else if v < 2 ^ 63 then Some v else None)"

definition go_upper :: "string \<Rightarrow> string" where
  "go_upper s = map (\<lambda>c. if 97 \<le> byte c \<and> byte c \<le> 122 then char_of (byte c - 32) else c) s"

text \<open>The arguments are ASCII: they are groups of \<open>availableTimeRE\<close>.\<close>

definition parse_available_time :: "string \<Rightarrow> string \<Rightarrow> string \<Rightarrow> string \<Rightarrow> int option" where
  "parse_available_time hr mn mer zn = (case go_atoi hr of
     None \<Rightarrow> None
   | Some h \<Rightarrow> if h < 0 \<or> 23 < h then None
       else case (if mn = [] then Some 0 else case go_atoi mn of None \<Rightarrow> None
                    | Some m \<Rightarrow> if m < 0 \<or> 59 < m then None else Some m) of
         None \<Rightarrow> None
       | Some m \<Rightarrow>
           (case (if go_lower mer = ''am'' then Some (if h = 12 then 0 else h)
                  else if go_lower mer = ''pm'' then Some (if h < 12 then h + 12 else h)
                  else if mer = [] then Some h else None) of
              None \<Rightarrow> None
            | Some h' \<Rightarrow>
                let z = go_upper zn; t = h' * 60 + m;
                    t' = (if z = ''ET'' \<or> z = ''EST'' \<or> z = ''EDT'' then t - 180 else t)
                in Some (t' mod 1440)))"

definition pacific_loc :: "zone option \<Rightarrow> zone" where
  "pacific_loc tz = (case tz of Some z \<Rightarrow> z | None \<Rightarrow> fixed_zone (- 7 * hour))"

definition minute_of_day :: "zone \<Rightarrow> gotime \<Rightarrow> int" where
  "minute_of_day z t = local_time z t mod day div minute"

definition available_at :: "zone option \<Rightarrow> window \<Rightarrow> gotime \<Rightarrow> bool" where
  "available_at tz w now \<longleftrightarrow> (if aw_start w = aw_end w then True
     else let m = minute_of_day (pacific_loc tz) now in
       if aw_start w < aw_end w then aw_start w \<le> m \<and> m < aw_end w
       else aw_start w \<le> m \<or> m < aw_end w)"

definition next_start :: "zone option \<Rightarrow> window \<Rightarrow> gotime \<Rightarrow> gotime" where
  "next_start tz w now = (let z = pacific_loc tz; l = local_time z now; m = minute_of_day z now in
     if aw_start w = aw_end w then now
     else let start = date_local z (midnight_of (day_number l) + aw_start w * minute) in
       if m < aw_start w then start else date_local z (local_time z start + day))"

subsection \<open>Session replies\<close>

record session_state =
  ss_status :: string
  ss_instance :: string
  ss_model :: string
  ss_current_model :: string
  ss_requested_model :: string
  ss_expires :: gotime
  ss_admitted :: gotime
  ss_grace :: gotime
  ss_grace_ms :: int
  ss_position :: int
  ss_depth :: int
  ss_wait_ms :: int
  ss_poll_at :: gotime
  ss_country :: string
  ss_block_reason :: string
  ss_signals :: "string list"
  ss_active :: int
  ss_limit :: rat
  ss_recent :: rat
  ss_reset_at :: gotime
  ss_resumes_at :: gotime
  ss_retry_ms :: int
  ss_hours :: string
  ss_message :: string
  ss_window :: "window option"
  ss_promo :: string
  ss_quota :: "(string \<times> model_quota) list option"
  ss_standing :: "standing option"

definition blank_state :: "string \<Rightarrow> session_state" where
  "blank_state st = \<lparr>ss_status = st, ss_instance = [], ss_model = [], ss_current_model = [], ss_requested_model = [],
     ss_expires = zero_time, ss_admitted = zero_time, ss_grace = zero_time, ss_grace_ms = 0, ss_position = 0,
     ss_depth = 0, ss_wait_ms = 0, ss_poll_at = zero_time, ss_country = [], ss_block_reason = [], ss_signals = [],
     ss_active = 0, ss_limit = 0, ss_recent = 0, ss_reset_at = zero_time, ss_resumes_at = zero_time,
     ss_retry_ms = 0, ss_hours = [], ss_message = [], ss_window = None, ss_promo = [], ss_quota = None,
     ss_standing = None\<rparr>"

definition table_reason :: "string \<Rightarrow> string" where
  "table_reason st = (if st = ''superseded'' then ''superseded'' else ''ended'')"

definition retry_or_minute :: "int \<Rightarrow> duration" where
  "retry_or_minute ms = (let d = cooldown_from_millis (of_int ms) in if d \<le> 0 then minute else d)"

definition unknown_status :: "string \<Rightarrow> gerr" where
  "unknown_status st = EText (''session: unknown upstream status '' @ quote_str st)"

definition status_error :: "string \<Rightarrow> session_state \<Rightarrow> gerr option" where
  "status_error status st =
     (if status = ''banned'' then Some (EBan \<lparr>ban_resumes_at = ss_resumes_at st, ban_body = ss_message st\<rparr>)
      else if status = ''country_blocked'' then
        Some (ECountry \<lparr>cb_code = ss_country st, cb_reason = ss_block_reason st, cb_signals = ss_signals st\<rparr>)
      else if status = ''rate_limited'' \<or> status = ''spend_limited'' then
        Some (ERate \<lparr>rl_status = status, rl_model = ss_model st, rl_retry_after = retry_or_minute (ss_retry_ms st),
          rl_limit = ss_limit st, rl_recent = ss_recent st, rl_reset_at = ss_reset_at st, rl_period = [],
          rl_window = [], rl_body = ss_message st\<rparr>)
      else if status = ''ip_capped'' then
        Some (EIpCapped \<lparr>ic_active = ss_active st, ic_limit = ss_limit st,
          ic_retry_after = retry_or_minute (ss_retry_ms st), ic_body = ss_message st\<rparr>)
      else if status = ''session_model_mismatch'' \<or> status = ''limited_ip'' then
        Some (if contains_str (go_lower (ss_message st)) ''limited''
          then ELimitedIp \<lparr>li_model = [], li_retry_after = cooldown_from_millis (of_int (ss_retry_ms st)),
                 li_body = ss_message st\<rparr>
          else unknown_status status)
      else None)"

text \<open>The statuses \<open>refresh\<close> hands to \<open>statusError\<close> are those it answers.\<close>

definition refused_status :: "string \<Rightarrow> bool" where
  "refused_status st \<longleftrightarrow> st \<in> {''banned'', ''country_blocked'', ''rate_limited'', ''ip_capped'', ''spend_limited'',
     ''session_model_mismatch'', ''limited_ip''}"

lemma status_error_refused: "status_error s st \<noteq> None \<longleftrightarrow> refused_status s"
  by (simp add: status_error_def refused_status_def)

end
