(* ===== verification/SessionModel.thy ===== *)
theory SessionModel
  imports SessionReply
begin

text \<open>
  \<open>internal/session\<close>: the upstream session of one token (\<open>session.go\<close>, \<open>session_admission.go\<close>,
  \<open>session_poll.go\<close>, \<open>grace.go\<close>, \<open>model_unavailable.go\<close>, \<open>session_model_locked.go\<close>).

  As in \<open>RunModel\<close> the code is cut where it releases the manager's mutex or calls the
  store or the upstream: each \<open>stask\<close> is one such section and \<open>sexec\<close> runs it, returning the
  tasks that continue the goroutine, the goroutines it starts and the new state; \<open>None\<close> is a
  task that has to wait.  A refresh knows on whose behalf it runs: \<open>Caller n model\<close> is attempt
  \<open>n\<close> of \<open>EnsureSessionForModel\<close>, \<open>Background model\<close> the pre-emptive re-admit.

  \<open>sm_log\<close> is a ghost: the upstream calls, the pre-emptive triggers, the storm summaries and
  the results of \<open>EnsureSessionForModel\<close>, newest first.  \<open>sm_panic\<close> is a ghost too: a step in
  which the code would dereference nil or close a nil or closed channel sets it and leaves the
  goroutine where it is.
\<close>

definition expiry_margin :: duration where "expiry_margin = 5 * second"
definition grace_window :: duration where "grace_window = 30 * minute"
definition max_refresh_iterations :: nat where "max_refresh_iterations = 5"
definition max_outer_iterations :: nat where "max_outer_iterations = 10"
definition fallback_model :: string where "fallback_model = ''deepseek/deepseek-v4-flash''"
definition glm_model :: string where "glm_model = ''z-ai/glm-5.2''"
definition storm_window :: duration where "storm_window = 60 * second"
definition storm_threshold :: nat where "storm_threshold = 3"

record cli_owner =
  co_instance :: string
  co_pid :: int

record cli_adoption =
  ad_enabled :: bool
  ad_file :: string
  ad_initial :: cli_owner

datatype slog =
    LCreate string
  | LGet string
  | LProbe
  | LEnd
  | LTrigger gotime
  | LStorm gotime int int
  | LEnsured string "string + gerr"

record smanager =
  sm_store :: "store option"
  sm_key :: string
  sm_state :: "cached option"
  sm_ch :: "ptr option"
  sm_next_ch :: ptr
  sm_done :: "ptr list"
  sm_refreshing :: bool
  sm_err :: "gerr option"
  sm_lead :: duration
  sm_expiry :: gotime
  sm_probe_ttl :: duration
  sm_admitted :: gotime
  sm_unavail_ttl :: duration
  sm_unavail :: "(string \<times> gotime \<times> string) list"
  sm_quota :: "(string \<times> model_quota) list option"
  sm_promo :: string
  sm_adopt :: "cli_adoption option"
  sm_scarce :: "string list"
  sm_events :: "(gotime \<times> string) list"
  sm_triggers :: "gotime list"
  sm_storm :: gotime
  sm_locked :: "(string \<times> (string \<times> int) list) list"
  sm_log :: "slog list"
  sm_panic :: bool

definition new_manager :: "string \<Rightarrow> store option \<Rightarrow> smanager" where
  "new_manager k st = \<lparr>sm_store = st, sm_key = k, sm_state = None, sm_ch = None, sm_next_ch = 0, sm_done = [],
     sm_refreshing = False, sm_err = None, sm_lead = 0, sm_expiry = zero_time, sm_probe_ttl = 0,
     sm_admitted = zero_time, sm_unavail_ttl = 0, sm_unavail = [], sm_quota = None, sm_promo = [],
     sm_adopt = None, sm_scarce = [], sm_events = [], sm_triggers = [], sm_storm = zero_time, sm_locked = [],
     sm_log = [], sm_panic = False\<rparr>"

subsection \<open>Usability of a cached session\<close>

definition grace_ends_at :: "cached \<Rightarrow> gotime" where
  "grace_ends_at s = (if is_zero (cs_grace s) \<and> \<not> is_zero (cs_expires s) then cs_expires s + grace_window
     else cs_grace s)"

definition session_usable :: "gotime \<Rightarrow> cached \<Rightarrow> bool" where
  "session_usable now s \<longleftrightarrow> (if cs_instance s = [] then False
     else if cs_status s = ''active'' \<and> now < cs_expires s - expiry_margin then True
     else \<not> is_zero (grace_ends_at s) \<and> now < grace_ends_at s)"

definition re_admit_due :: "cached \<Rightarrow> duration \<Rightarrow> gotime \<Rightarrow> bool" where
  "re_admit_due s lead now \<longleftrightarrow> (if cs_instance s = [] then False
     else let lead_end = cs_expires s - expiry_margin in
       if cs_status s = ''active'' \<and> 0 < lead \<and> now < lead_end \<and> tsub lead_end now \<le> lead then True
       else \<not> is_zero (grace_ends_at s) \<and> lead_end \<le> now \<and> now < grace_ends_at s)"

definition model_fits :: "string \<Rightarrow> cached \<Rightarrow> bool" where
  "model_fits model s \<longleftrightarrow> model = [] \<or> cs_model s = [] \<or> cs_model s = model"

subsection \<open>Committing a state\<close>

definition saved_quota_after :: "smanager \<Rightarrow> (string \<times> model_quota) list option" where
  "saved_quota_after m = (case sm_state m of Some s \<Rightarrow> (if cs_quota s \<noteq> None then cs_quota s else sm_quota m)
     | None \<Rightarrow> sm_quota m)"

definition saved_promo_after :: "smanager \<Rightarrow> string" where
  "saved_promo_after m = (case sm_state m of Some s \<Rightarrow> (if cs_promo s \<noteq> [] then cs_promo s else sm_promo m)
     | None \<Rightarrow> sm_promo m)"

definition with_saved :: "smanager \<Rightarrow> cached \<Rightarrow> cached" where
  "with_saved m c = c\<lparr>cs_quota := (if cs_quota c = None then saved_quota_after m else cs_quota c),
     cs_promo := (if cs_promo c = [] then saved_promo_after m else cs_promo c)\<rparr>"

definition state_instance :: "smanager \<Rightarrow> string" where
  "state_instance m = (case sm_state m of None \<Rightarrow> [] | Some s \<Rightarrow> cs_instance s)"

definition commit :: "cached option \<Rightarrow> smanager \<Rightarrow> smanager" where
  "commit co m = (let cs = map_option (with_saved m) co in
     m\<lparr>sm_quota := saved_quota_after m, sm_promo := saved_promo_after m, sm_state := cs,
       sm_store := (case sm_store m of None \<Rightarrow> None
         | Some s \<Rightarrow> Some (if sm_key m = [] then s
             else case cs of None \<Rightarrow> store_remove (sm_key m) (state_instance m) s
               | Some c \<Rightarrow> store_save (sm_key m) (Some c) s))\<rparr>)"

text \<open>Drop the cached session when it is still the given instance.\<close>

definition drop_instance :: "string \<Rightarrow> smanager \<Rightarrow> bool \<times> smanager" where
  "drop_instance i m = (case sm_state m of
     Some s \<Rightarrow> if cs_instance s = i then (True, commit None m) else (False, m)
   | None \<Rightarrow> (False, m))"

subsection \<open>The re-admit storm detector\<close>

definition recent :: "gotime \<Rightarrow> gotime \<Rightarrow> bool" where
  "recent now t \<longleftrightarrow> now - storm_window < t"

definition record_trigger :: "gotime \<Rightarrow> smanager \<Rightarrow> smanager" where
  "record_trigger now m = m\<lparr>sm_triggers := filter (recent now) (sm_triggers m @ [now])\<rparr>"

definition record_invalidation :: "string \<Rightarrow> gotime \<Rightarrow> smanager \<Rightarrow> smanager" where
  "record_invalidation reason now m =
     (let m1 = m\<lparr>sm_events := filter (\<lambda>(t, r). recent now t) (sm_events m @ [(now, reason)]),
                 sm_triggers := filter (recent now) (sm_triggers m)\<rparr>
      in if length (sm_events m1) \<le> storm_threshold \<or>
            (\<not> is_zero (sm_storm m1) \<and> tsub now (sm_storm m1) < storm_window) then m1
         else m1\<lparr>sm_storm := now,
           sm_log := LStorm now (int (length (filter (\<lambda>(t, r). r = ''superseded'') (sm_events m1))))
             (int (length (sm_triggers m1))) # sm_log m1\<rparr>)"

subsection \<open>Refused models\<close>

definition record_model_unavailable ::
    "zone option \<Rightarrow> gotime \<Rightarrow> string \<Rightarrow> window option \<Rightarrow> string \<Rightarrow> smanager \<Rightarrow> smanager" where
  "record_model_unavailable tz now model w raw m = (if sm_unavail_ttl m \<le> 0 \<or> model = [] then m
     else let until = now + sm_unavail_ttl m;
              until' = (case w of None \<Rightarrow> until
                | Some aw \<Rightarrow> if available_at tz aw now then until
                    else let nx = next_start tz aw now in if now < nx \<and> nx < until then nx else until)
          in m\<lparr>sm_unavail := filter (\<lambda>(k, t, r). now < t \<or> k = model)
               (AList.update model (until', raw) (sm_unavail m))\<rparr>)"

definition model_unavailable_until :: "string \<Rightarrow> gotime \<Rightarrow> smanager \<Rightarrow> gotime option" where
  "model_unavailable_until model now m = (if model = [] \<or> model = fallback_model then None
     else case map_of (sm_unavail m) model of
       Some (t, r) \<Rightarrow> if now < t then Some t else None
     | None \<Rightarrow> None)"

definition record_model_lock :: "string \<Rightarrow> string \<Rightarrow> smanager \<Rightarrow> smanager" where
  "record_model_lock a b m = (let tos = (case map_of (sm_locked m) a of None \<Rightarrow> [] | Some t \<Rightarrow> t);
       n = (case map_of tos b of None \<Rightarrow> 0 | Some k \<Rightarrow> k)
     in m\<lparr>sm_locked := AList.update a (AList.update b (n + 1) tos) (sm_locked m)\<rparr>)"

subsection \<open>The entitlement to the referral model\<close>

definition promo_entitles :: "gotime \<Rightarrow> string \<Rightarrow> bool" where
  "promo_entitles now promo = (case json_parse promo of
     Some (JObj kvs) \<Rightarrow>
       let (ok1, n) = read_all read_float 0 (json_fields ''dailySessions'' kvs);
           (ok2, e) = read_all read_string [] (json_fields ''endsAt'' kvs)
       in ok1 \<and> ok2 \<and> 0 < n \<and>
          (e = [] \<or> (case parse_rfc3339 e of None \<Rightarrow> True | Some t \<Rightarrow> now < t))
   | _ \<Rightarrow> False)"

definition quota_entitles :: "gotime \<Rightarrow> (string \<times> model_quota) list option \<Rightarrow> bool" where
  "quota_entitles now q = (case q of None \<Rightarrow> False | Some qs \<Rightarrow>
     (case map_of qs glm_model of None \<Rightarrow> False
      | Some mq \<Rightarrow> 0 < mq_limit mq \<and>
          (mq_recent mq < mq_limit mq \<or> (\<not> is_zero (mq_reset_at mq) \<and> mq_reset_at mq < now))))"

definition has_glm_entitlement :: "gotime \<Rightarrow> smanager \<Rightarrow> bool" where
  "has_glm_entitlement now m \<longleftrightarrow> quota_entitles now (saved_quota_after m) \<or>
     (saved_promo_after m \<noteq> [] \<and> promo_entitles now (saved_promo_after m))"

definition update_quota :: "session_state \<Rightarrow> smanager \<Rightarrow> smanager" where
  "update_quota st m =
     (let m1 = (if ss_promo st = [] then m
                else m\<lparr>sm_promo := ss_promo st, sm_state := map_option (\<lambda>s. s\<lparr>cs_promo := ss_promo st\<rparr>) (sm_state m)\<rparr>)
      in case ss_quota st of
           Some q \<Rightarrow> if q = [] then m1
             else m1\<lparr>sm_quota := Some q, sm_state := map_option (\<lambda>s. s\<lparr>cs_quota := Some q\<rparr>) (sm_state m1)\<rparr>
         | None \<Rightarrow> m1)"

subsection \<open>Tasks\<close>

datatype who = Caller nat string | Background string

datatype stask =
    SEnsure nat string
  | SPark nat string "ptr option"
  | SWoken nat string
  | SRecheck string gerr
  | STrigger string string
  | SAfter nat string
  | SSkip who
  | SSkipTo who
  | SLoop who nat string
  | SGet who nat string string
  | SPersisted who nat string
  | SStored who nat string string
  | SResume who nat string string
  | SAdopt who nat string "string option"
  | SOwner who nat string "string option" cli_adoption
  | SOwnerGet who nat string "string option" string
  | SCreate who nat string "string option"
  | SProbe who nat string "string option"
  | SGuard who nat string "string option" session_state
  | SGuard2 who nat string "string option"
  | SPost who nat string "string option"
  | SReply who nat string "string option" session_state
  | SFail who "string option" gerr
  | SUnavailable string "window option" string
  | SDrop
  | SLocked string string
  | SDelete
  | SRefEnd who "gerr option"
  | SInvalid string
  | SPoll
  | SPollGet string
  | SPollSeen string session_state
  | SPolled string session_state
  | SPollFail string gerr
  | SInvalidate string
  | SInvalidateInstance string string
  | SClearQueued
  | SUpdateQuota session_state
  | SEndSession
  | SShutdown

record senv =
  sv_now :: gotime
  sv_ctx :: "gerr option"
  sv_reply :: "session_state + gerr"
  sv_owner :: "cli_owner option"
  sv_alive :: bool
  sv_zone :: "zone option"
  sv_pick :: bool

type_synonym sstep = "stask list \<times> stask list \<times> smanager"

definition logged :: "slog \<Rightarrow> smanager \<Rightarrow> smanager" where
  "logged l m = m\<lparr>sm_log := l # sm_log m\<rparr>"

definition ensured :: "string \<Rightarrow> string + gerr \<Rightarrow> smanager \<Rightarrow> sstep" where
  "ensured model r m = ([], [], logged (LEnsured model r) m)"

definition waiting_for :: "cached \<Rightarrow> gotime \<Rightarrow> gerr" where
  "waiting_for s now = ESessWaiting \<lparr>sw_position = cs_position s, sw_queue_depth = cs_depth s,
     sw_retry_after = tsub (cs_poll_at s) now\<rparr>"

definition not_ready :: gerr where
  "not_ready = EText ''session: not ready after repeated refreshes''"

definition open_flight :: "smanager \<Rightarrow> smanager" where
  "open_flight m = m\<lparr>sm_refreshing := True, sm_err := None, sm_ch := Some (sm_next_ch m),
     sm_next_ch := sm_next_ch m + 1\<rparr>"

end
