(* ===== verification/SessionSteps.thy ===== *)
theory SessionSteps
  imports SessionModel
begin

text \<open>
  The sections of the session manager: \<open>EnsureSessionForModel\<close>, \<open>refresh\<close> with its create and
  resume paths, \<open>Poll\<close>, the invalidations, \<open>EndSession\<close> and \<open>Shutdown\<close>, and the step relation that
  interleaves them.
\<close>

subsection \<open>EnsureSessionForModel\<close>

text \<open>The refresh, or the wait for the one in flight.\<close>

definition ensure_refresh :: "nat \<Rightarrow> string \<Rightarrow> smanager \<Rightarrow> sstep" where
  "ensure_refresh n model m = (if sm_refreshing m then ([SPark n model (sm_ch m)], [], m)
     else ([SSkip (Caller n model)], [], open_flight m))"

definition ensure_ride :: "senv \<Rightarrow> string \<Rightarrow> cached \<Rightarrow> smanager \<Rightarrow> sstep" where
  "ensure_ride e model s m =
     (if 0 < sm_lead m \<and> sm_expiry m \<noteq> cs_expires s \<and> re_admit_due s (sm_lead m) (sv_now e)
      then ([STrigger model (cs_instance s)], [SSkip (Background model)],
            logged (LTrigger (cs_expires s)) (open_flight (m\<lparr>sm_expiry := cs_expires s\<rparr>)))
      else ensured model (Inl (cs_instance s)) m)"

definition ensure :: "senv \<Rightarrow> nat \<Rightarrow> string \<Rightarrow> smanager \<Rightarrow> sstep" where
  "ensure e n model m = (if max_outer_iterations \<le> n then ensured model (Inr not_ready) m
     else case sv_ctx e of Some err \<Rightarrow> ensured model (Inr err) m | None \<Rightarrow>
       (case sm_state m of None \<Rightarrow> ensure_refresh n model m
        | Some s \<Rightarrow>
            if sm_refreshing m then ensure_refresh n model m
            else if cs_status s = ''active'' \<or> cs_status s = ''ended'' then
              (if model_fits model s \<and> session_usable (sv_now e) s then ensure_ride e model s m
               else ensure_refresh n model m)
            else if cs_status s = ''disabled'' then ensured model (Inl []) m
            else if cs_status s = ''queued'' \<and> sv_now e < cs_poll_at s
              then ensured model (Inr (waiting_for s (sv_now e))) m
            else ensure_refresh n model m))"

definition park :: "senv \<Rightarrow> nat \<Rightarrow> string \<Rightarrow> ptr option \<Rightarrow> smanager \<Rightarrow> sstep option" where
  "park e n model ch m = (let ready = (case ch of None \<Rightarrow> False | Some c \<Rightarrow> c \<in> set (sm_done m)) in
     if ready \<and> \<not> (sv_ctx e \<noteq> None \<and> sv_pick e) then Some ([SWoken n model], [], m)
     else case sv_ctx e of Some err \<Rightarrow> Some (ensured model (Inr err) m) | None \<Rightarrow> None)"

definition woken :: "senv \<Rightarrow> nat \<Rightarrow> string \<Rightarrow> smanager \<Rightarrow> sstep" where
  "woken e n model m = (case sm_err m of
     None \<Rightarrow> ([SEnsure (n + 1) model], [], m)
   | Some err \<Rightarrow> if err_ctx err \<and> sv_ctx e = None then ([SEnsure (n + 1) model], [], m)
       else ([SRecheck model err], [], m))"

definition recheck :: "senv \<Rightarrow> string \<Rightarrow> gerr \<Rightarrow> smanager \<Rightarrow> sstep" where
  "recheck e model err m = (case sm_state m of
     None \<Rightarrow> ensured model (Inr err) m
   | Some s \<Rightarrow> if cs_status s = ''queued'' \<and> sv_now e < cs_poll_at s
         then ensured model (Inr (waiting_for s (sv_now e))) m
       else if session_usable (sv_now e) s then ensured model (Inl (cs_instance s)) m
       else ensured model (Inr err) m)"

definition after_refresh :: "senv \<Rightarrow> nat \<Rightarrow> string \<Rightarrow> smanager \<Rightarrow> sstep" where
  "after_refresh e n model m = (let again = ([SEnsure (n + 1) model], [], m) in
     case sm_state m of
       None \<Rightarrow> again
     | Some s \<Rightarrow> if cs_status s = ''active'' then ensured model (Inl (cs_instance s)) m
         else if cs_status s = ''disabled'' then ensured model (Inl []) m
         else if cs_status s = ''queued'' \<and> sv_now e < cs_poll_at s
           then ensured model (Inr (waiting_for s (sv_now e))) m
         else again)"

text \<open>The end of a refresh: \<open>close(m.refreshCh)\<close> panics on a nil or closed channel.\<close>

definition end_refresh :: "who \<Rightarrow> gerr option \<Rightarrow> smanager \<Rightarrow> sstep" where
  "end_refresh w eo m = (let m1 = m\<lparr>sm_refreshing := False, sm_err := (if eo = None then sm_err m else eo)\<rparr> in
     case sm_ch m of
       None \<Rightarrow> ([SRefEnd w eo], [], m\<lparr>sm_panic := True\<rparr>)
     | Some c \<Rightarrow> if c \<in> set (sm_done m) then ([SRefEnd w eo], [], m\<lparr>sm_panic := True\<rparr>)
         else let m2 = m1\<lparr>sm_done := c # sm_done m, sm_ch := None\<rparr> in
           (case w of
              Background model \<Rightarrow> ([], [], m2)
            | Caller n model \<Rightarrow> (case eo of Some err \<Rightarrow> ensured model (Inr err) m2
                | None \<Rightarrow> ([SAfter n model], [], m2))))"

subsection \<open>The refresh loop\<close>

definition who_model :: "who \<Rightarrow> string" where
  "who_model w = (case w of Caller n model \<Rightarrow> model | Background model \<Rightarrow> model)"

definition preemptive :: "who \<Rightarrow> bool" where
  "preemptive w = (case w of Caller n model \<Rightarrow> False | Background model \<Rightarrow> True)"

definition skip_check :: "senv \<Rightarrow> who \<Rightarrow> smanager \<Rightarrow> sstep" where
  "skip_check e w m = (case model_unavailable_until (who_model w) (sv_now e) m of
     None \<Rightarrow> ([SLoop w 0 (who_model w)], [], m) | Some t \<Rightarrow> ([SSkipTo w], [], m))"

definition skip_to_fallback :: "senv \<Rightarrow> who \<Rightarrow> smanager \<Rightarrow> sstep" where
  "skip_to_fallback e w m =
     (if (case sm_state m of None \<Rightarrow> False
          | Some s \<Rightarrow> cs_model s = fallback_model \<and> session_usable (sv_now e) s)
      then ([SRefEnd w None], [], m) else ([SLoop w 0 fallback_model], [], commit None m))"

definition budget_exhausted :: gerr where
  "budget_exhausted = EText ''session: refresh iteration budget exhausted''"

definition refresh_loop :: "senv \<Rightarrow> who \<Rightarrow> nat \<Rightarrow> string \<Rightarrow> smanager \<Rightarrow> sstep" where
  "refresh_loop e w i t m = (if max_refresh_iterations \<le> i then ([SRefEnd w (Some budget_exhausted)], [], m)
     else case sv_ctx e of Some err \<Rightarrow> ([SRefEnd w (Some err)], [], m) | None \<Rightarrow>
       (case sm_state m of
          None \<Rightarrow> ([SPersisted w i t], [], m)
        | Some s \<Rightarrow> if cs_status s = ''queued'' \<and> cs_instance s \<noteq> []
            then ([SGet w i t (cs_instance s)], [], m) else ([SAdopt w i t (Some (cs_instance s))], [], m)))"

definition queued_get :: "senv \<Rightarrow> who \<Rightarrow> nat \<Rightarrow> string \<Rightarrow> string \<Rightarrow> smanager \<Rightarrow> sstep" where
  "queued_get e w i t inst m = (case sv_reply e of
     Inl st \<Rightarrow> ([SReply w i t (Some inst) st], [], logged (LGet inst) m)
   | Inr err \<Rightarrow> ([SFail w (Some inst) err], [], logged (LGet inst) m))"

text \<open>\<open>pollPersisted\<close>: the store read with the checks before the poll, and the poll.\<close>

definition load_persisted :: "senv \<Rightarrow> who \<Rightarrow> nat \<Rightarrow> string \<Rightarrow> smanager \<Rightarrow> sstep" where
  "load_persisted e w i t m = (case sm_store m of
     None \<Rightarrow> ([SAdopt w i t None], [], m)
   | Some s \<Rightarrow> if sm_key m = [] then ([SAdopt w i t None], [], m)
       else let (co, s') = store_load (sm_key m) (sv_now e) s; m' = m\<lparr>sm_store := Some s'\<rparr> in
         case co of
           None \<Rightarrow> ([SAdopt w i t None], [], m')
         | Some c \<Rightarrow>
             if cs_status c \<noteq> ''active'' \<or> cs_instance c = [] then ([SAdopt w i t None], [], m')
             else if is_zero (cs_expires c) \<or> \<not> sv_now e < cs_expires c - expiry_margin
               then ([SStored w i t (cs_instance c)], [], m')
             else if cs_model c \<noteq> [] \<and> t \<noteq> [] \<and> cs_model c \<noteq> t then ([SStored w i t (cs_instance c)], [], m')
             else ([SResume w i t (cs_instance c)], [], m'))"

definition drop_stored :: "who \<Rightarrow> nat \<Rightarrow> string \<Rightarrow> string \<Rightarrow> smanager \<Rightarrow> sstep" where
  "drop_stored w i t inst m = ([SAdopt w i t None], [],
     m\<lparr>sm_store := map_option (store_remove (sm_key m) inst) (sm_store m)\<rparr>)"

definition resume_persisted :: "senv \<Rightarrow> who \<Rightarrow> nat \<Rightarrow> string \<Rightarrow> string \<Rightarrow> smanager \<Rightarrow> sstep" where
  "resume_persisted e w i t inst m0 = (let m = logged (LGet inst) m0 in case sv_reply e of
     Inr err \<Rightarrow> ([SFail w None err], [], m)
   | Inl st \<Rightarrow>
       if ss_status st = ''active'' then
         (if ss_model st \<noteq> [] \<and> t \<noteq> [] \<and> ss_model st \<noteq> t then ([SStored w i t (ss_instance st)], [], m)
          else ([SReply w i t None st], [], m))
       else if ss_status st \<in> {''ended'', ''superseded'', ''none'', ''banned'', ''country_blocked'', ''rate_limited'',
                 ''ip_capped'', ''spend_limited''} then ([SStored w i t (ss_instance st)], [], m)
       else ([SAdopt w i t None], [], m))"

subsection \<open>Creating a session\<close>

text \<open>
  The CLI-session mode reads the owner file of the official client and never competes with
  its live session.  \<open>TrimSpace\<close> on the ASCII white space.
\<close>

definition trim_space :: "string \<Rightarrow> string" where
  "trim_space s = (let sp = (\<lambda>c. byte c \<in> {9, 10, 11, 12, 13, 32})
     in rev (dropWhile sp (rev (dropWhile sp s))))"

definition em_dash :: string where "em_dash = [CHR 0x20, CHR 0xE2, CHR 0x80, CHR 0x94, CHR 0x20]"

definition short_instance :: "string \<Rightarrow> string" where
  "short_instance i = (if 8 < length i then take 8 i @ [CHR 0xE2, CHR 0x80, CHR 0xA6] else i)"

definition refusing :: "string \<Rightarrow> string \<Rightarrow> gerr" where
  "refusing why hint = EText (''ADOPT_CLI_SESSION: '' @ why @ em_dash @ ''refusing to create a competing session ('' @
     hint @ '')'')"

definition adopt_or_create :: "who \<Rightarrow> nat \<Rightarrow> string \<Rightarrow> string option \<Rightarrow> smanager \<Rightarrow> sstep" where
  "adopt_or_create w i t c m = (case sm_adopt m of
     Some a \<Rightarrow> if ad_enabled a then ([SOwner w i t c a], [], m) else ([SCreate w i t c], [], m)
   | None \<Rightarrow> ([SCreate w i t c], [], m))"

definition adopt_owner :: "senv \<Rightarrow> smanager \<Rightarrow> cli_owner option" where
  "adopt_owner e m = (case sm_adopt m of None \<Rightarrow> None
     | Some a \<Rightarrow> if \<not> ad_enabled a then None
         else map_option (\<lambda>ow. if co_instance ow = [] \<and> co_pid ow = 0 then ad_initial a else ow) (sv_owner e))"

definition check_owner :: "senv \<Rightarrow> who \<Rightarrow> nat \<Rightarrow> string \<Rightarrow> string option \<Rightarrow> cli_adoption \<Rightarrow> smanager \<Rightarrow> sstep" where
  "check_owner e w i t c a m = (case adopt_owner e m of
     None \<Rightarrow> ([SFail w c (refusing (''freebuff-instance-owner.json missing ('' @ ad_file a @ '')'')
                ''start the CLI once or disable ADOPT_CLI_SESSION'')], [], m)
   | Some ow \<Rightarrow>
       if co_pid ow \<le> 0 \<or> \<not> sv_alive e then ([SCreate w i t c], [], m)
       else if co_instance ow = [] then
         ([SFail w c (refusing ''the FreeBuff CLI is running but no session instance was recorded''
             ''stop the CLI or retry'')], [], m)
       else ([SOwnerGet w i t c (co_instance ow)], [], m))"

definition queue_wait :: "session_state \<Rightarrow> duration" where
  "queue_wait st = (let d = dur_mul (ss_wait_ms st) millisecond; d1 = (if d < second then second else d)
     in if 5 * second < d1 then 5 * second else d1)"

definition adopt_reply :: "senv \<Rightarrow> who \<Rightarrow> nat \<Rightarrow> string \<Rightarrow> string option \<Rightarrow> string \<Rightarrow> smanager \<Rightarrow> sstep" where
  "adopt_reply e w i t c inst m0 = (let m = logged (LGet inst) m0 in case sv_reply e of
     Inr err \<Rightarrow> ([SFail w c (refusing (''CLI session '' @ short_instance inst @ '' could not be verified ('' @
                 err_text err @ '')'') ''stop the CLI or retry'')], [], m)
   | Inl st \<Rightarrow> (let status = trim_space (ss_status st) in
       if status = ''active'' then
         (if t \<noteq> [] \<and> ss_model st \<noteq> [] \<and> ss_model st \<noteq> t then
            ([SFail w c (refusing (''the CLI session is for model '' @ ss_model st @ '' but '' @ t @ '' was requested'')
                (''use '' @ ss_model st @ '' or stop the CLI''))], [], m)
          else ([SReply w i t c st], [], m))
       else if status = ''queued'' then
         ([SReply w i t c (if is_zero (ss_poll_at st) then st\<lparr>ss_poll_at := sv_now e + queue_wait st\<rparr> else st)], [], m)
       else if status = ''disabled'' then ([SReply w i t c st], [], m)
       else ([SFail w c (refusing (''CLI session '' @ short_instance inst @ '' is not adoptable (status '' @
                 quote_str status @ '')'') ''restart the CLI or stop it'')], [], m)))"

definition create_guard :: "senv \<Rightarrow> who \<Rightarrow> nat \<Rightarrow> string \<Rightarrow> string option \<Rightarrow> smanager \<Rightarrow> sstep" where
  "create_guard e w i t c m = ((if t = glm_model \<and> \<not> has_glm_entitlement (sv_now e) m
     then [SProbe w i t c] else [SPost w i t c]), [], m)"

definition probe_account :: "senv \<Rightarrow> who \<Rightarrow> nat \<Rightarrow> string \<Rightarrow> string option \<Rightarrow> smanager \<Rightarrow> sstep" where
  "probe_account e w i t c m = (case sv_reply e of
     Inl st \<Rightarrow> ([SGuard w i t c st], [], logged LProbe m)
   | Inr err \<Rightarrow> ([SGuard2 w i t c], [], logged LProbe m))"

definition refuse_unentitled :: "senv \<Rightarrow> who \<Rightarrow> nat \<Rightarrow> string \<Rightarrow> string option \<Rightarrow> smanager \<Rightarrow> sstep" where
  "refuse_unentitled e w i t c m = ((if has_glm_entitlement (sv_now e) m then [SPost w i t c]
     else [SFail w c (ERate \<lparr>rl_status = ''rate_limited'', rl_model = t, rl_retry_after = 0, rl_limit = 0,
             rl_recent = 0, rl_reset_at = zero_time, rl_period = [], rl_window = [],
             rl_body = ''token has no referral quota for '' @ t\<rparr>)]), [], m)"

fun tag_model :: "string \<Rightarrow> gerr \<Rightarrow> gerr" where
  "tag_model t (ERate r) = ERate (if rl_model r = [] then r\<lparr>rl_model := t\<rparr> else r)"
| "tag_model t (EPrefix p e) = EPrefix p (tag_model t e)"
| "tag_model t e = e"

definition post_session :: "senv \<Rightarrow> who \<Rightarrow> nat \<Rightarrow> string \<Rightarrow> string option \<Rightarrow> smanager \<Rightarrow> sstep" where
  "post_session e w i t c m = (case sv_reply e of
     Inl st \<Rightarrow> ([SReply w i t c st], [], logged (LCreate t) m)
   | Inr err \<Rightarrow> ([SFail w c (tag_model t err)], [], logged (LCreate t) m))"

subsection \<open>What a reply of the loop does\<close>

text \<open>
  A 428 ends the session of a queued row.  The code reads \<open>cached.instanceID\<close> there, which
  panics when there was no cached row and one has appeared since.
\<close>

definition refresh_failed :: "who \<Rightarrow> string option \<Rightarrow> gerr \<Rightarrow> smanager \<Rightarrow> sstep" where
  "refresh_failed w c err m = (if \<not> err_is err ErrWaitingRoomRequired then ([SRefEnd w (Some err)], [], m)
     else case (sm_state m, c) of
       (None, _) \<Rightarrow> ([SRefEnd w (Some err)], [], m)
     | (Some s, None) \<Rightarrow> ([SFail w c err], [], m\<lparr>sm_panic := True\<rparr>)
     | (Some s, Some inst) \<Rightarrow> (case drop_instance inst m of
         (True, m') \<Rightarrow> ([SInvalid ''poll'', SRefEnd w (Some err)], [], m')
       | (False, m') \<Rightarrow> ([SRefEnd w (Some err)], [], m')))"

definition blank_cached :: "string \<Rightarrow> cached" where
  "blank_cached st = \<lparr>cs_status = st, cs_instance = [], cs_model = [], cs_expires = zero_time, cs_grace = zero_time,
     cs_position = 0, cs_depth = 0, cs_poll_at = zero_time, cs_country = [], cs_block_reason = [], cs_signals = [],
     cs_active = 0, cs_limit = 0, cs_quota = None, cs_promo = [], cs_standing = None\<rparr>"

definition active_row :: "string \<Rightarrow> session_state \<Rightarrow> cached" where
  "active_row t st = (blank_cached ''active'')\<lparr>cs_instance := ss_instance st,
     cs_model := (if ss_model st = [] then t else ss_model st), cs_expires := ss_expires st,
     cs_grace := ss_expires st + grace_window, cs_country := ss_country st, cs_block_reason := ss_block_reason st,
     cs_active := ss_active st, cs_signals := ss_signals st, cs_limit := ss_limit st, cs_quota := ss_quota st,
     cs_promo := ss_promo st, cs_standing := ss_standing st\<rparr>"

definition queued_row :: "gotime \<Rightarrow> string \<Rightarrow> session_state \<Rightarrow> cached" where
  "queued_row now t st = (blank_cached ''queued'')\<lparr>cs_instance := ss_instance st,
     cs_model := (if ss_model st = [] then t else ss_model st), cs_position := ss_position st,
     cs_depth := ss_depth st, cs_poll_at := (if is_zero (ss_poll_at st) then now + queue_wait st else ss_poll_at st),
     cs_promo := ss_promo st\<rparr>"

definition re_admit_refused :: gerr where
  "re_admit_refused = EText ''session: pre-emptive re-admit refused (old session still active)''"

definition refresh_reply :: "senv \<Rightarrow> who \<Rightarrow> nat \<Rightarrow> string \<Rightarrow> session_state \<Rightarrow> smanager \<Rightarrow> sstep" where
  "refresh_reply e w i t st m = (let status = ss_status st in
     if status = ''active'' then
       ([SRefEnd w None], [], (commit (Some (active_row t st)) m)\<lparr>sm_admitted := sv_now e\<rparr>)
     else if status = ''disabled'' then ([SRefEnd w None], [], commit (Some (blank_cached ''disabled'')) m)
     else if status = ''queued'' then
       (if preemptive w then ([SRefEnd w None], [], m)
        else ([SRefEnd w None], [], commit (Some (queued_row (sv_now e) t st)) m))
     else if status \<in> {''ended'', ''superseded'', ''none''} then
       (if preemptive w then ([SRefEnd w (Some re_admit_refused)], [], m)
        else ([SInvalid (table_reason status), SLoop w (i + 1) t], [], commit None m))
     else if refused_status status then ([SRefEnd w (status_error status st)], [], m)
     else if status = ''model_locked'' then
       ([SInvalid ''model_lock'', SLocked (ss_current_model st) t, SDelete, SLoop w (i + 1) t], [], commit None m)
     else if status = ''model_unavailable'' then
       ([SUnavailable t (ss_window st) (ss_hours st), SDrop, SLoop w (i + 1) fallback_model], [], m)
     else ([SRefEnd w (Some (unknown_status status))], [], m))"

subsection \<open>Poll, invalidation and teardown\<close>

definition poll_start :: "senv \<Rightarrow> smanager \<Rightarrow> sstep" where
  "poll_start e m = (case sm_state m of
     None \<Rightarrow> ([], [], m)
   | Some s \<Rightarrow> if (cs_status s \<noteq> ''active'' \<and> cs_status s \<noteq> ''ended'') \<or> cs_instance s = [] then ([], [], m)
       else if 0 < sm_probe_ttl m \<and> \<not> is_zero (sm_admitted m) \<and> tsub (sv_now e) (sm_admitted m) < sm_probe_ttl m
         then ([], [], m)
       else ([SPollGet (cs_instance s)], [], m))"

definition poll_get :: "senv \<Rightarrow> string \<Rightarrow> smanager \<Rightarrow> sstep" where
  "poll_get e inst m0 = (let m = logged (LGet inst) m0 in case sv_reply e of
     Inl st \<Rightarrow> ([SPollSeen inst st], [], m)
   | Inr err \<Rightarrow> ((if err_is err ErrWaitingRoomRequired then [SPollFail inst err] else []), [], m))"

definition poll_drop :: "string \<Rightarrow> string \<Rightarrow> smanager \<Rightarrow> sstep" where
  "poll_drop inst reason m = (case drop_instance inst m of
     (True, m') \<Rightarrow> ([SInvalid reason], [], m') | (False, m') \<Rightarrow> ([], [], m'))"

definition ended_row :: "session_state \<Rightarrow> string \<Rightarrow> gotime \<Rightarrow> cached" where
  "ended_row st model g = (blank_cached ''ended'')\<lparr>cs_instance := ss_instance st, cs_model := model,
     cs_expires := ss_expires st, cs_grace := g\<rparr>"

definition polled :: "senv \<Rightarrow> string \<Rightarrow> session_state \<Rightarrow> smanager \<Rightarrow> sstep" where
  "polled e inst st m = (let status = ss_status st in
     case status_error status st of
       Some err \<Rightarrow> if status = ''banned'' then poll_drop inst ''poll'' m else ([], [], m)
     | None \<Rightarrow>
         if status = ''superseded'' \<or> status = ''none'' then poll_drop inst (table_reason status) m
         else if status = ''ended'' then
           (let g = (if is_zero (ss_grace st) \<and> \<not> is_zero (ss_expires st) then ss_expires st + grace_window
                     else ss_grace st) in
            if ss_instance st \<noteq> [] \<and> \<not> is_zero g \<and> sv_now e < g then
              (case sm_state m of
                 Some s \<Rightarrow> if cs_instance s = inst then ([], [], commit (Some (ended_row st (cs_model s) g)) m)
                           else ([], [], m)
               | None \<Rightarrow> ([], [], m))
            else poll_drop inst (table_reason status) m)
         else ([], [], m))"

definition invalidate_with :: "string \<Rightarrow> smanager \<Rightarrow> sstep" where
  "invalidate_with reason m = ([SInvalid reason], [], commit None m)"

definition invalidate_instance :: "string \<Rightarrow> string \<Rightarrow> smanager \<Rightarrow> sstep" where
  "invalidate_instance inst reason m = (if inst = [] then ([], [], m)
     else poll_drop inst reason m)"

definition clear_queued :: "smanager \<Rightarrow> sstep" where
  "clear_queued m = (case sm_state m of
     Some s \<Rightarrow> if cs_status s = ''queued'' then ([], [], commit None m) else ([], [], m)
   | None \<Rightarrow> ([], [], m))"

definition end_session :: "smanager \<Rightarrow> sstep" where
  "end_session m = ((if state_instance m = [] then [] else [SDelete]), [], commit None m)"

text \<open>
  The state is written first; a fresh store then reads the file back, which may itself drop
  an entry whose grace window is closed.  A scarce active session keeps its slot.
\<close>

definition save_state :: "gotime \<Rightarrow> smanager \<Rightarrow> smanager" where
  "save_state now m = (case sm_store m of None \<Rightarrow> m
     | Some s \<Rightarrow> let s1 = store_save (sm_key m) (sm_state m) s;
                    d = so_disk (snd (store_load (sm_key m) now (new_store (so_disk s1))))
                in m\<lparr>sm_store := Some (s1\<lparr>so_disk := d\<rparr>)\<rparr>)"

definition scarce_keep :: "gotime \<Rightarrow> cached \<Rightarrow> smanager \<Rightarrow> bool" where
  "scarce_keep now s m \<longleftrightarrow> cs_status s = ''active'' \<and> cs_model s \<in> set (sm_scarce m) \<and>
     \<not> is_zero (cs_expires s) \<and> 0 < tsub (cs_expires s) now"

definition shutdown :: "senv \<Rightarrow> smanager \<Rightarrow> sstep" where
  "shutdown e m = (if sm_store m = None then end_session m
     else case sm_state m of
       None \<Rightarrow> ([], [], m)
     | Some s \<Rightarrow> if cs_instance s = [] then ([], [], m)
         else ((if scarce_keep (sv_now e) s m then [] else [SDelete]), [], save_state (sv_now e) m))"

subsection \<open>One step of a goroutine\<close>

fun sexec :: "senv \<Rightarrow> stask \<Rightarrow> smanager \<Rightarrow> sstep option" where
  "sexec e (SEnsure n model) m = Some (ensure e n model m)"
| "sexec e (SPark n model ch) m = park e n model ch m"
| "sexec e (SWoken n model) m = Some (woken e n model m)"
| "sexec e (SRecheck model err) m = Some (recheck e model err m)"
| "sexec e (STrigger model inst) m = Some (ensured model (Inl inst) (record_trigger (sv_now e) m))"
| "sexec e (SAfter n model) m = Some (after_refresh e n model m)"
| "sexec e (SSkip w) m = Some (skip_check e w m)"
| "sexec e (SSkipTo w) m = Some (skip_to_fallback e w m)"
| "sexec e (SLoop w i t) m = Some (refresh_loop e w i t m)"
| "sexec e (SGet w i t inst) m = Some (queued_get e w i t inst m)"
| "sexec e (SPersisted w i t) m = Some (load_persisted e w i t m)"
| "sexec e (SStored w i t inst) m = Some (drop_stored w i t inst m)"
| "sexec e (SResume w i t inst) m = Some (resume_persisted e w i t inst m)"
| "sexec e (SAdopt w i t c) m = Some (adopt_or_create w i t c m)"
| "sexec e (SOwner w i t c a) m = Some (check_owner e w i t c a m)"
| "sexec e (SOwnerGet w i t c inst) m = Some (adopt_reply e w i t c inst m)"
| "sexec e (SCreate w i t c) m = Some (create_guard e w i t c m)"
| "sexec e (SProbe w i t c) m = Some (probe_account e w i t c m)"
| "sexec e (SGuard w i t c st) m = Some ([SGuard2 w i t c], [], update_quota st m)"
| "sexec e (SGuard2 w i t c) m = Some (refuse_unentitled e w i t c m)"
| "sexec e (SPost w i t c) m = Some (post_session e w i t c m)"
| "sexec e (SReply w i t c st) m = Some (refresh_reply e w i t st m)"
| "sexec e (SFail w c err) m = Some (refresh_failed w c err m)"
| "sexec e (SUnavailable t aw raw) m = Some ([], [], record_model_unavailable (sv_zone e) (sv_now e) t aw raw m)"
| "sexec e SDrop m = Some ([], [], commit None m)"
| "sexec e (SLocked a b) m = Some ([], [], record_model_lock a b m)"
| "sexec e SDelete m = Some ([], [], logged LEnd m)"
| "sexec e (SRefEnd w eo) m = Some (end_refresh w eo m)"
| "sexec e (SInvalid reason) m = Some ([], [], record_invalidation reason (sv_now e) m)"
| "sexec e SPoll m = Some (poll_start e m)"
| "sexec e (SPollGet inst) m = Some (poll_get e inst m)"
| "sexec e (SPollSeen inst st) m = Some ([SPolled inst st], [], m\<lparr>sm_admitted := sv_now e\<rparr>)"
| "sexec e (SPolled inst st) m = Some (polled e inst st m)"
| "sexec e (SPollFail inst err) m = Some (poll_drop inst ''poll'' m)"
| "sexec e (SInvalidate reason) m = Some (invalidate_with reason m)"
| "sexec e (SInvalidateInstance inst reason) m = Some (invalidate_instance inst reason m)"
| "sexec e SClearQueued m = Some (clear_queued m)"
| "sexec e (SUpdateQuota st) m = Some ([], [], update_quota st m)"
| "sexec e SEndSession m = Some (end_session m)"
| "sexec e SShutdown m = Some (shutdown e m)"

lemmas sexec_defs = ensure_def ensure_refresh_def ensure_ride_def ensured_def park_def woken_def recheck_def
  after_refresh_def skip_check_def skip_to_fallback_def refresh_loop_def queued_get_def load_persisted_def
  drop_stored_def resume_persisted_def adopt_or_create_def check_owner_def adopt_reply_def create_guard_def
  probe_account_def refuse_unentitled_def post_session_def refresh_failed_def refresh_reply_def poll_start_def
  poll_get_def poll_drop_def polled_def invalidate_with_def invalidate_instance_def clear_queued_def
  end_session_def shutdown_def

subsection \<open>Every interleaving\<close>

text \<open>Setters, and the operations other tokens perform on the shared store.\<close>

datatype session_op =
    SetReAdmitLead duration
  | SetCLIAdoption cli_adoption
  | SetScarceModels "string list"
  | SetProbeTTL duration
  | SetUnavailableTTL duration
  | OtherToken store_op

fun op_key :: "store_op \<Rightarrow> string" where
  "op_key (SLoad k now) = k"
| "op_key (SSave k c) = k"
| "op_key (SRemove k x) = k"
| "op_key (SSaveRun k a r) = k"
| "op_key (SLoadRun k a) = k"
| "op_key (SRemoveRun k a) = k"

fun session_apply :: "session_op \<Rightarrow> smanager \<Rightarrow> smanager" where
  "session_apply (SetReAdmitLead d) m = m\<lparr>sm_lead := d\<rparr>"
| "session_apply (SetCLIAdoption a) m = m\<lparr>sm_adopt := (if ad_enabled a then Some a else None)\<rparr>"
| "session_apply (SetScarceModels ms) m = m\<lparr>sm_scarce := remdups (filter (\<lambda>x. x \<noteq> []) ms)\<rparr>"
| "session_apply (SetProbeTTL d) m = m\<lparr>sm_probe_ttl := d\<rparr>"
| "session_apply (SetUnavailableTTL d) m = m\<lparr>sm_unavail_ttl := d\<rparr>"
| "session_apply (OtherToken a) m = m\<lparr>sm_store := map_option (store_apply a) (sm_store m)\<rparr>"

fun session_entry :: "stask \<Rightarrow> bool" where
  "session_entry (SEnsure n model) = (n = 0)"
| "session_entry SPoll = True"
| "session_entry (SInvalidate r) = True"
| "session_entry (SInvalidateInstance i r) = True"
| "session_entry SClearQueued = True"
| "session_entry (SUpdateQuota st) = True"
| "session_entry SEndSession = True"
| "session_entry SShutdown = True"
| "session_entry t = False"

type_synonym session_system = "smanager \<times> stask list list"

inductive session_step :: "session_system \<Rightarrow> session_system \<Rightarrow> bool" where
  sthread: "i < length ts \<Longrightarrow> ts ! i = t # rest \<Longrightarrow> sexec e t m = Some (new, spawned, m') \<Longrightarrow>
    session_step (m, ts) (m', ts[i := new @ rest] @ map (\<lambda>t. [t]) spawned)"
| sspawn: "session_entry t \<Longrightarrow> session_step (m, ts) (m, ts @ [[t]])"
| slocal: "session_step (m, ts) (session_apply a m, ts)"

inductive session_reach :: "session_system \<Rightarrow> bool" where
  sinit: "session_reach (new_manager k st, [])"
| sstep: "session_reach s \<Longrightarrow> session_step s s' \<Longrightarrow> session_reach s'"

end
