(* ===== verification/SessionInvariants.thy ===== *)
theory SessionInvariants
  imports SessionSteps Threads
begin

text \<open>
  The session manager under every interleaving: at most one refresh runs, a parked waiter
  always has a refresh that will wake it, nothing panics, and every task makes progress.
\<close>

interpretation sess: goroutines sexec session_entry "\<lambda>m m'. \<exists>a. m' = session_apply a m"
  "\<lambda>m. \<exists>k st. m = new_manager k st" session_reach
proof
  fix m ts and Q :: "smanager \<Rightarrow> stask list list \<Rightarrow> bool"
  assume "session_reach (m, ts)"
    and base: "\<And>m. \<exists>k st. m = new_manager k st \<Longrightarrow> Q m []"
    and thr: "\<And>m ts i t rest e new sp m'. session_reach (m, ts) \<Longrightarrow> Q m ts \<Longrightarrow> i < length ts \<Longrightarrow> ts ! i = t # rest \<Longrightarrow>
         sexec e t m = Some (new, sp, m') \<Longrightarrow> Q m' (ts[i := new @ rest] @ map (\<lambda>t. [t]) sp)"
    and spn: "\<And>m ts t. session_reach (m, ts) \<Longrightarrow> Q m ts \<Longrightarrow> session_entry t \<Longrightarrow> Q m (ts @ [[t]])"
    and oth: "\<And>m ts m'. session_reach (m, ts) \<Longrightarrow> Q m ts \<Longrightarrow> \<exists>a. m' = session_apply a m \<Longrightarrow> Q m' ts"
  have "session_reach s \<Longrightarrow> Q (fst s) (snd s)" for s
  proof (induction rule: session_reach.induct)
    case (sinit k st)
    then show ?case using base by auto
  next
    case (sstep s s')
    from sstep(2) show ?case
    proof (cases rule: session_step.cases)
      case (sthread i ts t rest e m new spawned m')
      then show ?thesis using thr [OF _ _ sthread(3-5)] sstep(1,3) by simp
    next
      case (sspawn t m ts)
      then show ?thesis using spn [OF _ _ sspawn(3)] sstep(1,3) by simp
    next
      case (slocal m ts a)
      then show ?thesis using oth [of m ts "session_apply a m"] sstep(1,3) by auto
    qed
  qed
  from this [of "(m, ts)"] \<open>session_reach (m, ts)\<close> show "Q m ts" by simp
qed (rule session_reach.sstep [OF _ session_step.sthread])

subsection \<open>The refresh token\<close>

fun refreshes :: "stask \<Rightarrow> bool" where
  "refreshes (SSkip w) = True"
| "refreshes (SSkipTo w) = True"
| "refreshes (SLoop w i t) = True"
| "refreshes (SGet w i t inst) = True"
| "refreshes (SPersisted w i t) = True"
| "refreshes (SStored w i t inst) = True"
| "refreshes (SResume w i t inst) = True"
| "refreshes (SAdopt w i t c) = True"
| "refreshes (SOwner w i t c a) = True"
| "refreshes (SOwnerGet w i t c inst) = True"
| "refreshes (SCreate w i t c) = True"
| "refreshes (SProbe w i t c) = True"
| "refreshes (SGuard w i t c st) = True"
| "refreshes (SGuard2 w i t c) = True"
| "refreshes (SPost w i t c) = True"
| "refreshes (SReply w i t c st) = True"
| "refreshes (SFail w c err) = True"
| "refreshes (SRefEnd w eo) = True"
| "refreshes _ = False"

named_theorems session_frame \<open>fields an operation of the session manager does not touch\<close>

lemma commit_frame [session_frame, simp]:
  "sm_refreshing (commit co m) = sm_refreshing m" "sm_ch (commit co m) = sm_ch m"
  "sm_next_ch (commit co m) = sm_next_ch m" "sm_done (commit co m) = sm_done m"
  "sm_panic (commit co m) = sm_panic m" "sm_log (commit co m) = sm_log m" "sm_expiry (commit co m) = sm_expiry m"
  "sm_state (commit co m) = map_option (with_saved m) co" "sm_key (commit co m) = sm_key m"
  "sm_quota (commit co m) = saved_quota_after m" "sm_promo (commit co m) = saved_promo_after m"
  "sm_err (commit co m) = sm_err m"
  by (simp_all add: commit_def Let_def)

lemma logged_frame [session_frame, simp]:
  "sm_refreshing (logged l m) = sm_refreshing m" "sm_ch (logged l m) = sm_ch m"
  "sm_next_ch (logged l m) = sm_next_ch m" "sm_done (logged l m) = sm_done m"
  "sm_panic (logged l m) = sm_panic m" "sm_log (logged l m) = l # sm_log m" "sm_expiry (logged l m) = sm_expiry m"
  "sm_state (logged l m) = sm_state m" "sm_quota (logged l m) = sm_quota m" "sm_promo (logged l m) = sm_promo m"
  "sm_err (logged l m) = sm_err m" "sm_key (logged l m) = sm_key m" "sm_store (logged l m) = sm_store m"
  by (simp_all add: logged_def)

lemma open_frame [session_frame, simp]:
  "sm_refreshing (open_flight m) = True" "sm_ch (open_flight m) = Some (sm_next_ch m)"
  "sm_next_ch (open_flight m) = sm_next_ch m + 1" "sm_done (open_flight m) = sm_done m"
  "sm_panic (open_flight m) = sm_panic m" "sm_log (open_flight m) = sm_log m"
  "sm_expiry (open_flight m) = sm_expiry m" "sm_state (open_flight m) = sm_state m"
  "sm_quota (open_flight m) = sm_quota m" "sm_promo (open_flight m) = sm_promo m"
  by (simp_all add: open_flight_def)

lemma trigger_frame [session_frame, simp]:
  "sm_refreshing (record_trigger now m) = sm_refreshing m" "sm_ch (record_trigger now m) = sm_ch m"
  "sm_next_ch (record_trigger now m) = sm_next_ch m" "sm_done (record_trigger now m) = sm_done m"
  "sm_panic (record_trigger now m) = sm_panic m" "sm_log (record_trigger now m) = sm_log m"
  "sm_expiry (record_trigger now m) = sm_expiry m" "sm_state (record_trigger now m) = sm_state m"
  "sm_quota (record_trigger now m) = sm_quota m" "sm_promo (record_trigger now m) = sm_promo m"
  by (simp_all add: record_trigger_def)

lemma invalidation_frame [session_frame, simp]:
  "sm_refreshing (record_invalidation r now m) = sm_refreshing m" "sm_ch (record_invalidation r now m) = sm_ch m"
  "sm_next_ch (record_invalidation r now m) = sm_next_ch m" "sm_done (record_invalidation r now m) = sm_done m"
  "sm_panic (record_invalidation r now m) = sm_panic m" "sm_expiry (record_invalidation r now m) = sm_expiry m"
  "sm_state (record_invalidation r now m) = sm_state m" "sm_quota (record_invalidation r now m) = sm_quota m"
  "sm_promo (record_invalidation r now m) = sm_promo m"
  by (simp_all add: record_invalidation_def Let_def)

lemma unavailable_frame [session_frame, simp]:
  "sm_refreshing (record_model_unavailable tz now t w raw m) = sm_refreshing m"
  "sm_ch (record_model_unavailable tz now t w raw m) = sm_ch m"
  "sm_next_ch (record_model_unavailable tz now t w raw m) = sm_next_ch m"
  "sm_done (record_model_unavailable tz now t w raw m) = sm_done m"
  "sm_panic (record_model_unavailable tz now t w raw m) = sm_panic m"
  "sm_expiry (record_model_unavailable tz now t w raw m) = sm_expiry m"
  "sm_log (record_model_unavailable tz now t w raw m) = sm_log m"
  "sm_state (record_model_unavailable tz now t w raw m) = sm_state m"
  "sm_quota (record_model_unavailable tz now t w raw m) = sm_quota m"
  "sm_promo (record_model_unavailable tz now t w raw m) = sm_promo m"
  by (simp_all add: record_model_unavailable_def Let_def)

lemma lock_frame [session_frame, simp]:
  "sm_refreshing (record_model_lock a b m) = sm_refreshing m" "sm_ch (record_model_lock a b m) = sm_ch m"
  "sm_next_ch (record_model_lock a b m) = sm_next_ch m" "sm_done (record_model_lock a b m) = sm_done m"
  "sm_panic (record_model_lock a b m) = sm_panic m" "sm_expiry (record_model_lock a b m) = sm_expiry m"
  "sm_log (record_model_lock a b m) = sm_log m" "sm_state (record_model_lock a b m) = sm_state m"
  "sm_quota (record_model_lock a b m) = sm_quota m" "sm_promo (record_model_lock a b m) = sm_promo m"
  by (simp_all add: record_model_lock_def Let_def)

lemma update_frame [session_frame, simp]:
  "sm_refreshing (update_quota st m) = sm_refreshing m" "sm_ch (update_quota st m) = sm_ch m"
  "sm_next_ch (update_quota st m) = sm_next_ch m" "sm_done (update_quota st m) = sm_done m"
  "sm_panic (update_quota st m) = sm_panic m" "sm_expiry (update_quota st m) = sm_expiry m"
  "sm_log (update_quota st m) = sm_log m" "sm_state (update_quota st m) = None \<longleftrightarrow> sm_state m = None"
  by (auto simp: update_quota_def Let_def split: option.splits)

lemma save_state_frame [session_frame, simp]:
  "sm_refreshing (save_state now m) = sm_refreshing m" "sm_ch (save_state now m) = sm_ch m"
  "sm_next_ch (save_state now m) = sm_next_ch m" "sm_done (save_state now m) = sm_done m"
  "sm_panic (save_state now m) = sm_panic m" "sm_expiry (save_state now m) = sm_expiry m"
  "sm_log (save_state now m) = sm_log m" "sm_state (save_state now m) = sm_state m"
  "sm_quota (save_state now m) = sm_quota m" "sm_promo (save_state now m) = sm_promo m"
  by (simp_all add: save_state_def Let_def split: option.splits)

lemma apply_frame [session_frame, simp]:
  "sm_refreshing (session_apply a m) = sm_refreshing m" "sm_ch (session_apply a m) = sm_ch m"
  "sm_next_ch (session_apply a m) = sm_next_ch m" "sm_done (session_apply a m) = sm_done m"
  "sm_panic (session_apply a m) = sm_panic m" "sm_expiry (session_apply a m) = sm_expiry m"
  "sm_log (session_apply a m) = sm_log m" "sm_state (session_apply a m) = sm_state m"
  "sm_quota (session_apply a m) = sm_quota m" "sm_promo (session_apply a m) = sm_promo m"
  by (cases a; simp)+

lemma drop_frame [session_frame]:
  "drop_instance i m = (b, m') \<Longrightarrow> sm_refreshing m' = sm_refreshing m \<and> sm_ch m' = sm_ch m \<and>
     sm_next_ch m' = sm_next_ch m \<and> sm_done m' = sm_done m \<and> sm_panic m' = sm_panic m \<and> sm_log m' = sm_log m \<and>
     sm_expiry m' = sm_expiry m \<and> (sm_state m' = None \<or> sm_state m' = sm_state m)"
  by (auto simp: drop_instance_def split: option.splits if_splits)

lemmas session_splits = option.splits if_splits prod.splits sum.splits who.splits bool.splits

lemma refresh_token_step:
  assumes "sexec e t m = Some (new, sp, m')" "refreshes t \<Longrightarrow> 1 \<le> (if sm_refreshing m then 1 else 0 :: int)"
  shows "many refreshes new + many refreshes sp - (if refreshes t then 1 else 0) =
    (if sm_refreshing m' then 1 else 0 :: int) - (if sm_refreshing m then 1 else 0)"
  using assms
  by (cases t) (auto simp: sexec_defs end_refresh_def Let_def split: session_splits dest!: drop_frame)

lemma refresh_token:
  "session_reach (m, ts) \<Longrightarrow> pend refreshes ts = (if sm_refreshing m then 1 else 0)"
  by (rule sess.token_count [where f = "\<lambda>m. if sm_refreshing m then 1 else 0"])
    (auto simp: new_manager_def refresh_token_step elim: session_entry.elims)

end
