(* ===== verification/SessionSafety.thy ===== *)
theory SessionSafety
  imports SessionInvariants
begin

text \<open>
  What follows from the refresh token: a refresh that found no cached session still finds none
  when it fails, the channel of the flight in progress is open, and waiters are woken.  Then
  the quota memory, the shape of a cached row, the once-per-expiry guard of the pre-emptive
  re-admit, and the rank that every section of a goroutine decreases.
\<close>

subsection \<open>A refresh that found no session\<close>

fun blind :: "stask \<Rightarrow> bool" where
  "blind (SPersisted w i t) = True"
| "blind (SStored w i t inst) = True"
| "blind (SResume w i t inst) = True"
| "blind (SAdopt w i t c) = (c = None)"
| "blind (SOwner w i t c a) = (c = None)"
| "blind (SOwnerGet w i t c inst) = (c = None)"
| "blind (SCreate w i t c) = (c = None)"
| "blind (SProbe w i t c) = (c = None)"
| "blind (SGuard w i t c st) = (c = None)"
| "blind (SGuard2 w i t c) = (c = None)"
| "blind (SPost w i t c) = (c = None)"
| "blind (SReply w i t c st) = (c = None)"
| "blind (SFail w c err) = (c = None)"
| "blind _ = False"

lemma blind_refreshes: "blind t \<Longrightarrow> refreshes t"
  by (cases t) auto

lemma many_mono: "(\<And>t. P t \<Longrightarrow> R t) \<Longrightarrow> many P xs \<le> many R xs"
  by (induction xs) auto

lemma pend_mono: "(\<And>t. P t \<Longrightarrow> R t) \<Longrightarrow> pend P ts \<le> pend R ts"
  by (induction ts) (auto simp: add_mono many_mono)

lemma only_one:
  assumes "pend R ts \<le> 1" "i < length ts" "ts ! i = t # rest" "R t" "\<And>t. P t \<Longrightarrow> R t"
  shows "pend P ts = (if P t then 1 else 0)"
proof -
  have "pend P (ts[i := rest]) \<le> pend R (ts[i := rest])" by (rule pend_mono) (rule assms(5))
  moreover have "pend R (ts[i := rest]) = pend R ts - 1"
    using pend_update [OF assms(2,3), of R "[]"] assms(4) by simp
  moreover have "pend P (ts[i := rest]) = pend P ts - (if P t then 1 else 0)"
    using pend_update [OF assms(2,3), of P "[]"] by simp
  moreover have "0 \<le> pend P (ts[i := rest])" by simp
  ultimately show ?thesis using assms(1) by linarith
qed

lemma blind_step:
  assumes "sexec e t m = Some (new, sp, m')" "refreshes t" "blind t \<Longrightarrow> sm_state m = None"
  shows "many blind sp = 0" "0 < many blind new \<Longrightarrow> sm_state m' = None"
  using assms
  by (cases t; auto simp: sexec_defs end_refresh_def Let_def split: session_splits dest!: drop_frame)+

lemma other_step:
  assumes "sexec e t m = Some (new, sp, m')" "\<not> refreshes t"
  shows "many blind new = 0" "many blind sp = 0" "sm_state m = None \<Longrightarrow> sm_state m' = None"
  using assms
  by (cases t; auto simp: sexec_defs end_refresh_def Let_def split: session_splits dest!: drop_frame)+

lemma blind_reach:
  assumes "session_reach (m, ts)"
  shows "0 < pend blind ts \<longrightarrow> sm_state m = None"
proof (rule sess.reach_induct [OF assms, where Q = "\<lambda>m ts. 0 < pend blind ts \<longrightarrow> sm_state m = None"])
  fix m ts i t rest e new sp m'
  assume R: "session_reach (m, ts)" and I: "0 < pend blind ts \<longrightarrow> sm_state m = None"
    and s: "i < length ts" "ts ! i = t # rest" "sexec e t m = Some (new, sp, m')"
  have one: "pend refreshes ts \<le> 1" using refresh_token [OF R] by simp
  have p: "pend blind (ts[i := new @ rest] @ map (\<lambda>t. [t]) sp) =
      pend blind ts - (if blind t then 1 else 0) + many blind new + many blind sp"
    using pend_update [OF s(1,2), of blind new] by simp
  show "0 < pend blind (ts[i := new @ rest] @ map (\<lambda>t. [t]) sp) \<longrightarrow> sm_state m' = None"
  proof (cases "refreshes t")
    case True
    have o: "pend blind ts = (if blind t then 1 else 0)"
      by (rule only_one [OF one s(1,2) True]) (rule blind_refreshes)
    show ?thesis using p o blind_step [OF s(3) True] I by (auto split: if_splits)
  next
    case False
    then show ?thesis using p other_step [OF s(3) False] I blind_refreshes [of t] by auto
  qed
qed (auto elim: session_entry.elims)

subsection \<open>The channel of the flight, and panics\<close>

definition flight_ok :: "smanager \<Rightarrow> bool" where
  "flight_ok m \<longleftrightarrow> \<not> sm_panic m \<and> (sm_refreshing m \<longleftrightarrow> sm_ch m \<noteq> None) \<and>
     (\<forall>c. sm_ch m = Some c \<longrightarrow> c < sm_next_ch m \<and> c \<notin> set (sm_done m)) \<and> (\<forall>c \<in> set (sm_done m). c < sm_next_ch m)"

definition parked_ok :: "smanager \<Rightarrow> stask \<Rightarrow> bool" where
  "parked_ok m t \<longleftrightarrow> (case t of SPark n model ch \<Rightarrow> (\<exists>c. ch = Some c \<and> (c \<in> set (sm_done m) \<or> sm_ch m = Some c)) | _ \<Rightarrow> True)"

definition same_flight :: "smanager \<Rightarrow> smanager \<Rightarrow> bool" where
  "same_flight m m' \<longleftrightarrow> sm_refreshing m' = sm_refreshing m \<and> sm_ch m' = sm_ch m \<and> sm_next_ch m' = sm_next_ch m \<and>
     sm_done m' = sm_done m \<and> sm_panic m' = sm_panic m"

lemma drop_same: "drop_instance i m = (b, m') \<Longrightarrow> same_flight m m'"
  by (auto simp: same_flight_def dest: drop_frame)

lemma same_flight_intros [simp]:
  "same_flight m m" "same_flight m (commit co m)" "same_flight m (logged l m)"
  "same_flight m (update_quota st m)" "same_flight m (m\<lparr>sm_store := x\<rparr>)" "same_flight m (m\<lparr>sm_admitted := n\<rparr>)"
  "same_flight m ((commit co m)\<lparr>sm_admitted := n\<rparr>)" "same_flight m (save_state now m)"
  "same_flight m (record_trigger now m)" "same_flight m (record_invalidation r now m)"
  "same_flight m (record_model_lock a b m)" "same_flight m (record_model_unavailable tz now t w raw m)"
  "same_flight m (logged l (record_trigger now m))" "same_flight m (session_apply op m)"
  by (simp_all add: same_flight_def)

fun flight_task :: "stask \<Rightarrow> bool" where
  "flight_task (SEnsure n model) = True"
| "flight_task (SRefEnd w eo) = True"
| "flight_task (SFail w c err) = True"
| "flight_task _ = False"

lemma same_flight_step:
  assumes "sexec e t m = Some (new, sp, m')" "\<not> flight_task t"
  shows "same_flight m m'"
  using assms
  by (cases t) (auto simp: sexec_defs Let_def split: session_splits dest!: drop_same)

lemma flight_ok_same: "same_flight m m' \<Longrightarrow> flight_ok m' = flight_ok m"
  by (simp add: same_flight_def flight_ok_def)

lemma flight_ok_open: "flight_ok m \<Longrightarrow> flight_ok (open_flight m)"
  by (auto simp: flight_ok_def less_Suc_eq)

lemma flight_ok_logged [simp]: "flight_ok (logged l m) = flight_ok m"
  by (simp add: flight_ok_same)

lemma flight_ok_expiry [simp]: "flight_ok (m\<lparr>sm_expiry := x\<rparr>) = flight_ok m"
  by (simp add: flight_ok_def)

lemma flight_step:
  assumes "sexec e t m = Some (new, sp, m')" "flight_ok m" "refreshes t \<Longrightarrow> sm_refreshing m"
    and "blind t \<Longrightarrow> sm_state m = None"
  shows "flight_ok m'"
proof (cases "flight_task t")
  case False
  then show ?thesis using flight_ok_same same_flight_step [OF assms(1)] assms(2) by simp
next
  case True
  then consider n model where "t = SEnsure n model" | w eo where "t = SRefEnd w eo" | w c err where "t = SFail w c err"
    by (cases t) auto
  then show ?thesis
  proof cases
    case 1
    then show ?thesis using assms(1,2)
      by (auto simp: ensure_def ensure_refresh_def ensure_ride_def ensured_def flight_ok_open split: session_splits)
  next
    case 2
    then obtain c where "sm_ch m = Some c" "c \<notin> set (sm_done m)" using assms(2,3) by (auto simp: flight_ok_def)
    then show ?thesis using 2 assms(1,2)
      by (auto simp: end_refresh_def ensured_def flight_ok_def Let_def split: session_splits)
  next
    case 3
    then show ?thesis using assms(1,2,4)
      by (auto simp: refresh_failed_def flight_ok_same [OF drop_same] split: session_splits)
  qed
qed

lemma flight_reach:
  assumes "session_reach (m, ts)"
  shows "flight_ok m"
proof (rule sess.reach_induct [OF assms, where Q = "\<lambda>m ts. flight_ok m"])
  fix m ts i t rest e new sp m'
  assume R: "session_reach (m, ts)" and I: "flight_ok m"
    and s: "i < length ts" "ts ! i = t # rest" "sexec e t m = Some (new, sp, m')"
  have "refreshes t \<Longrightarrow> sm_refreshing m"
    using refresh_token [OF R] pend_pos [OF s(1), of t refreshes] s(2) by (auto split: if_splits)
  moreover have "blind t \<Longrightarrow> sm_state m = None"
    using blind_reach [OF R] pend_pos [OF s(1), of t blind] s(2) by auto
  ultimately show "flight_ok m'" by (rule flight_step [OF s(3) I])
qed (auto simp: flight_ok_def new_manager_def)

lemma parked_step:
  assumes "sexec e t m = Some (new, sp, m')" "flight_ok m"
  shows "\<forall>u \<in> set new \<union> set sp. parked_ok m' u" "parked_ok m u \<Longrightarrow> parked_ok m' u"
proof -
  show "\<forall>u \<in> set new \<union> set sp. parked_ok m' u"
    using assms
    by (cases t) (auto simp: sexec_defs end_refresh_def parked_ok_def flight_ok_def Let_def split: session_splits)
  assume u: "parked_ok m u"
  show "parked_ok m' u"
  proof (cases "flight_task t")
    case False
    then show ?thesis using same_flight_step [OF assms(1)] u by (auto simp: same_flight_def parked_ok_def split: stask.splits)
  next
    case True
    then consider n model where "t = SEnsure n model" | w eo where "t = SRefEnd w eo" | w c err where "t = SFail w c err"
      by (cases t) auto
    then show ?thesis
    proof cases
      case 1
      then show ?thesis using assms u
        by (auto simp: ensure_def ensure_refresh_def ensure_ride_def ensured_def flight_ok_def parked_ok_def
            split: session_splits stask.splits)
    next
      case 2
      then show ?thesis using assms u
        by (auto simp: end_refresh_def ensured_def flight_ok_def parked_ok_def Let_def split: session_splits stask.splits)
    next
      case 3
      then show ?thesis using assms u
        by (auto simp: refresh_failed_def parked_ok_def split: session_splits stask.splits dest!: drop_frame)
    qed
  qed
qed

lemma parked_reach:
  assumes "session_reach (m, ts)"
  shows "\<forall>t \<in> set (concat ts). parked_ok m t"
proof (rule sess.reach_induct [OF assms, where Q = "\<lambda>m ts. \<forall>t \<in> set (concat ts). parked_ok m t"])
  fix m ts i t rest e new sp m'
  assume R: "session_reach (m, ts)" and I: "\<forall>t \<in> set (concat ts). parked_ok m t"
    and s: "i < length ts" "ts ! i = t # rest" "sexec e t m = Some (new, sp, m')"
  note p = parked_step [OF s(3) flight_reach [OF R]]
  show "\<forall>u \<in> set (concat (ts[i := new @ rest] @ map (\<lambda>t. [t]) sp)). parked_ok m' u"
  proof
    fix u
    assume "u \<in> set (concat (ts[i := new @ rest] @ map (\<lambda>t. [t]) sp))"
    then have "u \<in> set (concat (ts[i := new @ rest])) \<or> u \<in> set sp" by auto
    with set_concat_update [OF s(1,2), of new] consider "u \<in> set new \<union> set sp" | "u \<in> set (concat ts)" by blast
    then show "parked_ok m' u" using p(1) p(2) [of u] I by cases auto
  qed
next
  fix m ts t
  assume "\<forall>t \<in> set (concat ts). parked_ok m t" "session_entry t"
  then show "\<forall>u \<in> set (concat (ts @ [[t]])). parked_ok m u"
    by (auto simp: parked_ok_def elim: session_entry.elims)
next
  fix m ts m'
  assume I: "\<forall>t \<in> set (concat ts). parked_ok m t" "\<exists>a. m' = session_apply a m"
  then obtain a where "m' = session_apply a m" by blast
  then show "\<forall>t \<in> set (concat ts). parked_ok m' t" using I(1) by (auto simp: parked_ok_def split: stask.splits)
qed simp

end
