(* ===== verification/SessionProgress.thy ===== *)
theory SessionProgress
  imports SessionSafety
begin

text \<open>
  The quota and promotion memory of a session manager, the once-per-expiry guard of the
  pre-emptive re-admit, and the rank every section of a goroutine decreases.
\<close>

subsection \<open>The quota memory\<close>

text \<open>Once a quota map was seen, the cached session carries one.\<close>

definition remembers :: "smanager \<Rightarrow> bool" where
  "remembers m \<longleftrightarrow> (\<forall>s. sm_state m = Some s \<longrightarrow> (sm_quota m \<noteq> None \<longrightarrow> cs_quota s \<noteq> None) \<and>
     (sm_promo m \<noteq> [] \<longrightarrow> cs_promo s \<noteq> []))"

definition known_quota :: "smanager \<Rightarrow> bool" where
  "known_quota m \<longleftrightarrow> saved_quota_after m \<noteq> None"

definition known_promo :: "smanager \<Rightarrow> bool" where
  "known_promo m \<longleftrightarrow> saved_promo_after m \<noteq> []"

definition keeps :: "smanager \<Rightarrow> smanager \<Rightarrow> bool" where
  "keeps m m' \<longleftrightarrow> (remembers m \<longrightarrow> remembers m') \<and> (known_quota m \<longrightarrow> known_quota m') \<and> (known_promo m \<longrightarrow> known_promo m')"

lemma keeps_refl [simp]: "keeps m m"
  by (simp add: keeps_def)

lemma keeps_trans: "keeps m m' \<Longrightarrow> keeps m' m'' \<Longrightarrow> keeps m m''"
  by (auto simp: keeps_def)

lemma keeps_commit [simp]: "keeps m (commit co m)"
  by (cases co) (auto simp: keeps_def remembers_def known_quota_def known_promo_def with_saved_def
      saved_quota_after_def saved_promo_after_def split: option.splits)

lemma keeps_update [simp]: "keeps m (update_quota st m)"
  by (cases "sm_state m"; cases "ss_quota st")
    (auto simp: update_quota_def keeps_def remembers_def known_quota_def known_promo_def Let_def
      saved_quota_after_def saved_promo_after_def)

lemma keeps_same:
  "sm_state m' = sm_state m \<Longrightarrow> sm_quota m' = sm_quota m \<Longrightarrow> sm_promo m' = sm_promo m \<Longrightarrow> keeps m m'"
  by (auto simp: keeps_def remembers_def known_quota_def known_promo_def saved_quota_after_def saved_promo_after_def
      split: option.split)

lemma keeps_simps [simp]:
  "keeps m (logged l m)" "keeps m (m\<lparr>sm_store := x\<rparr>)" "keeps m (m\<lparr>sm_admitted := n\<rparr>)"
  "keeps m (save_state now m)" "keeps m (record_trigger now m)" "keeps m (record_invalidation r now m)"
  "keeps m (record_model_lock a b m)" "keeps m (record_model_unavailable tz now t w raw m)"
  "keeps m (logged l (record_trigger now m))" "keeps m (session_apply op m)" "keeps m (open_flight m)"
  "keeps m (logged l (open_flight (m\<lparr>sm_expiry := y\<rparr>)))" "keeps m (m\<lparr>sm_panic := True\<rparr>)"
  by (rule keeps_same; simp add: logged_def)+

lemma keeps_admitted [simp]: "keeps m ((commit co m)\<lparr>sm_admitted := n\<rparr>)"
  by (rule keeps_trans [OF keeps_commit keeps_simps(3)])

lemma keeps_drop: "drop_instance i m = (b, m') \<Longrightarrow> keeps m m'"
  by (auto simp: drop_instance_def split: option.splits if_splits)

lemma keeps_end: "end_refresh w eo m = (new, sp, m') \<Longrightarrow> keeps m m'"
  by (rule keeps_same) (auto simp: end_refresh_def ensured_def Let_def split: session_splits)

lemma keeps_step: "sexec e t m = Some (new, sp, m') \<Longrightarrow> keeps m m'"
  by (cases t) (auto simp: sexec_defs Let_def split: session_splits dest!: keeps_drop dest: keeps_end)

lemma remembers_reach:
  assumes "session_reach (m, ts)"
  shows "remembers m"
proof (rule sess.reach_induct [OF assms, where Q = "\<lambda>m ts. remembers m"])
  fix m m' :: smanager
  assume "remembers m" "\<exists>a. m' = session_apply a m"
  then show "remembers m'" using keeps_simps(10) [of m] by (auto simp: keeps_def)
next
  fix m m' e t new sp
  assume "remembers m" "sexec e t m = Some (new, sp, m')"
  then show "remembers m'" using keeps_step [of e t m new sp m'] by (simp add: keeps_def)
qed (auto simp: remembers_def new_manager_def)

subsection \<open>One re-admit per expiry\<close>

fun triggers :: "slog list \<Rightarrow> gotime list" where
  "triggers [] = []"
| "triggers (LTrigger t # ls) = t # triggers ls"
| "triggers (_ # ls) = triggers ls"

definition once_per_expiry :: "smanager \<Rightarrow> bool" where
  "once_per_expiry m \<longleftrightarrow> distinct_adj (triggers (sm_log m)) \<and>
     (triggers (sm_log m) \<noteq> [] \<longrightarrow> hd (triggers (sm_log m)) = sm_expiry m)"

definition same_triggers :: "smanager \<Rightarrow> smanager \<Rightarrow> bool" where
  "same_triggers m m' \<longleftrightarrow> triggers (sm_log m') = triggers (sm_log m) \<and> sm_expiry m' = sm_expiry m"

lemma same_triggers_simps [simp]:
  "same_triggers m m" "same_triggers m (commit co m)" "same_triggers m (update_quota st m)"
  "same_triggers m (m\<lparr>sm_store := x\<rparr>)" "same_triggers m (m\<lparr>sm_admitted := n\<rparr>)"
  "same_triggers m ((commit co m)\<lparr>sm_admitted := n\<rparr>)" "same_triggers m (save_state now m)"
  "same_triggers m (record_trigger now m)" "same_triggers m (record_invalidation r now m)"
  "same_triggers m (record_model_lock a b m)" "same_triggers m (record_model_unavailable tz now t w raw m)"
  "same_triggers m (session_apply op m)" "same_triggers m (open_flight m)" "same_triggers m (m\<lparr>sm_panic := True\<rparr>)"
  by (simp_all add: same_triggers_def record_invalidation_def Let_def)

lemma same_triggers_logged [simp]:
  "same_triggers m (logged (LGet i) m)" "same_triggers m (logged (LCreate t) m)" "same_triggers m (logged LProbe m)"
  "same_triggers m (logged LEnd m)" "same_triggers m (logged (LEnsured md r) m)"
  "same_triggers m (logged (LEnsured md r) (record_trigger now m))"
  by (simp_all add: same_triggers_def)

lemma same_triggers_drop: "drop_instance i m = (b, m') \<Longrightarrow> same_triggers m m'"
  by (auto simp: drop_instance_def split: option.splits if_splits)

lemma same_triggers_end: "end_refresh w eo m = (new, sp, m') \<Longrightarrow> same_triggers m m'"
  by (auto simp: end_refresh_def ensured_def same_triggers_def Let_def split: session_splits)

lemma once_same: "same_triggers m m' \<Longrightarrow> once_per_expiry m' = once_per_expiry m"
  by (simp add: same_triggers_def once_per_expiry_def)

lemmas once_simps [simp] = same_triggers_simps(2-14) [THEN once_same] same_triggers_logged [THEN once_same]

lemma once_ride: "ensure_ride e model s m = (new, sp, m') \<Longrightarrow> once_per_expiry m \<Longrightarrow> once_per_expiry m'"
  by (cases "triggers (sm_log m)")
    (auto simp: ensure_ride_def ensured_def once_per_expiry_def split: if_splits)

lemma once_step:
  assumes "sexec e t m = Some (new, sp, m')" "once_per_expiry m"
  shows "once_per_expiry m'"
proof (cases "\<exists>n model. t = SEnsure n model")
  case True
  then show ?thesis using assms
    by (auto simp: ensure_def ensure_refresh_def ensured_def once_same split: session_splits dest: once_ride)
next
  case False
  then have "same_triggers m m'" using assms(1)
    by (cases t) (auto simp: sexec_defs Let_def split: session_splits dest!: same_triggers_drop dest: same_triggers_end)
  then show ?thesis using once_same assms(2) by simp
qed

lemma once_new [simp]: "once_per_expiry (new_manager k st)"
  by (simp add: once_per_expiry_def new_manager_def)

lemma once_reach:
  assumes "session_reach (m, ts)"
  shows "once_per_expiry m"
  by (rule sess.reach_induct [OF assms, where Q = "\<lambda>m ts. once_per_expiry m"])
    (auto dest: once_step)

subsection \<open>Progress\<close>

text \<open>
  The rank of a task bounds the sections its goroutine can still run.  An attempt of
  \<open>EnsureSessionForModel\<close> is worth 200, an iteration of \<open>refresh\<close> 20.
\<close>

definition attempt_rank :: "nat \<Rightarrow> nat" where
  "attempt_rank n = 1 + 200 * (11 - n)"

definition end_rank :: "who \<Rightarrow> nat" where
  "end_rank w = (case w of Caller n model \<Rightarrow> attempt_rank (n + 1) + 2 | Background model \<Rightarrow> 1)"

definition loop_rank :: "who \<Rightarrow> nat \<Rightarrow> nat" where
  "loop_rank w i = end_rank w + 1 + 20 * (6 - i)"

fun section_rank :: "stask \<Rightarrow> nat" where
  "section_rank (SEnsure n model) = attempt_rank n"
| "section_rank (SPark n model ch) = attempt_rank (n + 1) + 3"
| "section_rank (SWoken n model) = attempt_rank (n + 1) + 2"
| "section_rank (SRecheck model err) = 1"
| "section_rank (STrigger model inst) = 1"
| "section_rank (SAfter n model) = attempt_rank (n + 1) + 1"
| "section_rank (SSkip w) = loop_rank w 0 + 2"
| "section_rank (SSkipTo w) = loop_rank w 0 + 1"
| "section_rank (SLoop w i t) = loop_rank w i"
| "section_rank (SGet w i t inst) = loop_rank w (i + 1) + 5"
| "section_rank (SPersisted w i t) = loop_rank w (i + 1) + 15"
| "section_rank (SStored w i t inst) = loop_rank w (i + 1) + 13"
| "section_rank (SResume w i t inst) = loop_rank w (i + 1) + 14"
| "section_rank (SAdopt w i t c) = loop_rank w (i + 1) + 12"
| "section_rank (SOwner w i t c a) = loop_rank w (i + 1) + 11"
| "section_rank (SOwnerGet w i t c inst) = loop_rank w (i + 1) + 10"
| "section_rank (SCreate w i t c) = loop_rank w (i + 1) + 9"
| "section_rank (SProbe w i t c) = loop_rank w (i + 1) + 8"
| "section_rank (SGuard w i t c st) = loop_rank w (i + 1) + 7"
| "section_rank (SGuard2 w i t c) = loop_rank w (i + 1) + 6"
| "section_rank (SPost w i t c) = loop_rank w (i + 1) + 5"
| "section_rank (SReply w i t c st) = loop_rank w (i + 1) + 4"
| "section_rank (SFail w c err) = end_rank w + 2"
| "section_rank (SRefEnd w eo) = end_rank w"
| "section_rank SPoll = 5"
| "section_rank (SPollGet inst) = 4"
| "section_rank (SPollSeen inst st) = 3"
| "section_rank (SPolled inst st) = 2"
| "section_rank (SPollFail inst err) = 2"
| "section_rank (SInvalidate r) = 2"
| "section_rank (SInvalidateInstance i r) = 2"
| "section_rank SEndSession = 2"
| "section_rank SShutdown = 2"
| "section_rank _ = 1"

definition rank_of :: "stask list \<Rightarrow> nat" where
  "rank_of xs = sum_list (map section_rank xs)"

lemma rank_of_simps [simp]: "rank_of [] = 0" "rank_of (x # xs) = section_rank x + rank_of xs"
  "rank_of (xs @ ys) = rank_of xs + rank_of ys"
  by (simp_all add: rank_of_def)

lemma attempt_rank_Suc: "n \<le> 10 \<Longrightarrow> attempt_rank n = attempt_rank (Suc n) + 200"
  by (auto simp: attempt_rank_def)

lemma loop_rank_Suc: "i \<le> 5 \<Longrightarrow> loop_rank w i = loop_rank w (Suc i) + 20"
  by (auto simp: loop_rank_def)

lemma end_rank_loop: "end_rank w < loop_rank w i"
  by (simp add: loop_rank_def)

lemma ranks_pos [simp]: "0 < attempt_rank n" "0 < end_rank w" "0 < loop_rank w i"
  by (simp_all add: attempt_rank_def end_rank_def loop_rank_def split: who.splits)

lemma rank_ensure:
  assumes "ensure e n model m = (new, sp, m')"
  shows "rank_of new + rank_of sp < attempt_rank n"
proof (cases "n \<le> 10")
  case True
  then show ?thesis using assms attempt_rank_Suc [OF True]
    by (auto simp: ensure_def ensure_refresh_def ensure_ride_def ensured_def loop_rank_def end_rank_def
        split: session_splits)
next
  case False
  then show ?thesis using assms by (auto simp: ensure_def ensured_def max_outer_iterations_def)
qed

lemma rank_loop:
  assumes "refresh_loop e w i t m = (new, sp, m')"
  shows "rank_of new + rank_of sp < loop_rank w i"
proof (cases "i \<le> 5")
  case True
  then show ?thesis using assms loop_rank_Suc [OF True, of w] end_rank_loop [of w i]
    by (auto simp: refresh_loop_def split: session_splits)
next
  case False
  then show ?thesis using assms end_rank_loop [of w i] by (auto simp: refresh_loop_def max_refresh_iterations_def)
qed

lemma rank_reply:
  "refresh_reply e w i t st m = (new, sp, m') \<Longrightarrow> rank_of new + rank_of sp < loop_rank w (Suc i) + 4"
  using end_rank_loop [of w "Suc i"] by (auto simp: refresh_reply_def Let_def split: session_splits)

lemma rank_end:
  "end_refresh w eo m = (new, sp, m') \<Longrightarrow> flight_ok m \<Longrightarrow> sm_refreshing m \<Longrightarrow> rank_of new + rank_of sp < end_rank w"
  by (auto simp: end_refresh_def ensured_def flight_ok_def end_rank_def Let_def split: session_splits)

lemma rank_step:
  assumes "sexec e t m = Some (new, sp, m')" "flight_ok m" "refreshes t \<Longrightarrow> sm_refreshing m" "blind t \<Longrightarrow> sm_state m = None"
  shows "rank_of new + rank_of sp < section_rank t"
proof -
  consider n model where "t = SEnsure n model" | w i x where "t = SLoop w i x"
    | w i x c st where "t = SReply w i x c st" | w eo where "t = SRefEnd w eo"
    | "\<forall>n model. t \<noteq> SEnsure n model" "\<forall>w i x. t \<noteq> SLoop w i x" "\<forall>w i x c st. t \<noteq> SReply w i x c st"
      "\<forall>w eo. t \<noteq> SRefEnd w eo"
    by blast
  then show ?thesis
  proof cases
    case 5
    then show ?thesis using assms
      by (cases t) (auto simp: sexec_defs Let_def loop_rank_def split: session_splits dest!: drop_frame)
  qed (use assms rank_ensure rank_loop rank_reply rank_end in auto)
qed

end
