(* ===== verification/SessionProperties.thy ===== *)
theory SessionProperties
  imports SessionProgress
begin

text \<open>
  What the session manager promises: single-flight refreshes that end, a usable instance for
  every caller, a quota memory, guards against stale replies, and the persisted session after
  a shutdown; and the two interleavings in which a caller gets the wrong answer.
\<close>

subsection \<open>Concrete executions\<close>

abbreviation splay :: "(nat \<times> senv) list \<Rightarrow> session_system \<Rightarrow> session_system option" where
  "splay \<equiv> play sexec"

lemmas splay_reach = sess.play_reach

lemma sspawn_reach: "session_reach (m, ts) \<Longrightarrow> session_entry t \<Longrightarrow> session_reach (m, ts @ [[t]])"
  by (rule session_reach.sstep [OF _ session_step.sspawn])

definition at_time :: "gotime \<Rightarrow> session_state + gerr \<Rightarrow> senv" where
  "at_time now r = \<lparr>sv_now = now, sv_ctx = None, sv_reply = r, sv_owner = None, sv_alive = False, sv_zone = None,
     sv_pick = False\<rparr>"

definition active_reply :: "string \<Rightarrow> gotime \<Rightarrow> session_state" where
  "active_reply i ex = (blank_state ''active'')\<lparr>ss_instance := i, ss_expires := ex\<rparr>"

definition quota_reply :: session_state where
  "quota_reply = (active_reply ''i1'' hour)\<lparr>ss_quota := Some [(''m'', \<lparr>mq_model = ''m'', mq_limit = 5, mq_recent = 1,
     mq_reset_at = zero_time, mq_period = [], mq_entitlement = []\<rparr>)]\<rparr>"

text \<open>A first request: check, loop, persisted state, adoption, guard, POST, reply, end, result.\<close>

definition first_request :: "session_state \<Rightarrow> session_system option" where
  "first_request st = splay (replicate 9 (0, at_time 0 (Inl st))) (new_manager ''k'' None, [[SEnsure 0 ''m'']])"

lemma first_request_reach: "first_request st = Some s \<Longrightarrow> session_reach s"
  using splay_reach [of "(new_manager ''k'' None, [[SEnsure 0 ''m'']])"]
    sspawn_reach [OF session_reach.sinit, of "SEnsure 0 ''m''" "''k''" None]
  by (simp add: first_request_def)

lemma first_request_facts:
  "case first_request quota_reply of None \<Rightarrow> False | Some (m, ts) \<Rightarrow>
     ts = [[SAfter 0 ''m'']] \<and> sm_state m \<noteq> None \<and> known_quota m \<and> state_instance m = ''i1''"
  by code_simp

lemma first_request_state:
  obtains m where "first_request quota_reply = Some (m, [[SAfter 0 ''m'']])"
    "session_reach (m, [[SAfter 0 ''m'']])" "sm_state m \<noteq> None" "known_quota m" "state_instance m = ''i1''"
proof -
  obtain m ts where p: "first_request quota_reply = Some (m, ts)"
    using first_request_facts by (cases "first_request quota_reply") auto
  with first_request_facts first_request_reach [OF p] show ?thesis using that by auto
qed

subsection \<open>Refreshing\<close>

text \<open>
  C11: refreshing is single-flight and never panics.  In every interleaving of requests, the
  background re-admit, polls, invalidations, setters and shutdown there is exactly one
  refresher while the manager says it is refreshing and none otherwise; its channel is open
  and is closed once; no step dereferences nil; and the channel every parked waiter waits on
  is closed or belongs to that refresh.
\<close>

theorem session_refresh_single_flight:
  assumes "session_reach (m, ts)"
  shows "\<not> sm_panic m \<and> pend refreshes ts = (if sm_refreshing m then 1 else 0) \<and>
    (sm_refreshing m \<longleftrightarrow> (\<exists>c. sm_ch m = Some c \<and> c \<notin> set (sm_done m))) \<and> (\<forall>t \<in> set (concat ts). parked_ok m t)"
  using flight_reach [OF assms] refresh_token [OF assms] parked_reach [OF assms] by (auto simp: flight_ok_def)

theorem session_refresh_single_flight_witness:
  "\<exists>m. first_request quota_reply = Some (m, [[SAfter 0 ''m'']]) \<and> \<not> sm_panic m \<and> \<not> sm_refreshing m"
proof -
  obtain m where m: "first_request quota_reply = Some (m, [[SAfter 0 ''m'']])" "session_reach (m, [[SAfter 0 ''m'']])"
    by (rule first_request_state)
  have "pend refreshes [[SAfter 0 ''m'']] = 0" by simp
  with session_refresh_single_flight [OF m(2)] m(1) show ?thesis by (auto split: if_splits)
qed

text \<open>
  C12: every call makes progress.  Each section a goroutine runs leaves it strictly less to do,
  so \<open>EnsureSessionForModel\<close> returns after at most 2,201 of its own sections, counting those of
  the re-admit it starts, however the upstream answers; with the single flight above, a
  parked waiter is always woken by a refresh that ends.
\<close>

theorem session_sections_bounded:
  assumes "session_reach (m, ts)" "i < length ts" "ts ! i = t # rest" "sexec e t m = Some (new, sp, m')"
  shows "rank_of (new @ rest) + rank_of sp < rank_of (ts ! i) \<and> section_rank (SEnsure 0 model) = 2201"
proof -
  have "refreshes t \<Longrightarrow> sm_refreshing m"
    using refresh_token [OF assms(1)] pend_pos [OF assms(2), of t refreshes] assms(3) by (auto split: if_splits)
  moreover have "blind t \<Longrightarrow> sm_state m = None"
    using blind_reach [OF assms(1)] pend_pos [OF assms(2), of t blind] assms(3) by auto
  ultimately have "rank_of new + rank_of sp < section_rank t"
    by (rule rank_step [OF assms(4) flight_reach [OF assms(1)]])
  then show ?thesis using assms(3) by (simp add: attempt_rank_def)
qed

theorem session_sections_bounded_witness:
  "\<exists>m. first_request quota_reply = Some (m, [[SAfter 0 ''m'']]) \<and>
     rank_of (fst (after_refresh (at_time 0 (Inl quota_reply)) 0 ''m'' m)) < rank_of [SAfter 0 ''m'']"
proof -
  obtain m where m: "first_request quota_reply = Some (m, [[SAfter 0 ''m'']])" "session_reach (m, [[SAfter 0 ''m'']])"
    by (rule first_request_state)
  obtain new sp m' where a: "after_refresh (at_time 0 (Inl quota_reply)) 0 ''m'' m = (new, sp, m')"
    by (cases "after_refresh (at_time 0 (Inl quota_reply)) 0 ''m'' m")
  have "rank_of (new @ []) + rank_of sp < rank_of ([[SAfter 0 ''m'']] ! 0) \<and> section_rank (SEnsure 0 ''m'') = 2201"
    by (rule session_sections_bounded [OF m(2), where t = "SAfter 0 ''m''" and e = "at_time 0 (Inl quota_reply)"])
      (simp_all add: a)
  with m a show ?thesis by simp
qed

text \<open>
  A pre-emptive re-admit is triggered at most once per session expiry.  Two triggers with
  no other in between are for different expiry times, so a failed re-admit is not repeated
  by the requests that ride the old session.
\<close>

theorem re_admit_once_per_expiry:
  assumes "session_reach (m, ts)"
  shows "distinct_adj (triggers (sm_log m)) \<and>
    (\<forall>s. sm_state m = Some s \<and> triggers (sm_log m) \<noteq> [] \<and> hd (triggers (sm_log m)) = cs_expires s \<longrightarrow>
       (\<forall>e model. fst (snd (ensure_ride e model s m)) = []))"
  using once_reach [OF assms] by (auto simp: once_per_expiry_def ensure_ride_def ensured_def)

text \<open>A session about to expire, ridden by a second request which triggers the re-admit.\<close>

definition ridden :: "session_system option" where
  "ridden = splay (replicate 10 (0, at_time 0 (Inl (active_reply ''i1'' hour))) @ [(1, at_time (hour - 30 * second) (Inr ECanceled))])
     (session_apply (SetReAdmitLead minute) (new_manager ''k'' None), [[SEnsure 0 ''m''], [SEnsure 0 ''m'']])"

lemma two_requests_reach:
  "session_reach (session_apply op (new_manager k st), [[SEnsure 0 a], [SEnsure 0 b]])"
proof -
  have "session_reach (session_apply op (new_manager k st), [])"
    by (rule session_reach.sstep [OF session_reach.sinit session_step.slocal])
  from sspawn_reach [OF this, of "SEnsure 0 a"] have "session_reach (session_apply op (new_manager k st), [[SEnsure 0 a]])"
    by simp
  from sspawn_reach [OF this, of "SEnsure 0 b"] show ?thesis by simp
qed

lemma ridden_facts:
  "case ridden of None \<Rightarrow> False | Some (m, ts) \<Rightarrow> triggers (sm_log m) = [hour] \<and> sm_state m \<noteq> None \<and>
     (case sm_state m of None \<Rightarrow> False | Some s \<Rightarrow> cs_expires s = hour) \<and>
     ts = [[], [STrigger ''m'' ''i1''], [SSkip (Background ''m'')]]"
  by code_simp

theorem re_admit_once_per_expiry_witness:
  "\<exists>m s. ridden = Some (m, [[], [STrigger ''m'' ''i1''], [SSkip (Background ''m'')]]) \<and> sm_state m = Some s \<and>
     fst (snd (ensure_ride (at_time (hour - 20 * second) (Inr ECanceled)) ''m'' s m)) = []"
proof -
  obtain m ts where p: "ridden = Some (m, ts)" using ridden_facts by (cases ridden) auto
  have r: "session_reach (m, ts)" using p unfolding ridden_def by (rule splay_reach [OF two_requests_reach])
  have f: "triggers (sm_log m) = [hour]" "ts = [[], [STrigger ''m'' ''i1''], [SSkip (Background ''m'')]]"
    "case sm_state m of None \<Rightarrow> False | Some s \<Rightarrow> cs_expires s = hour"
    using ridden_facts unfolding p by simp_all
  then obtain s where s: "sm_state m = Some s" "cs_expires s = hour" by (cases "sm_state m") auto
  then have "\<forall>e model. fst (snd (ensure_ride e model s m)) = []" using re_admit_once_per_expiry [OF r] f(1) by simp
  then show ?thesis using p f(2) s(1) by blast
qed

subsection \<open>What a caller gets\<close>

fun results :: "slog list \<Rightarrow> (string \<times> (string + gerr)) list" where
  "results [] = []"
| "results (LEnsured md r # ls) = (md, r) # results ls"
| "results (_ # ls) = results ls"

definition same_results :: "smanager \<Rightarrow> smanager \<Rightarrow> bool" where
  "same_results m m' \<longleftrightarrow> results (sm_log m') = results (sm_log m)"

lemma same_results_simps [simp]:
  "same_results m m" "same_results m (commit co m)" "same_results m (update_quota st m)"
  "same_results m (m\<lparr>sm_store := x\<rparr>)" "same_results m (m\<lparr>sm_admitted := n\<rparr>)"
  "same_results m ((commit co m)\<lparr>sm_admitted := n\<rparr>)" "same_results m (save_state now m)"
  "same_results m (record_invalidation r now m)"
  "same_results m (record_model_lock a b m)" "same_results m (record_model_unavailable tz now t w raw m)"
  "same_results m (m\<lparr>sm_panic := True\<rparr>)"
  "same_results m (logged (LGet i) m)" "same_results m (logged (LCreate t) m)" "same_results m (logged LProbe m)"
  "same_results m (logged LEnd m)"
  by (simp_all add: same_results_def record_invalidation_def Let_def)

lemma same_results_drop: "drop_instance i m = (b, m') \<Longrightarrow> same_results m m'"
  by (auto simp: drop_instance_def split: option.splits if_splits)

fun answers :: "stask \<Rightarrow> bool" where
  "answers (SEnsure n md) = True"
| "answers (SRecheck md err) = True"
| "answers (SAfter n md) = True"
| "answers (SPark n md ch) = True"
| "answers (SRefEnd w eo) = True"
| "answers (STrigger md i) = True"
| "answers _ = False"

lemma same_results_step: "sexec e t m = Some (new, sp, m') \<Longrightarrow> \<not> answers t \<Longrightarrow> same_results m m'"
  by (cases t) (auto simp: sexec_defs Let_def split: session_splits dest!: same_results_drop)

text \<open>The result a section reports, if it reports one.\<close>

definition reported :: "smanager \<Rightarrow> sstep \<Rightarrow> (string \<times> (string + gerr)) option" where
  "reported m x = (let rs = results (sm_log (snd (snd x))) in
     if length rs = length (results (sm_log m)) then None else Some (hd rs))"

lemma reported_simps [simp]:
  "reported m (ensured md r m) = Some (md, r)" "reported m (ensure_refresh n md m) = None"
  "reported m (new, sp, m) = None"
  "reported m (new, sp, logged (LTrigger x) (open_flight (m\<lparr>sm_expiry := y\<rparr>))) = None"
  by (simp_all add: reported_def ensured_def ensure_refresh_def Let_def)

lemma ensure_reports:
  "reported m (ensure e n model m) = Some (md, Inl inst) \<Longrightarrow> md = model \<and> (\<exists>s. sm_state m = Some s \<and>
     (if cs_status s = ''disabled'' \<and> inst = [] then True
      else cs_instance s = inst \<and> session_usable (sv_now e) s \<and> model_fits model s))"
  by (auto simp: ensure_def ensure_ride_def split: option.splits if_splits)

lemma recheck_reports:
  "reported m (recheck e md err m) = Some (md', Inl inst) \<Longrightarrow>
     \<exists>s. sm_state m = Some s \<and> cs_instance s = inst \<and> session_usable (sv_now e) s"
  by (auto simp: recheck_def split: option.splits if_splits)

lemma after_reports:
  "reported m (after_refresh e n md m) = Some (md', Inl inst) \<Longrightarrow> \<exists>s. sm_state m = Some s \<and>
     (cs_status s = ''active'' \<and> cs_instance s = inst \<or> cs_status s = ''disabled'' \<and> inst = [])"
  by (auto simp: after_refresh_def Let_def split: option.splits if_splits)

lemma park_reports: "park e n md ch m = Some x \<Longrightarrow> reported m x \<noteq> Some (md', Inl inst)"
  by (auto simp: park_def Let_def split: option.splits if_splits)

lemma end_reports: "reported m (end_refresh w eo m) \<noteq> Some (md, Inl inst)"
  by (auto simp: end_refresh_def reported_def ensured_def Let_def split: session_splits)

text \<open>
  An instance handed to a caller is the cached session's.  Whenever a section of
  \<open>EnsureSessionForModel\<close> returns an instance id, the cached session at that instant is that
  instance and is active or usable (the lead and grace windows included), the session is
  disabled (the empty id), or it is the instance the request rode when it triggered the
  re-admit.  On the fast path the model fits too.
\<close>

theorem ensured_instance_is_cached:
  assumes "sexec e t m = Some (new, sp, m')" "sm_log m' = LEnsured model (Inl inst) # sm_log m"
  shows "t = STrigger model inst \<or> (\<exists>s. sm_state m = Some s \<and>
    (if cs_status s = ''disabled'' \<and> inst = [] then True
     else cs_instance s = inst \<and> (cs_status s = ''active'' \<or> session_usable (sv_now e) s) \<and>
       (\<forall>n. t = SEnsure n model \<longrightarrow> model_fits model s)))"
proof -
  have rep: "reported m (new, sp, m') = Some (model, Inl inst)"
    and r: "results (sm_log m') \<noteq> results (sm_log m)"
    by (simp_all add: assms(2) reported_def)
  show ?thesis
  proof (cases t)
    case (SEnsure n md)
    then have "reported m (ensure e n md m) = Some (model, Inl inst)" using assms(1) rep by simp
    then obtain s where "sm_state m = Some s" "if cs_status s = ''disabled'' \<and> inst = [] then True
        else cs_instance s = inst \<and> session_usable (sv_now e) s \<and> model_fits model s"
      using ensure_reports by blast
    then show ?thesis by (cases "cs_status s = ''disabled'' \<and> inst = []") auto
  next
    case (SRecheck md err)
    then have "reported m (recheck e md err m) = Some (model, Inl inst)" using assms(1) rep by simp
    from recheck_reports [OF this] SRecheck show ?thesis by auto
  next
    case (SAfter n md)
    then have "reported m (after_refresh e n md m) = Some (model, Inl inst)" using assms(1) rep by simp
    from after_reports [OF this] SAfter show ?thesis by auto
  next
    case (SPark n md ch)
    then show ?thesis using assms(1) rep park_reports by simp
  next
    case (SRefEnd w eo)
    then show ?thesis using assms(1) rep end_reports [of m w eo model inst] by simp
  next
    case (STrigger md i)
    then have "sm_log m' = LEnsured md (Inl i) # sm_log m" using assms(1) by (auto simp: ensured_def)
    then have "md = model \<and> i = inst" using assms(2) by simp
    with STrigger show ?thesis by simp
  qed (use r same_results_step [OF assms(1)] in \<open>simp_all add: same_results_def\<close>)
qed

definition cached_i1 :: smanager where
  "cached_i1 = (new_manager ''k'' None)\<lparr>sm_state := Some (active_row ''m'' (active_reply ''i1'' hour))\<rparr>"

lemma cached_i1_row:
  "sm_state cached_i1 = Some (active_row ''m'' (active_reply ''i1'' hour))"
  "cs_instance (active_row ''m'' (active_reply ''i1'' hour)) = ''i1''"
  "cs_status (active_row ''m'' (active_reply ''i1'' hour)) = ''active''"
  by (simp_all add: cached_i1_def active_row_def active_reply_def blank_cached_def)

theorem ensured_instance_is_cached_witness:
  "\<exists>s. sm_state cached_i1 = Some s \<and> cs_instance s = ''i1''"
proof -
  have "sexec (at_time 0 (Inr ECanceled)) (SAfter 0 ''m'') cached_i1 =
      Some ([], [], logged (LEnsured ''m'' (Inl ''i1'')) cached_i1)"
    by (simp add: after_refresh_def ensured_def cached_i1_row)
  from ensured_instance_is_cached [OF this logged_frame(6)] show ?thesis
    by (auto split: if_splits)
qed

subsection \<open>Memory and guards\<close>

text \<open>
  The quota view survives invalidation.  Once a reply carried a quota map, every later
  state of the manager still knows one: a step never forgets it, and every cached session
  carries a map, whatever is invalidated, re-admitted or answered without quotas.
\<close>

theorem quota_survives_invalidation:
  assumes "session_reach (m, ts)" "known_quota m" "session_step (m, ts) (m', ts')"
  shows "known_quota m' \<and> (\<forall>s. sm_state m' = Some s \<and> sm_quota m' \<noteq> None \<longrightarrow> cs_quota s \<noteq> None)"
proof -
  have "keeps m m'" using assms(3)
  proof (cases rule: session_step.cases)
    case (sthread i t rest e new spawned)
    then show ?thesis using keeps_step [of e t m new spawned m'] by simp
  qed simp_all
  moreover have "remembers m'" by (rule remembers_reach [OF session_reach.sstep [OF assms(1,3)]])
  ultimately show ?thesis using assms(2) unfolding keeps_def remembers_def by blast
qed

theorem quota_survives_invalidation_witness:
  "\<exists>m. first_request quota_reply = Some (m, [[SAfter 0 ''m'']]) \<and> known_quota m"
proof -
  obtain m where m: "first_request quota_reply = Some (m, [[SAfter 0 ''m'']])" "session_reach (m, [[SAfter 0 ''m'']])"
      "known_quota m"
    by (rule first_request_state)
  have "session_step (m, [[SAfter 0 ''m'']]) (m, [[SAfter 0 ''m'']] @ [[SPoll]])" by (rule session_step.sspawn) simp
  from quota_survives_invalidation [OF m(2,3) this] m(1) show ?thesis by blast
qed

text \<open>
  C13: a stale reply cannot hurt a newer session.  A poll reply, a poll failure or an
  invalidation that concerns another instance than the cached one leaves the cached session
  and the persisted entry untouched.
\<close>

theorem stale_reply_keeps_session:
  assumes "sexec e t m = Some (new, sp, m')" "t \<in> {SPolled inst st, SPollFail inst err, SInvalidateInstance inst r}"
    and "sm_state m = Some s" "cs_instance s \<noteq> inst"
  shows "sm_state m' = Some s \<and> sm_store m' = sm_store m \<and> new = []"
  using assms
  by (auto simp: polled_def poll_drop_def drop_instance_def invalidate_instance_def Let_def split: session_splits)

theorem stale_reply_keeps_session_witness:
  "sm_state (snd (snd (poll_drop ''i0'' ''409'' cached_i1))) = sm_state cached_i1"
proof -
  obtain new sp m' where p: "poll_drop ''i0'' ''409'' cached_i1 = (new, sp, m')"
    by (cases "poll_drop ''i0'' ''409'' cached_i1")
  have "sexec (at_time 0 (Inr ECanceled)) (SInvalidateInstance ''i0'' ''409'') cached_i1 = Some (new, sp, m')"
    by (simp add: invalidate_instance_def p)
  from stale_reply_keeps_session [OF this, of "''i0''" "blank_state []" ECanceled "''409''"] p show ?thesis
    by (simp add: cached_i1_row)
qed

subsection \<open>The background re-admit\<close>

text \<open>
  What a reply does to the session being ridden.  A pre-emptive re-admit keeps the
  cached session on every answer that admits nothing (a queue, an ended or superseded row, any refusal
  of the account, the country, the address or the quota, an unknown status) except two: on
  \<open>model_locked\<close> and on \<open>model_unavailable\<close> it drops the session the triggering request is
  riding, and on the first it also deletes it upstream.
\<close>

theorem background_reply_keeps_session:
  assumes "refresh_reply e (Background model) i t st m = (new, sp, m')" "sm_state m = Some s"
    and "ss_status st \<notin> {''active'', ''disabled''}"
  shows "(sm_state m' = None \<or> SDrop \<in> set new \<longleftrightarrow> ss_status st \<in> {''model_locked'', ''model_unavailable''}) \<and>
    (SDelete \<in> set new \<longleftrightarrow> ss_status st = ''model_locked'') \<and> (sm_state m' = None \<or> sm_state m' = Some s)"
  using assms
  by (auto simp: refresh_reply_def preemptive_def refused_status_def Let_def split: if_splits)

theorem background_reply_keeps_session_witness:
  "sm_state (snd (snd (refresh_reply (at_time 0 (Inr ECanceled)) (Background ''m'') 0 ''m'' (blank_state ''ended'') cached_i1))) \<noteq> None \<and>
   sm_state (snd (snd (refresh_reply (at_time 0 (Inr ECanceled)) (Background ''m'') 0 ''m'' (blank_state ''model_locked'') cached_i1))) = None"
proof -
  obtain n1 s1 m1 where a: "refresh_reply (at_time 0 (Inr ECanceled)) (Background ''m'') 0 ''m'' (blank_state ''ended'') cached_i1 = (n1, s1, m1)"
    by (rule prod_cases3)
  obtain n2 s2 m2 where b: "refresh_reply (at_time 0 (Inr ECanceled)) (Background ''m'') 0 ''m'' (blank_state ''model_locked'') cached_i1 = (n2, s2, m2)"
    by (rule prod_cases3)
  have "SDrop \<notin> set n2" using b by (auto simp: refresh_reply_def blank_state_def refused_status_def Let_def)
  then show ?thesis
    using background_reply_keeps_session [OF a cached_i1_row(1)] background_reply_keeps_session [OF b cached_i1_row(1)] a b
    by (simp add: blank_state_def)
qed

subsection \<open>Shutdown and restart\<close>

text \<open>
  A session survives a shutdown.  After \<open>Shutdown\<close> with persistence, a new manager over
  the same file that is asked for the same model, before the session's expiry margin, goes
  to resume exactly that instance instead of creating one; a scarce session with time left is
  not even deleted upstream.
\<close>

theorem session_survives_shutdown:
  assumes "sm_store m = Some s" "sm_key m \<noteq> []" "store_ok s" "\<not> unreadable (so_disk s)" "dk_writes (so_disk s) = []"
    and "sm_state m = Some c" "cs_status c = ''active''" "cs_instance c \<noteq> []" "\<not> is_zero (cs_expires c)"
    and "sv_now e \<le> sv_now e'" "sv_now e' < cs_expires c - expiry_margin" "\<not> expired_at (sv_now e') c"
    and "shutdown e m = (new, sp, m')" "sm_store m' = Some s'" "model = [] \<or> cs_model c = [] \<or> cs_model c = model"
  shows "fst (load_persisted e' w i model (new_manager (sm_key m) (Some (new_store (so_disk s'))))) =
      [SResume w i model (cs_instance c)] \<and>
    (cs_model c \<in> set (sm_scarce m) \<and> 0 < tsub (cs_expires c) (sv_now e) \<longrightarrow> new = [])"
proof -
  have p: "persistable c" using assms(8) by (simp add: persistable_def)
  have x: "\<not> expired_at (sv_now e) c" using assms(10,12) by (auto simp: expired_at_def)
  have "so_disk s' = so_disk (store_save (sm_key m) (Some c) s)"
    using assms(1,6,8,13,14) saved_reads_back(2) [OF assms(3,4,5,2) p x]
    by (auto simp: shutdown_def save_state_def Let_def)
  then have "fst (store_load (sm_key m) (sv_now e') (new_store (so_disk s'))) = Some (resumed c)"
    using saved_reads_back(1) [OF assms(3,4,5,2) p assms(12)] by simp
  then obtain s2 where "store_load (sm_key m) (sv_now e') (new_store (so_disk s')) = (Some (resumed c), s2)"
    by (metis prod.collapse)
  then have "fst (load_persisted e' w i model (new_manager (sm_key m) (Some (new_store (so_disk s'))))) =
      [SResume w i model (cs_instance c)]"
    using assms(2,7-9,11,15) by (auto simp: load_persisted_def new_manager_def resumed_def)
  moreover have "cs_model c \<in> set (sm_scarce m) \<and> 0 < tsub (cs_expires c) (sv_now e) \<longrightarrow> new = []"
    using assms(1,6-9,13) by (auto simp: shutdown_def scarce_keep_def)
  ultimately show ?thesis by simp
qed

definition persisting :: smanager where
  "persisting = (new_manager ''k'' (Some (new_store empty_disk)))\<lparr>sm_state := Some sample_session, sm_scarce := [''m'']\<rparr>"

theorem session_survives_shutdown_witness:
  "fst (load_persisted (at_time 5 (Inr ECanceled)) (Caller 0 ''m'') 0 ''m'' (new_manager ''k'' (Some (new_store
     (case sm_store (snd (snd (shutdown (at_time 0 (Inr ECanceled)) persisting))) of Some s \<Rightarrow> so_disk s))))) =
   [SResume (Caller 0 ''m'') 0 ''m'' ''i1'']"
proof -
  obtain new sp m' where a: "shutdown (at_time 0 (Inr ECanceled)) persisting = (new, sp, m')" by (rule prod_cases3)
  then obtain s' where s: "sm_store m' = Some s'"
    by (auto simp: shutdown_def persisting_def new_manager_def save_state_def sample_session_def Let_def)
  have "fst (load_persisted (at_time 5 (Inr ECanceled)) (Caller 0 ''m'') 0 ''m''
      (new_manager (sm_key persisting) (Some (new_store (so_disk s'))))) = [SResume (Caller 0 ''m'') 0 ''m'' (cs_instance sample_session)]"
    by (rule session_survives_shutdown [where c = sample_session and s = "new_store empty_disk", OF _ _ _ _ _ _ _ _ _ _ _ _ a s, THEN conjunct1])
      (auto simp: persisting_def new_manager_def sample_session_def at_time_def is_zero_def zero_time_def
        expiry_margin_def expired_at_def)
  with a s show ?thesis by (simp add: persisting_def new_manager_def sample_session_def)
qed

subsection \<open>Where a caller gets the wrong answer\<close>

text \<open>One goroutine alone, with at most \<open>f\<close> sections.\<close>

fun srun :: "senv \<Rightarrow> nat \<Rightarrow> stask list \<Rightarrow> smanager \<Rightarrow> stask list \<times> smanager" where
  "srun e 0 ts m = (ts, m)"
| "srun e (Suc f) [] m = ([], m)"
| "srun e (Suc f) (t # ts) m = (case sexec e t m of None \<Rightarrow> (t # ts, m) | Some (new, sp, m') \<Rightarrow> srun e f (new @ ts) m')"

definition in_grace :: "senv \<Rightarrow> string \<Rightarrow> smanager \<Rightarrow> bool" where
  "in_grace e model m \<longleftrightarrow> sv_ctx e = None \<and> model_unavailable_until model (sv_now e) m \<noteq> None \<and> \<not> sm_refreshing m \<and>
     (\<forall>c \<in> set (sm_done m). c < sm_next_ch m) \<and>
     (\<exists>s. sm_state m = Some s \<and> cs_status s = ''ended'' \<and> cs_model s = fallback_model \<and> session_usable (sv_now e) s)"

lemma unavailable_not_fallback: "model_unavailable_until model now m \<noteq> None \<Longrightarrow> model \<noteq> [] \<and> model \<noteq> fallback_model"
  by (auto simp: model_unavailable_until_def split: if_splits)

lemma grace_round:
  assumes "in_grace e model m" "n < max_outer_iterations"
  shows "\<exists>m'. srun e (5 + f) [SEnsure n model] m = srun e f [SEnsure (n + 1) model] m' \<and> in_grace e model m' \<and>
    sm_log m' = sm_log m"
proof -
  obtain s where s: "sm_state m = Some s" "cs_status s = ''ended''" "cs_model s = fallback_model"
      "session_usable (sv_now e) s" and g: "sv_ctx e = None" "model_unavailable_until model (sv_now e) m \<noteq> None"
      "\<not> sm_refreshing m" "\<forall>c \<in> set (sm_done m). c < sm_next_ch m"
    using assms(1) by (auto simp: in_grace_def)
  obtain t where t: "model_unavailable_until model (sv_now e) m = Some t" using g(2) by blast
  have u: "model_unavailable_until model (sv_now e) (open_flight m) = Some t"
    unfolding t [symmetric] by (simp add: model_unavailable_until_def open_flight_def)
  have nf: "\<not> model_fits model s"
    using unavailable_not_fallback [OF g(2)] s(3) by (auto simp: model_fits_def fallback_model_def)
  have o: "sm_next_ch m \<notin> set (sm_done m)" using g(4) by auto
  let ?m = "(open_flight m)\<lparr>sm_refreshing := False, sm_done := sm_next_ch m # sm_done m, sm_ch := None\<rparr>"
  have 1: "sexec e (SEnsure n model) m = Some ([SSkip (Caller n model)], [], open_flight m)"
    using assms(2) s g nf by (simp add: ensure_def ensure_refresh_def)
  have 2: "sexec e (SSkip (Caller n model)) (open_flight m) = Some ([SSkipTo (Caller n model)], [], open_flight m)"
    using u by (simp add: skip_check_def who_model_def)
  have 3: "sexec e (SSkipTo (Caller n model)) (open_flight m) = Some ([SRefEnd (Caller n model) None], [], open_flight m)"
    using s by (simp add: skip_to_fallback_def)
  have 4: "sexec e (SRefEnd (Caller n model) None) (open_flight m) = Some ([SAfter n model], [], ?m)"
    using o by (simp add: end_refresh_def Let_def open_flight_def)
  have 5: "sexec e (SAfter n model) ?m = Some ([SEnsure (n + 1) model], [], ?m)"
    using s by (simp add: after_refresh_def open_flight_def)
  have "srun e (5 + f) [SEnsure n model] m = srun e f [SEnsure (n + 1) model] ?m"
    using 1 2 3 4 5 by (simp add: numeral_eq_Suc del: sexec.simps)
  moreover have "in_grace e model ?m"
    using s g t by (auto simp: in_grace_def model_unavailable_until_def open_flight_def)
  ultimately show ?thesis by (intro exI [of _ ?m]) (simp add: open_flight_def)
qed

lemma grace_rounds:
  "in_grace e model m \<Longrightarrow> n + k = max_outer_iterations \<Longrightarrow>
     \<exists>m'. srun e (5 * k + f) [SEnsure n model] m = srun e f [SEnsure max_outer_iterations model] m' \<and> sm_log m' = sm_log m"
proof (induction k arbitrary: n m)
  case (Suc k)
  then have "n < max_outer_iterations" by simp
  with grace_round [OF Suc.prems(1), of n "5 * k + f"] obtain m1 where
    m1: "srun e (5 + (5 * k + f)) [SEnsure n model] m = srun e (5 * k + f) [SEnsure (n + 1) model] m1"
      "in_grace e model m1" "sm_log m1 = sm_log m" by blast
  from Suc.IH [OF m1(2), of "n + 1"] Suc.prems(2) m1 show ?case by (auto simp: add.assoc [symmetric])
qed auto

text \<open>
  A usable fallback session is refused in its grace window.  When the requested model is
  remembered as unavailable and the cached session is one of the fallback model that a poll
  found ended but still in its grace window, \<open>refresh\<close> reports success because that session can
  be reused, but the result \<open>ended\<close> is none the caller accepts: it repeats ten times without one
  upstream call and fails with the not-ready error.
\<close>

theorem fallback_in_grace_is_refused:
  assumes "in_grace e model m"
  shows "\<exists>m'. srun e 52 [SEnsure 0 model] m = ([], m') \<and> sm_log m' = LEnsured model (Inr not_ready) # sm_log m"
proof -
  obtain m1 where m1: "srun e (5 * 10 + 2) [SEnsure 0 model] m = srun e 2 [SEnsure max_outer_iterations model] m1"
      "sm_log m1 = sm_log m"
    using grace_rounds [OF assms, of 0 10 2] by (auto simp: max_outer_iterations_def)
  have "srun e 2 [SEnsure max_outer_iterations model] m1 = ([], logged (LEnsured model (Inr not_ready)) m1)"
    by (simp add: numeral_eq_Suc ensure_def ensured_def)
  with m1 show ?thesis by simp
qed

definition graced :: smanager where
  "graced = (new_manager ''k'' None)\<lparr>sm_state := Some (ended_row (active_reply ''i1'' hour) fallback_model (2 * hour)),
     sm_unavail := [(''m'', 3 * hour, [])]\<rparr>"

theorem fallback_in_grace_is_refused_witness:
  "\<exists>m'. srun (at_time (hour + minute) (Inr ECanceled)) 52 [SEnsure 0 ''m''] graced = ([], m') \<and>
     sm_log m' = [LEnsured ''m'' (Inr not_ready)]"
proof -
  have "in_grace (at_time (hour + minute) (Inr ECanceled)) ''m'' graced"
    by (auto simp: in_grace_def graced_def at_time_def new_manager_def model_unavailable_until_def fallback_model_def
      ended_row_def blank_cached_def active_reply_def session_usable_def grace_ends_at_def is_zero_def zero_time_def)
  from fallback_in_grace_is_refused [OF this] show ?thesis by (simp add: graced_def new_manager_def)
qed

definition crossed :: "session_system option" where
  "crossed = (let old = at_time 0 (Inl (active_reply ''i1'' hour)); e = at_time (hour - 30 * second) (Inl (blank_state ''ended'')) in
     splay (replicate 10 (0, old) @ [(1, e), (2, e)] @ replicate 7 (3, e) @ replicate 3 (2, e))
       (session_apply (SetReAdmitLead minute) (new_manager ''k'' None), [[SEnsure 0 ''m''], [SEnsure 0 ''m''], [SEnsure 0 ''b'']]))"

text \<open>
  A waiter can be handed the session of another model.  A request for model \<open>b\<close> that parks
  while the pre-emptive re-admit of the session of model \<open>m\<close> runs gets, when the upstream
  refuses the re-admit, the instance of \<open>m\<close>: the branch that rides the old session after a
  failed refresh does not compare the models, as the fast path does.
\<close>

theorem waiter_gets_other_model:
  "\<exists>m ts s. crossed = Some (m, ts) \<and> session_reach (m, ts) \<and> sm_state m = Some s \<and> cs_model s = ''m'' \<and>
     cs_instance s = ''i1'' \<and> LEnsured ''b'' (Inl ''i1'') \<in> set (sm_log m) \<and> \<not> model_fits ''b'' s"
proof -
  have f: "case crossed of None \<Rightarrow> False | Some (m, ts) \<Rightarrow> LEnsured ''b'' (Inl ''i1'') \<in> set (sm_log m) \<and>
      (case sm_state m of None \<Rightarrow> False | Some s \<Rightarrow> cs_model s = ''m'' \<and> cs_instance s = ''i1'' \<and> \<not> model_fits ''b'' s)"
    by code_simp
  then obtain m ts where p: "crossed = Some (m, ts)" by (cases crossed) auto
  have "session_reach (session_apply (SetReAdmitLead minute) (new_manager ''k'' None),
      [[SEnsure 0 ''m''], [SEnsure 0 ''m''], [SEnsure 0 ''b'']])"
    using sspawn_reach [OF two_requests_reach, of "SEnsure 0 ''b''" "SetReAdmitLead minute" "''k''" None "''m''" "''m''"]
    by (simp del: session_apply.simps)
  then have "session_reach (m, ts)" using p unfolding crossed_def Let_def by (rule splay_reach)
  moreover obtain s where "sm_state m = Some s" "cs_model s = ''m''" "cs_instance s = ''i1''" "\<not> model_fits ''b'' s"
    using f unfolding p by (auto split: option.splits)
  moreover have "LEnsured ''b'' (Inl ''i1'') \<in> set (sm_log m)" using f unfolding p by simp
  ultimately show ?thesis using p by blast
qed

end
