(* ===== verification/SessionViews.thy ===== *)
theory SessionViews
  imports SessionProgress
begin

text \<open>
  The read-only views of a session manager (\<open>Snapshot\<close>, \<open>Usable\<close>, \<open>MatchesModel\<close>,
  \<open>HasGlmEntitlement\<close>, \<open>IsScarce\<close>, \<open>ModelLocked\<close>), and that the pool, which decides on a
  snapshot, and the manager, which decides on its cached row, agree on what is usable.
\<close>

record session_snapshot =
  sn_status :: string
  sn_instance :: string
  sn_model :: string
  sn_position :: int
  sn_depth :: int
  sn_refreshing :: bool
  sn_country :: string
  sn_block_reason :: string
  sn_active :: int
  sn_signals :: "string list"
  sn_limit :: rat
  sn_expires :: gotime
  sn_grace :: gotime
  sn_quota :: "(string \<times> model_quota) list"
  sn_entitlement :: "(string \<times> rat) list"
  sn_promo :: string
  sn_standing :: "standing option"

definition quota_list :: "(string \<times> model_quota) list option \<Rightarrow> (string \<times> model_quota) list" where
  "quota_list q = (case q of None \<Rightarrow> [] | Some qs \<Rightarrow> qs)"

definition blank_snapshot :: session_snapshot where
  "blank_snapshot = \<lparr>sn_status = [], sn_instance = [], sn_model = [], sn_position = 0, sn_depth = 0,
     sn_refreshing = False, sn_country = [], sn_block_reason = [], sn_active = 0, sn_signals = [], sn_limit = 0,
     sn_expires = zero_time, sn_grace = zero_time, sn_quota = [], sn_entitlement = [], sn_promo = [],
     sn_standing = None\<rparr>"

definition snapshot :: "smanager \<Rightarrow> session_snapshot" where
  "snapshot m = (case sm_state m of
     None \<Rightarrow> blank_snapshot\<lparr>sn_refreshing := sm_refreshing m, sn_quota := quota_list (sm_quota m), sn_promo := sm_promo m\<rparr>
   | Some s \<Rightarrow> \<lparr>sn_status = cs_status s, sn_instance = cs_instance s, sn_model = cs_model s,
       sn_position = cs_position s, sn_depth = cs_depth s, sn_refreshing = sm_refreshing m,
       sn_country = cs_country s, sn_block_reason = cs_block_reason s, sn_active = cs_active s,
       sn_signals = cs_signals s, sn_limit = cs_limit s, sn_expires = cs_expires s, sn_grace = cs_grace s,
       sn_quota = quota_list (cs_quota s), sn_entitlement = [], sn_promo = cs_promo s, sn_standing = cs_standing s\<rparr>)"

definition snapshot_usable :: "gotime \<Rightarrow> session_snapshot \<Rightarrow> bool" where
  "snapshot_usable now s \<longleftrightarrow> (if sn_instance s = [] then False
     else if sn_status s = ''active'' \<and> \<not> is_zero (sn_expires s) \<and> now < sn_expires s - expiry_margin then True
     else \<not> is_zero (sn_grace s) \<and> now < sn_grace s)"

definition matches_model :: "string \<Rightarrow> session_snapshot \<Rightarrow> bool" where
  "matches_model model s \<longleftrightarrow> model = [] \<or> sn_model s = [] \<or> sn_model s = model"

definition snapshot_has_glm :: "gotime \<Rightarrow> session_snapshot \<Rightarrow> bool" where
  "snapshot_has_glm now s \<longleftrightarrow> quota_entitles now (Some (sn_quota s)) \<or>
     (sn_promo s \<noteq> [] \<and> promo_entitles now (sn_promo s)) \<or>
     (\<exists>k \<in> {''glm'', glm_model}. case map_of (sn_entitlement s) k of None \<Rightarrow> False | Some x \<Rightarrow> 0 < x)"

definition is_scarce :: "string \<Rightarrow> smanager \<Rightarrow> bool" where
  "is_scarce model m \<longleftrightarrow> model \<in> set (sm_scarce m)"

definition model_locked :: "smanager \<Rightarrow> (string \<times> (string \<times> int) list) list" where
  "model_locked m = sm_locked m"

subsection \<open>The rows of the cache\<close>

definition row_ok :: "cached \<Rightarrow> bool" where
  "row_ok s \<longleftrightarrow> (cs_status s = ''active'' \<and> cs_grace s = cs_expires s + grace_window) \<or>
     (cs_status s = ''disabled'' \<and> cs_instance s = []) \<or>
     (cs_status s = ''queued'' \<and> is_zero (cs_expires s) \<and> is_zero (cs_grace s)) \<or>
     (cs_status s = ''ended'' \<and> cs_instance s \<noteq> [] \<and> \<not> is_zero (cs_grace s))"

definition rows_ok :: "smanager \<Rightarrow> bool" where
  "rows_ok m \<longleftrightarrow> (\<forall>s. sm_state m = Some s \<longrightarrow> row_ok s)"

lemma row_ok_saved [simp]: "row_ok (with_saved m c) = row_ok c"
  by (simp add: row_ok_def with_saved_def)

lemma row_ok_rows [simp]:
  "row_ok (active_row t st)" "row_ok (blank_cached ''disabled'')" "row_ok (queued_row now t st)"
  "ss_instance st \<noteq> [] \<Longrightarrow> \<not> is_zero g \<Longrightarrow> row_ok (ended_row st model g)"
  by (simp_all add: row_ok_def active_row_def queued_row_def ended_row_def blank_cached_def is_zero_def)

definition keeps_rows :: "smanager \<Rightarrow> smanager \<Rightarrow> bool" where
  "keeps_rows m m' \<longleftrightarrow> (rows_ok m \<longrightarrow> rows_ok m')"

lemma keeps_rows_same: "sm_state m' = sm_state m \<Longrightarrow> keeps_rows m m'"
  by (simp add: keeps_rows_def rows_ok_def)

lemma keeps_rows_simps [simp]:
  "keeps_rows m m" "keeps_rows m (logged l m)" "keeps_rows m (m\<lparr>sm_store := x\<rparr>)" "keeps_rows m (m\<lparr>sm_admitted := n\<rparr>)"
  "keeps_rows m (save_state now m)" "keeps_rows m (record_trigger now m)" "keeps_rows m (record_invalidation r now m)"
  "keeps_rows m (record_model_lock a b m)" "keeps_rows m (record_model_unavailable tz now t w raw m)"
  "keeps_rows m (logged l (record_trigger now m))" "keeps_rows m (session_apply op m)" "keeps_rows m (open_flight m)"
  "keeps_rows m (logged l (open_flight (m\<lparr>sm_expiry := y\<rparr>)))" "keeps_rows m (m\<lparr>sm_panic := True\<rparr>)"
  by (rule keeps_rows_same; simp add: logged_def)+

lemma keeps_rows_commit [simp]:
  "keeps_rows m (commit None m)" "row_ok c \<Longrightarrow> keeps_rows m (commit (Some c) m)"
  "row_ok c \<Longrightarrow> keeps_rows m ((commit (Some c) m)\<lparr>sm_admitted := n\<rparr>)"
  by (simp_all add: keeps_rows_def rows_ok_def)

lemma keeps_rows_update [simp]: "keeps_rows m (update_quota st m)"
  by (cases "sm_state m"; cases "ss_quota st")
    (auto simp: update_quota_def keeps_rows_def rows_ok_def row_ok_def Let_def)

lemma keeps_rows_drop: "drop_instance i m = (b, m') \<Longrightarrow> keeps_rows m m'"
  by (auto simp: drop_instance_def split: option.splits if_splits)

lemma keeps_rows_end: "end_refresh w eo m = (new, sp, m') \<Longrightarrow> keeps_rows m m'"
  by (rule keeps_rows_same) (auto simp: end_refresh_def ensured_def Let_def split: session_splits)

lemma keeps_rows_step: "sexec e t m = Some (new, sp, m') \<Longrightarrow> keeps_rows m m'"
  by (cases t) (auto simp: sexec_defs Let_def split: session_splits dest!: keeps_rows_drop dest: keeps_rows_end)

lemma rows_ok_reach:
  assumes "session_reach (m, ts)"
  shows "rows_ok m"
proof (rule sess.reach_induct [OF assms, where Q = "\<lambda>m ts. rows_ok m"])
  fix m m' :: smanager
  assume "rows_ok m" "\<exists>a. m' = session_apply a m"
  then show "rows_ok m'" using keeps_rows_simps(11) [of m] by (auto simp: keeps_rows_def)
next
  fix m m' e t new sp
  assume "rows_ok m" "sexec e t m = Some (new, sp, m')"
  then show "rows_ok m'" using keeps_rows_step [of e t m new sp m'] by (simp add: keeps_rows_def)
qed (auto simp: rows_ok_def new_manager_def)

text \<open>
  C14: the pool and the manager agree on usability.  In every reachable state the snapshot of
  the manager is usable at an instant exactly when its cached row is, although the snapshot
  reads the raw grace end where the manager computes one.
\<close>

theorem snapshot_usable_agrees:
  assumes "session_reach (m, ts)" "zero_time \<le> now"
  shows "snapshot_usable now (snapshot m) \<longleftrightarrow> (\<exists>s. sm_state m = Some s \<and> session_usable now s)"
proof (cases "sm_state m")
  case None
  then show ?thesis by (simp add: snapshot_def snapshot_usable_def blank_snapshot_def)
next
  case (Some s)
  then have "row_ok s" using rows_ok_reach [OF assms(1)] by (simp add: rows_ok_def)
  then show ?thesis using Some assms(2)
    by (auto simp: snapshot_def snapshot_usable_def session_usable_def row_ok_def grace_ends_at_def is_zero_def
        expiry_margin_def grace_window_def)
qed

theorem snapshot_usable_agrees_witness:
  "\<not> snapshot_usable 0 (snapshot (new_manager ''k'' None))"
  using snapshot_usable_agrees [OF session_reach.sinit, of 0 "''k''" None] by (simp add: zero_time_def new_manager_def)

end
