(* ===== verification/PacificTime.thy ===== *)
theory PacificTime
  imports GoTime
begin

text \<open>
  The Pacific calendar of \<open>internal/pool/spend.go\<close>: the starts of the day, the week and the
  month in Los Angeles, by the time-zone database or, without it, by the rule of US daylight
  saving time, and when such a period is over.

  \<open>us_pacific\<close> is the zone that rule describes; over it both computations agree at every
  instant, and the periods partition time.
\<close>

datatype period = Day | Week | Month

subsection \<open>The rule of daylight saving time\<close>

definition nth_sunday :: "int \<Rightarrow> int \<Rightarrow> int \<Rightarrow> gotime" where
  "nth_sunday y m n = (let f = day_of_civil y m 1 in midnight_of (f + (7 - weekday_of_day f) mod 7 + (n - 1) * 7))"

definition pacific_offset_at :: "gotime \<Rightarrow> duration" where
  "pacific_offset_at t = (let y = year_of_day (day_number t); spring = nth_sunday y 3 2 + 10 * hour;
       fall = nth_sunday y 11 1 + 9 * hour
     in if spring \<le> t \<and> t < fall then 7 * hour else 8 * hour)"

definition pacific_offset_at_midnight :: "int \<Rightarrow> int \<Rightarrow> int \<Rightarrow> duration" where
  "pacific_offset_at_midnight y m d = (let spring = nth_sunday y 3 2; fall = nth_sunday y 11 1; date = date_utc y m d 0
     in if spring < date \<and> date < fall + day then 7 * hour else 8 * hour)"

definition pacific_date :: "gotime \<Rightarrow> int \<times> int \<times> int" where
  "pacific_date t = civil_of_day (day_number (t - pacific_offset_at t))"

subsection \<open>Starts and ends of periods\<close>

text \<open>The calendar date may be out of range in month or day: \<open>time.Date\<close> and \<open>AddDate\<close> carry.\<close>

definition midnight_fallback :: "int \<Rightarrow> int \<Rightarrow> int \<Rightarrow> gotime" where
  "midnight_fallback y m d = (let (y', m', d') = civil_of_day (day_of_civil y m d)
     in date_utc y' m' d' 0 + pacific_offset_at_midnight y' m' d')"

definition pacific_day_start :: "zone option \<Rightarrow> gotime \<Rightarrow> gotime" where
  "pacific_day_start tz now = (case tz of
     Some z \<Rightarrow> let (y, m, d) = civil_in z now in date_in z y m d 0
   | None \<Rightarrow> let (y, m, d) = pacific_date now in date_utc y m d 0 + pacific_offset_at_midnight y m d)"

definition bucket_start_fallback :: "zone option \<Rightarrow> gotime \<Rightarrow> period \<Rightarrow> int" where
  "bucket_start_fallback tz now p = (let (y, m, d) = pacific_date now in
     case p of
       Week \<Rightarrow> (let back = (weekday_of_day (day_of_civil y m d) + 6) mod 7 in midnight_fallback y m (d - back) div second)
     | Month \<Rightarrow> (date_utc y m 1 0 + pacific_offset_at_midnight y m 1) div second
     | Day \<Rightarrow> pacific_day_start tz now div second)"

definition bucket_start :: "zone option \<Rightarrow> gotime \<Rightarrow> period \<Rightarrow> int" where
  "bucket_start tz now p = (case tz of
     None \<Rightarrow> bucket_start_fallback tz now p
   | Some z \<Rightarrow> (let (y, m, d) = civil_in z now in
       case p of
         Week \<Rightarrow> (let back = (weekday_of_day (day_number (local_time z now)) + 6) mod 7
                  in add_date z (date_in z y m d 0) 0 (- back) div second)
       | Month \<Rightarrow> date_in z y m 1 0 div second
       | Day \<Rightarrow> bucket_start_fallback tz now Day))"

definition fallback_next_boundary :: "gotime \<Rightarrow> int \<Rightarrow> int \<Rightarrow> gotime" where
  "fallback_next_boundary t months days = (let (y, m, d) = pacific_date t in midnight_fallback y (m + months) (d + days))"

definition next_midnight :: "zone option \<Rightarrow> gotime \<Rightarrow> gotime" where
  "next_midnight tz start = (case tz of Some z \<Rightarrow> add_date z start 0 1 | None \<Rightarrow> fallback_next_boundary start 0 1)"

definition needs_rollover :: "zone option \<Rightarrow> int \<Rightarrow> period \<Rightarrow> gotime \<Rightarrow> bool" where
  "needs_rollover tz start p now \<longleftrightarrow> (if start = 0 then True else
     let t = start * second; e = (case p of
         Week \<Rightarrow> (case tz of None \<Rightarrow> fallback_next_boundary t 0 7 | Some z \<Rightarrow> add_date z t 0 7)
       | Month \<Rightarrow> (case tz of None \<Rightarrow> fallback_next_boundary t 1 0 | Some z \<Rightarrow> add_date z t 1 0)
       | Day \<Rightarrow> (case tz of None \<Rightarrow> next_midnight tz t | Some z \<Rightarrow> add_date z t 0 1))
     in \<not> now < e)"

subsection \<open>Midnights by day number\<close>

definition spring_day :: "int \<Rightarrow> int" where
  "spring_day y = (let f = day_of_civil y 3 1 in f + (7 - weekday_of_day f) mod 7 + 7)"

definition fall_day :: "int \<Rightarrow> int" where
  "fall_day y = (let f = day_of_civil y 11 1 in f + (7 - weekday_of_day f) mod 7)"

definition midnight_off :: "int \<Rightarrow> duration" where
  "midnight_off n = (if spring_day (year_of_day n) < n \<and> n \<le> fall_day (year_of_day n) then 7 * hour else 8 * hour)"

definition midnight_at :: "int \<Rightarrow> gotime" where
  "midnight_at n = midnight_of n + midnight_off n"

definition pacific_day :: "gotime \<Rightarrow> int" where
  "pacific_day t = day_number (t - pacific_offset_at t)"

text \<open>Comparing days by instants.\<close>

lemma days_le:
  assumes "midnight_of a + x \<le> t" "t < midnight_of b + y" "y \<le> x + day"
  shows "a \<le> b"
proof (rule ccontr)
  assume "\<not> a \<le> b"
  then have "midnight_of (b + 1) \<le> midnight_of a" by simp
  with assms show False by simp
qed

lemma days_less:
  assumes "midnight_of a + x \<le> t" "t < midnight_of b + y" "y \<le> x"
  shows "a < b"
proof (rule ccontr)
  assume "\<not> a < b"
  then have "midnight_of b \<le> midnight_of a" by simp
  with assms show False by simp
qed

lemma nth_sundays: "nth_sunday y 3 2 = midnight_of (spring_day y)" "nth_sunday y 11 1 = midnight_of (fall_day y)"
  by (simp_all add: nth_sunday_def spring_day_def fall_day_def Let_def)

lemma transition_days:
  "days_to_year y + 66 \<le> spring_day y" "spring_day y \<le> days_to_year y + 73"
  "days_to_year y + 304 \<le> fall_day y" "fall_day y \<le> days_to_year y + 311"
proof -
  have m: "0 \<le> (7 - w) mod 7 \<and> (7 - w) mod 7 < 7" for w :: int by simp
  have "day_of_civil y 3 1 = days_to_year y + (if leap y then 60 else 59)"
    "day_of_civil y 11 1 = days_to_year y + (if leap y then 305 else 304)"
    by (simp_all add: day_of_civil_def numeral_eq_Suc)
  then show "days_to_year y + 66 \<le> spring_day y" "spring_day y \<le> days_to_year y + 73"
    "days_to_year y + 304 \<le> fall_day y" "fall_day y \<le> days_to_year y + 311"
    using m [of "weekday_of_day (day_of_civil y 3 1)"] m [of "weekday_of_day (day_of_civil y 11 1)"]
    by (auto simp: spring_day_def fall_day_def Let_def split: if_splits)
qed

lemma year_span: "days_to_year y + 365 \<le> days_to_year (y + 1)"
  using year_len_pos [of y] by (simp add: days_to_year_Suc)

lemma year_of_day_eq: "days_to_year y \<le> n \<Longrightarrow> n < days_to_year (y + 1) \<Longrightarrow> year_of_day n = y"
  using year_of_day_unique by auto

lemma year_of_transition: "spring_day y \<le> n \<Longrightarrow> n \<le> fall_day y \<Longrightarrow> year_of_day n = y"
  using transition_days [of y] year_span [of y] by (intro year_of_day_eq) linarith+

lemma offset_cases: "pacific_offset_at t = 7 * hour \<or> pacific_offset_at t = 8 * hour"
  by (simp add: pacific_offset_at_def Let_def)

lemma offset_seven:
  "pacific_offset_at t = 7 * hour \<longleftrightarrow> (\<exists>y. midnight_of (spring_day y) + 10 * hour \<le> t \<and> t < midnight_of (fall_day y) + 9 * hour)"
proof
  assume "\<exists>y. midnight_of (spring_day y) + 10 * hour \<le> t \<and> t < midnight_of (fall_day y) + 9 * hour"
  then obtain y where y: "midnight_of (spring_day y) + 10 * hour \<le> t" "t < midnight_of (fall_day y) + 9 * hour" by auto
  have "spring_day y \<le> day_number t"
    by (rule days_le [OF y(1), of "day_number t" day]) (use day_number_bounds(2) [of t] in simp_all)
  moreover have "day_number t \<le> fall_day y"
    by (rule days_le [OF _ y(2), of _ 0]) (use day_number_bounds(1) [of t] in simp_all)
  ultimately have "year_of_day (day_number t) = y" by (rule year_of_transition)
  then show "pacific_offset_at t = 7 * hour" using y by (simp add: pacific_offset_at_def nth_sundays Let_def)
qed (auto simp: pacific_offset_at_def nth_sundays Let_def split: if_splits)

lemma midnight_off_seven: "midnight_off n = 7 * hour \<longleftrightarrow> (\<exists>y. spring_day y < n \<and> n \<le> fall_day y)"
proof -
  have "spring_day y < n \<Longrightarrow> n \<le> fall_day y \<Longrightarrow> year_of_day n = y" for y by (rule year_of_transition) simp_all
  then show ?thesis by (auto simp: midnight_off_def)
qed

lemma midnight_off_cases: "midnight_off n = 7 * hour \<or> midnight_off n = 8 * hour"
  by (simp add: midnight_off_def)

lemma midnight_at_mono: "n < k \<Longrightarrow> midnight_at n < midnight_at k"
  using midnight_off_cases [of n] midnight_off_cases [of k] by (auto simp: midnight_at_def)

lemma midnight_at_mono_iff: "midnight_at n < midnight_at k \<longleftrightarrow> n < k"
  using midnight_at_mono [of n k] midnight_at_mono [of k n] by (cases n k rule: linorder_cases) auto

lemma pacific_day_bounds: "midnight_at (pacific_day t) \<le> t" "t < midnight_at (pacific_day t + 1)"
proof -
  define n where "n = pacific_day t"
  have l: "midnight_of n \<le> t - pacific_offset_at t" "t - pacific_offset_at t < midnight_of (n + 1)"
    using day_number_bounds [of "t - pacific_offset_at t"] by (simp_all add: n_def pacific_day_def)
  show "midnight_at (pacific_day t) \<le> t" unfolding n_def [symmetric]
  proof (cases "midnight_off n \<le> pacific_offset_at t")
    case False
    then have o: "pacific_offset_at t = 7 * hour" "midnight_off n = 8 * hour"
      using offset_cases [of t] midnight_off_cases [of n] by auto
    then obtain y where y: "midnight_of (spring_day y) + 10 * hour \<le> t" "t < midnight_of (fall_day y) + 9 * hour"
      using offset_seven by blast
    have "spring_day y \<le> n"
      by (rule days_le [OF y(1), of n "day + 7 * hour"]) (use l(2) o in simp_all)
    moreover have "n \<le> fall_day y" by (rule days_le [OF _ y(2), of _ "7 * hour"]) (use l(1) o in simp_all)
    ultimately have "spring_day y \<le> n" "n \<le> fall_day y" .
    with o(2) midnight_off_seven [of n] have "n = spring_day y" by force
    then show "midnight_at n \<le> t" using y o by (simp add: midnight_at_def)
  qed (use l in \<open>simp add: midnight_at_def\<close>)
  show "t < midnight_at (pacific_day t + 1)" unfolding n_def [symmetric]
  proof (rule ccontr)
    assume a: "\<not> t < midnight_at (n + 1)"
    then have o: "pacific_offset_at t = 8 * hour" "midnight_off (n + 1) = 7 * hour"
      using l offset_cases [of t] midnight_off_cases [of "n + 1"] by (auto simp: midnight_at_def)
    then obtain y where "spring_day y < n + 1" "n + 1 \<le> fall_day y" using midnight_off_seven by blast
    then have "midnight_of (spring_day y) + 10 * hour \<le> t" "t < midnight_of (fall_day y) + 9 * hour"
      using a l o by (simp_all add: midnight_at_def)
    then have "pacific_offset_at t = 7 * hour" using offset_seven by blast
    with o show False by simp
  qed
qed

lemma pacific_day_iff: "pacific_day t = n \<longleftrightarrow> midnight_at n \<le> t \<and> t < midnight_at (n + 1)"
proof
  assume a: "midnight_at n \<le> t \<and> t < midnight_at (n + 1)"
  have "midnight_at n < midnight_at (pacific_day t + 1)" "midnight_at (pacific_day t) < midnight_at (n + 1)"
    using a pacific_day_bounds [of t] by linarith+
  then show "pacific_day t = n" by (simp add: midnight_at_mono_iff)
qed (use pacific_day_bounds [of t] in auto)

lemma offset_at_midnight: "pacific_offset_at (midnight_at n) = midnight_off n"
proof (cases "midnight_off n = 7 * hour")
  case True
  then obtain y where "spring_day y < n" "n \<le> fall_day y" using midnight_off_seven by blast
  then have "midnight_of (spring_day y + 1) \<le> midnight_of n" "midnight_of n \<le> midnight_of (fall_day y)" by simp_all
  then have "midnight_of (spring_day y) + 10 * hour \<le> midnight_at n \<and> midnight_at n < midnight_of (fall_day y) + 9 * hour"
    using True by (simp add: midnight_at_def)
  then show ?thesis using True offset_seven by auto
next
  case False
  then have m: "midnight_off n = 8 * hour" using midnight_off_cases [of n] by simp
  have "pacific_offset_at (midnight_at n) \<noteq> 7 * hour"
  proof
    assume "pacific_offset_at (midnight_at n) = 7 * hour"
    then obtain y where y: "midnight_of (spring_day y) + 10 * hour \<le> midnight_at n"
        "midnight_at n < midnight_of (fall_day y) + 9 * hour"
      using offset_seven by blast
    have "spring_day y < n" by (rule days_less [OF y(1), of n "9 * hour"]) (simp_all add: midnight_at_def m)
    moreover have "n \<le> fall_day y" by (rule days_le [OF _ y(2), of _ "8 * hour"]) (simp_all add: midnight_at_def m)
    ultimately show False using False midnight_off_seven by blast
  qed
  then show ?thesis using m offset_cases by auto
qed

lemma pacific_day_midnight [simp]: "pacific_day (midnight_at n) = n"
  by (simp add: pacific_day_def offset_at_midnight) (simp add: midnight_at_def)

lemma pacific_day_mono: "s \<le> t \<Longrightarrow> pacific_day s \<le> pacific_day t"
  using pacific_day_bounds [of s] pacific_day_bounds [of t] midnight_at_mono_iff [of "pacific_day s" "pacific_day t + 1"]
  by linarith

subsection \<open>The zone of the rule\<close>

definition us_pacific :: zone where
  "us_pacific t = (let y = year_of_day (day_number t); spring = (\<lambda>y. midnight_of (spring_day y) + 10 * hour);
       fall = (\<lambda>y. midnight_of (fall_day y) + 9 * hour)
     in if t < spring y then (- 8 * hour, fall (y - 1), spring y)
        else if t < fall y then (- 7 * hour, spring y, fall y)
        else (- 8 * hour, fall y, spring (y + 1)))"

lemma us_pacific_offset: "zone_offset us_pacific t = - pacific_offset_at t"
  by (simp add: zone_offset_def us_pacific_def pacific_offset_at_def nth_sundays Let_def)

lemma us_pacific_local: "local_time us_pacific t = t - pacific_offset_at t"
  by (simp add: local_time_def us_pacific_offset)

text \<open>Looking the offset up at the local midnight taken as UTC finds the offset in force then.\<close>

lemma us_pacific_midnight: "date_local us_pacific (midnight_of n) = midnight_at n"
proof -
  define y where "y = year_of_day n"
  have b: "days_to_year y \<le> n" "n < days_to_year (y + 1)" using year_of_day_bounds [of n] by (simp_all add: y_def)
  note tr = transition_days [of y] transition_days [of "y - 1"] transition_days [of "y + 1"]
    year_span [of "y - 1"] year_span [of y] b
  have yy: "year_of_day n = y" by (simp add: y_def)
  consider (pst) "n \<le> spring_day y" | (pdt) "spring_day y < n" "n \<le> fall_day y" | (late) "fall_day y < n" by linarith
  then show ?thesis
  proof cases
    case pst
    then have o: "midnight_off n = 8 * hour" by (simp add: midnight_off_def y_def)
    have "midnight_of n \<le> midnight_of (spring_day y)" "midnight_of (fall_day (y - 1) + 1) \<le> midnight_of n"
      using pst tr by simp_all
    then have z: "us_pacific (midnight_of n) = (- 8 * hour, midnight_of (fall_day (y - 1)) + 9 * hour,
        midnight_of (spring_day y) + 10 * hour)"
      "midnight_of (fall_day (y - 1)) + 9 * hour \<le> midnight_of n + 8 * hour"
      "midnight_of n + 8 * hour < midnight_of (spring_day y) + 10 * hour"
      by (simp_all add: us_pacific_def yy Let_def)
    then show ?thesis by (simp add: date_local_def midnight_at_def o Let_def)
  next
    case pdt
    then have o: "midnight_off n = 7 * hour" by (simp add: midnight_off_def y_def)
    have "midnight_of (spring_day y + 1) \<le> midnight_of n" "midnight_of n \<le> midnight_of (fall_day y)"
      using pdt by simp_all
    then have z: "us_pacific (midnight_of n) = (- 7 * hour, midnight_of (spring_day y) + 10 * hour,
        midnight_of (fall_day y) + 9 * hour)"
      "midnight_of (spring_day y) + 10 * hour \<le> midnight_of n + 7 * hour"
      "midnight_of n + 7 * hour < midnight_of (fall_day y) + 9 * hour"
      by (simp_all add: us_pacific_def yy Let_def)
    then show ?thesis by (simp add: date_local_def midnight_at_def o Let_def)
  next
    case late
    then have o: "midnight_off n = 8 * hour" by (simp add: midnight_off_def y_def)
    have "midnight_of (fall_day y + 1) \<le> midnight_of n" "midnight_of (n + 1) \<le> midnight_of (spring_day (y + 1))"
      "midnight_of (spring_day y) < midnight_of (fall_day y)"
      using late tr by simp_all
    then have z: "us_pacific (midnight_of n) = (- 8 * hour, midnight_of (fall_day y) + 9 * hour,
        midnight_of (spring_day (y + 1)) + 10 * hour)"
      "midnight_of (fall_day y) + 9 * hour \<le> midnight_of n + 8 * hour"
      "midnight_of n + 8 * hour < midnight_of (spring_day (y + 1)) + 10 * hour"
      by (simp_all add: us_pacific_def yy Let_def)
    then show ?thesis by (simp add: date_local_def midnight_at_def o Let_def)
  qed
qed

subsection \<open>The periods as ranges of days\<close>

definition first_day :: "period \<Rightarrow> int \<Rightarrow> int" where
  "first_day p n = (case p of Day \<Rightarrow> n | Week \<Rightarrow> n - (n + 3) mod 7
     | Month \<Rightarrow> (let (y, m, d) = civil_of_day n in n - (d - 1)))"

definition next_first :: "period \<Rightarrow> int \<Rightarrow> int" where
  "next_first p n = (case p of Day \<Rightarrow> n + 1 | Week \<Rightarrow> n + 7
     | Month \<Rightarrow> (let (y, m, d) = civil_of_day n in day_of_civil y (m + 1) d))"

lemma day_of_civil_shift: "day_of_civil y m (d + k) = day_of_civil y m d + k"
  by (simp add: day_of_civil_def Let_def)

lemma monday: "(weekday_of_day n + 6) mod 7 = (n + 3) mod 7"
proof -
  have "(weekday_of_day n + 6) mod 7 = (n + 4 + 6) mod 7" by (simp only: weekday_of_day_def mod_add_left_eq)
  also have "n + 4 + 6 = (n + 3) + 7" by simp
  finally show ?thesis by (simp only: mod_add_self2)
qed

lemma civil_midnight:
  assumes "civil_of_day n = (y, m, d)"
  shows "date_utc y m d 0 + pacific_offset_at_midnight y m d = midnight_at n"
proof -
  have "day_of_civil y m d = n" "y = year_of_day n"
    using day_of_civil_of_day(1) [OF assms] assms by (auto simp: civil_of_day_def Let_def split: prod.splits)
  then show ?thesis
    by (auto simp: midnight_at_def midnight_off_def pacific_offset_at_midnight_def date_utc_def nth_sundays Let_def)
qed

lemma midnight_fallback_at: "midnight_fallback y m d = midnight_at (day_of_civil y m d)"
  by (cases "civil_of_day (day_of_civil y m d)") (auto simp: midnight_fallback_def dest: civil_midnight)

lemma pacific_date_day: "pacific_date t = civil_of_day (pacific_day t)"
  by (simp add: pacific_date_def pacific_day_def)

lemma date_in_us: "date_in us_pacific y m d 0 = midnight_at (day_of_civil y m d)"
  by (simp add: date_in_local us_pacific_midnight)

lemma civil_in_us: "civil_in us_pacific t = civil_of_day (pacific_day t)"
  by (simp add: civil_in_def us_pacific_offset pacific_day_def)

lemma us_local_midnight: "local_time us_pacific (midnight_at n) = midnight_of n"
  by (simp add: us_pacific_local offset_at_midnight) (simp add: midnight_at_def)

lemma add_date_us:
  assumes "civil_of_day n = (y, m, d)"
  shows "add_date us_pacific (midnight_at n) k j = midnight_at (day_of_civil y (m + k) (d + j))"
  by (simp add: add_date_def us_local_midnight assms us_pacific_midnight)

lemma midnight_secs: "midnight_at n div second * second = midnight_at n" "midnight_at n div second \<noteq> 0"
proof -
  have "midnight_at n mod second = 0" using midnight_off_cases [of n] by (auto simp: midnight_at_def)
  then show "midnight_at n div second * second = midnight_at n" by (metis add.right_neutral div_mult_mod_eq)
  moreover have "midnight_at n mod day = midnight_off n" using midnight_off_cases [of n] by (auto simp: midnight_at_def)
  then have "midnight_at n \<noteq> 0" using midnight_off_cases [of n] by auto
  ultimately show "midnight_at n div second \<noteq> 0" by force
qed

abbreviation pacific_zone :: "zone option \<Rightarrow> bool" where
  "pacific_zone tz \<equiv> tz = None \<or> tz = Some us_pacific"

lemma year_of_first:
  assumes "civil_of_day n = (y, m, d)"
  shows "year_of_day (day_of_civil y m 1) = y" "day_of_civil y m 1 = n - (d - 1)"
proof -
  have c: "day_of_civil y m d = n" "1 \<le> m \<and> m \<le> 12" "1 \<le> d" "y = year_of_day n"
    using day_of_civil_of_day [OF assms] assms by (auto simp: civil_of_day_def Let_def split: prod.splits)
  show e: "day_of_civil y m 1 = n - (d - 1)" using c(1) day_of_civil_shift [of y m d "1 - d"] by simp
  have "\<forall>x \<in> set (month_lens y). 0 \<le> x" by simp
  then have "0 \<le> sum_list (take k (month_lens y))" for k by (intro sum_list_nonneg) (meson in_set_takeD)
  then have "days_to_year y \<le> day_of_civil y m 1" using c(2) by (simp add: day_of_civil_def Let_def del: month_lens.simps)
  moreover have "day_of_civil y m 1 < days_to_year (y + 1)" using e c(3,4) year_of_day_bounds(2) [of n] by simp
  ultimately show "year_of_day (day_of_civil y m 1) = y" by (rule year_of_day_eq)
qed

lemma bucket_start_first:
  assumes "pacific_zone tz"
  shows "bucket_start tz t p = midnight_at (first_day p (pacific_day t)) div second"
proof -
  define n where "n = pacific_day t"
  obtain y m d where c: "civil_of_day n = (y, m, d)" by (cases "civil_of_day n")
  have k: "day_of_civil y m d = n" by (rule day_of_civil_of_day(1) [OF c])
  have w: "day_of_civil y m (d - (n + 3) mod 7) = n - (n + 3) mod 7"
    using day_of_civil_shift [of y m d "- ((n + 3) mod 7)"] k by simp
  have m1: "date_utc y m 1 0 + pacific_offset_at_midnight y m 1 = midnight_at (n - (d - 1))"
    using year_of_first [OF c]
    by (auto simp: midnight_at_def midnight_off_def pacific_offset_at_midnight_def date_utc_def nth_sundays Let_def)
  have l: "day_number (local_time us_pacific t) = n" by (simp add: n_def pacific_day_def us_pacific_local)
  show ?thesis
    using assms year_of_first(2) [OF c] civil_midnight [OF c]
    by (cases p)
      (auto simp: bucket_start_def bucket_start_fallback_def pacific_day_start_def first_day_def pacific_date_day
        civil_in_us n_def [symmetric] c k w m1 l monday midnight_fallback_at date_in_us add_date_us [OF c] Let_def)
qed

lemma needs_rollover_first:
  assumes "pacific_zone tz"
  shows "needs_rollover tz (midnight_at n div second) p now = (\<not> now < midnight_at (next_first p n))"
proof -
  obtain y m d where c: "civil_of_day n = (y, m, d)" by (cases "civil_of_day n")
  have k: "day_of_civil y m (d + j) = n + j" for j
    using day_of_civil_of_day(1) [OF c] by (simp add: day_of_civil_shift)
  show ?thesis
    using assms
    by (cases p)
      (auto simp: needs_rollover_def next_midnight_def fallback_next_boundary_def midnight_secs pacific_date_day c k
        midnight_fallback_at add_date_us [OF c] next_first_def Let_def)
qed

subsection \<open>The periods partition time\<close>

definition month_start :: "int \<Rightarrow> int" where
  "month_start k = day_of_civil 0 (k + 1) 1"

definition month_index :: "int \<Rightarrow> int" where
  "month_index n = (let (y, m, d) = civil_of_day n in 12 * y + m - 1)"

lemma month_start_civil: "day_of_civil y m 1 = month_start (12 * y + m - 1)"
proof -
  have "12 * y + m - 1 = (m - 1) + y * 12" by simp
  then have "(12 * y + m - 1) div 12 = y + (m - 1) div 12" "(12 * y + m - 1) mod 12 = (m - 1) mod 12"
    by (simp_all only: div_mult_self1 [of 12 _ _, simplified] mod_mult_self1)
  then show ?thesis by (simp add: month_start_def day_of_civil_def Let_def)
qed

definition month_len :: "int \<Rightarrow> int" where
  "month_len k = month_lens (k div 12) ! nat (k mod 12)"

lemma month_len_bounds: "28 \<le> month_len k"
proof -
  have "nat (k mod 12) < 12" by simp
  then have "month_len k \<in> set (month_lens (k div 12))" unfolding month_len_def by (intro nth_mem) simp
  then show ?thesis by auto
qed

lemma month_start_eq:
  "month_start k = days_to_year (k div 12) + sum_list (take (nat (k mod 12)) (month_lens (k div 12)))"
  by (simp add: month_start_def day_of_civil_def)

lemma month_start_Suc: "month_start (k + 1) = month_start k + month_len k"
proof -
  define y r where "y = k div 12" and "r = nat (k mod 12)"
  have r: "r < 12" "k mod 12 = int r" "k = 12 * y + int r" by (simp_all add: r_def y_def)
  have lens: "sum_list (month_lens y) = year_len y" by (simp add: year_len_def)
  have l: "r < length (month_lens y)" using r by simp
  have t: "sum_list (take (Suc r) (month_lens y)) = sum_list (take r (month_lens y)) + month_lens y ! r"
    by (simp add: take_Suc_conv_app_nth [OF l] del: month_lens.simps)
  show ?thesis
  proof (cases "r = 11")
    case True
    then have "k + 1 = 12 * (y + 1)" using r by simp
    then have "(k + 1) div 12 = y + 1" "(k + 1) mod 12 = 0" by simp_all
    moreover have "k mod 12 = 11" "k div 12 = y" using r(2) True by (simp_all add: y_def)
    moreover have "sum_list (take (Suc r) (month_lens y)) = year_len y" using lens True by simp
    ultimately show ?thesis using t True unfolding month_start_eq month_len_def
      by (simp only: days_to_year_Suc nat_numeral) simp
  next
    case False
    have e: "k + 1 = 12 * y + int (Suc r)" using r by simp
    have "(k + 1) div 12 = y" by (rule int_div_pos_eq [OF e]) (use False r in simp_all)
    moreover have "(k + 1) mod 12 = int (Suc r)" by (rule int_mod_pos_eq [OF e]) (use False r in simp_all)
    moreover have "k mod 12 = int r" "k div 12 = y" using r(2) by (simp_all add: y_def)
    ultimately show ?thesis using t unfolding month_start_eq month_len_def by (simp only: nat_int)
  qed
qed

lemma month_start_mono: "k < j \<Longrightarrow> month_start k < month_start j"
proof (induction "nat (j - k)" arbitrary: j)
  case (Suc i)
  have "month_start (j - 1) < month_start j"
    using month_start_Suc [of "j - 1"] month_len_bounds [of "j - 1"] by simp
  moreover have "k < j - 1 \<Longrightarrow> month_start k < month_start (j - 1)" using Suc by simp
  ultimately show ?case using Suc.prems by (cases "k = j - 1") auto
qed simp

lemma month_start_mono_iff: "month_start k < month_start j \<longleftrightarrow> k < j"
  using month_start_mono [of k j] month_start_mono [of j k] by (cases k j rule: linorder_cases) auto

lemma month_start_inj: "month_start k = month_start j \<longleftrightarrow> k = j"
  by (metis month_start_mono_iff less_irrefl linorder_neqE)

lemma month_walk_bound:
  "0 \<le> r \<Longrightarrow> r < sum_list ls \<Longrightarrow> month_walk ls m r = (m', d) \<Longrightarrow> d \<le> ls ! nat (m' - m)"
proof (induction ls arbitrary: m r)
  case (Cons l ls)
  show ?case
  proof (cases "r < l \<or> ls = []")
    case False
    then have "d \<le> ls ! nat (m' - (m + 1))" using Cons.IH [of "r - l" "m + 1"] Cons.prems by simp
    moreover have "m + 1 \<le> m'" using month_walk_sum [of ls "r - l" "m + 1" m' d] False Cons.prems by simp
    then have "nat (m' - m) = Suc (nat (m' - (m + 1)))" by linarith
    ultimately show ?thesis by simp
  qed (use Cons.prems in auto)
qed simp

lemma month_index_bounds: "month_start (month_index n) \<le> n" "n < month_start (month_index n + 1)"
proof -
  obtain y m d where c: "civil_of_day n = (y, m, d)" by (cases "civil_of_day n")
  have k: "month_index n = 12 * y + m - 1" by (simp add: month_index_def c)
  have f: "month_start (month_index n) = n - (d - 1)" using year_of_first(2) [OF c] by (simp add: k month_start_civil)
  have d1: "1 \<le> m \<and> m \<le> 12" "1 \<le> d" using day_of_civil_of_day(2,3) [OF c] by auto
  have y: "y = year_of_day n" and w: "month_walk (month_lens y) 1 (n - days_to_year y) = (m, d)"
    using c by (auto simp: civil_of_day_def Let_def split: prod.splits)
  have lens: "sum_list (month_lens y) = year_len y" by (simp add: year_len_def)
  have "d \<le> month_lens y ! nat (m - 1)"
    by (rule month_walk_bound [OF _ _ w]) (use year_of_day_bounds [of n] lens y days_to_year_Suc [of y] in simp_all)
  moreover have "month_index n div 12 = y" "month_index n mod 12 = m - 1" unfolding k using d1(1) by presburger+
  ultimately have "d \<le> month_len (month_index n)" by (simp add: month_len_def)
  then show "month_start (month_index n) \<le> n" "n < month_start (month_index n + 1)"
    using f d1(2) by (simp_all add: month_start_Suc)
qed

lemma month_index_iff: "month_index n = k \<longleftrightarrow> month_start k \<le> n \<and> n < month_start (k + 1)"
proof
  assume "month_start k \<le> n \<and> n < month_start (k + 1)"
  then have "month_start k < month_start (month_index n + 1)" "month_start (month_index n) < month_start (k + 1)"
    using month_index_bounds [of n] by linarith+
  then show "month_index n = k" by (simp add: month_start_mono_iff)
qed (use month_index_bounds [of n] in auto)

lemma first_day_month: "first_day Month n = month_start (month_index n)"
  by (cases "civil_of_day n") (auto simp: first_day_def month_index_def year_of_first(2) simp flip: month_start_civil)

lemma next_first_month: "next_first Month (month_start k) = month_start (k + 1)"
proof -
  obtain y m d where c: "civil_of_day (month_start k) = (y, m, d)" by (cases "civil_of_day (month_start k)")
  have i: "month_index (month_start k) = k" using month_start_mono [of k "k + 1"] by (simp add: month_index_iff)
  then have k: "12 * y + m - 1 = k" by (simp add: month_index_def c)
  have "d = 1" using first_day_month [of "month_start k"] i by (simp add: first_day_def c)
  moreover have "12 * y + (m + 1) - 1 = k + 1" using k by simp
  ultimately show ?thesis using month_start_civil [of y "m + 1"] by (simp add: next_first_def c)
qed

lemma first_day_iff: "first_day p x = first_day p n \<longleftrightarrow> first_day p n \<le> x \<and> x < next_first p (first_day p n)"
proof (cases p)
  case Week
  have e: "k - (k + 3) mod 7 = 7 * ((k + 3) div 7) - 3" for k :: int
    using div_mult_mod_eq [of "k + 3" 7] by linarith
  have "(x + 3) div 7 = q \<longleftrightarrow> 7 * q \<le> x + 3 \<and> x + 3 < 7 * q + 7" for q by presburger
  from this [of "(n + 3) div 7"] show ?thesis by (auto simp: Week first_day_def next_first_def e)
next
  case Month
  have "first_day Month x = first_day Month n \<longleftrightarrow> month_index x = month_index n"
    by (simp add: first_day_month month_start_inj)
  then show ?thesis by (simp add: Month first_day_month next_first_month month_index_iff)
qed (auto simp: first_day_def next_first_def)

text \<open>A bucket is over exactly when the period of the present is another one than its own.\<close>

lemma rollover_iff:
  assumes "pacific_zone tz" "s \<le> now"
  shows "needs_rollover tz (bucket_start tz s p) p now \<longleftrightarrow> bucket_start tz now p \<noteq> bucket_start tz s p"
proof -
  define f where "f = first_day p (pacific_day s)"
  have le: "f \<le> pacific_day s" using first_day_iff [of p "pacific_day s" "pacific_day s"] by (simp add: f_def)
  have "bucket_start tz now p = bucket_start tz s p \<longleftrightarrow> midnight_at (first_day p (pacific_day now)) = midnight_at f"
    using midnight_secs(1) [of f] midnight_secs(1) [of "first_day p (pacific_day now)"] unfolding bucket_start_first [OF assms(1)]
    by (metis f_def)
  also have "\<dots> \<longleftrightarrow> first_day p (pacific_day now) = f"
    by (metis midnight_at_mono_iff less_irrefl linorder_neqE)
  also have "\<dots> \<longleftrightarrow> pacific_day now < next_first p f"
    using first_day_iff [of p "pacific_day now" "pacific_day s"] le pacific_day_mono [OF assms(2)] by (auto simp: f_def)
  also have "\<dots> \<longleftrightarrow> now < midnight_at (next_first p f)"
    using pacific_day_bounds [of now] midnight_at_mono_iff [of "pacific_day now" "next_first p f"]
      midnight_at_mono_iff [of "next_first p f" "pacific_day now + 1"] by linarith
  finally show ?thesis using needs_rollover_first [OF assms(1), of f p now] bucket_start_first [OF assms(1), of s p]
    by (simp add: f_def)
qed

lemma bucket_start_nonzero: "pacific_zone tz \<Longrightarrow> bucket_start tz t p \<noteq> 0"
  by (simp add: bucket_start_first midnight_secs)

end
