(* ===== verification/SpendLedger.thy ===== *)
theory SpendLedger
  imports PacificTime
begin

text \<open>
  The spend ledger of a token (\<open>internal/pool/spend.go\<close>): the tokens spent in the last 24 hours
  and in the current Pacific day, week and month.
\<close>

type_synonym spend_entry = "gotime \<times> int"

record spend_ledger =
  sl_rolling :: "spend_entry list"
  sl_day :: "int \<times> int"
  sl_week :: "int \<times> int"
  sl_month :: "int \<times> int"
  sl_limited :: int

definition new_ledger :: spend_ledger where
  "new_ledger = \<lparr>sl_rolling = [], sl_day = (0, 0), sl_week = (0, 0), sl_month = (0, 0), sl_limited = 0\<rparr>"

definition prune_rolling :: "gotime \<Rightarrow> spend_entry list \<Rightarrow> spend_entry list" where
  "prune_rolling now es = dropWhile (\<lambda>(t, k). t < now - 24 * hour) es"

text \<open>A bucket is what was used and the start of its period in Unix seconds.\<close>

definition roll_bucket :: "zone option \<Rightarrow> int \<times> int \<Rightarrow> period \<Rightarrow> gotime \<Rightarrow> int \<Rightarrow> int \<times> int" where
  "roll_bucket tz b p now k = (let (used, start) = b;
       (used', start') = (if needs_rollover tz start p now then (0, bucket_start tz now p) else (used, start))
     in (wrap64 (used' + k), start'))"

definition ledger_add :: "zone option \<Rightarrow> int \<Rightarrow> gotime \<Rightarrow> spend_ledger \<Rightarrow> spend_ledger" where
  "ledger_add tz k now l = (if k \<le> 0 then l else
     l\<lparr>sl_rolling := prune_rolling now (sl_rolling l) @ [(now, k)],
       sl_day := roll_bucket tz (sl_day l) Day now k,
       sl_week := roll_bucket tz (sl_week l) Week now k,
       sl_month := roll_bucket tz (sl_month l) Month now k\<rparr>)"

definition rolling_24h :: "gotime \<Rightarrow> spend_ledger \<Rightarrow> int \<times> spend_ledger" where
  "rolling_24h now l = (let es = prune_rolling now (sl_rolling l)
     in (foldl (\<lambda>n (t, k). wrap64 (n + k)) 0 es, l\<lparr>sl_rolling := es\<rparr>))"

definition unix_to_time :: "int \<Rightarrow> gotime" where
  "unix_to_time s = (if s = 0 then zero_time else s * second)"

record spend_view =
  sv_rolling :: int
  sv_day :: int
  sv_day_start :: gotime
  sv_week :: int
  sv_week_start :: gotime
  sv_month :: int
  sv_month_start :: gotime
  sv_limited :: int

definition ledger_view :: "gotime \<Rightarrow> spend_ledger \<Rightarrow> spend_view \<times> spend_ledger" where
  "ledger_view now l = (let (n, l') = rolling_24h now l in
     (\<lparr>sv_rolling = n, sv_day = fst (sl_day l), sv_day_start = unix_to_time (snd (sl_day l)),
       sv_week = fst (sl_week l), sv_week_start = unix_to_time (snd (sl_week l)),
       sv_month = fst (sl_month l), sv_month_start = unix_to_time (snd (sl_month l)), sv_limited = sl_limited l\<rparr>, l'))"

subsection \<open>The ledgers of a pool\<close>

text \<open>
  Ledgers are found by the index of a token among \<open>n\<close> tokens, or by the token itself in the
  current list of tokens: a lease whose token was removed records nothing.
\<close>

definition out_of :: "int \<Rightarrow> nat \<Rightarrow> bool" where
  "out_of i n \<longleftrightarrow> i < 0 \<or> int n \<le> i"

definition ledger_at :: "int \<Rightarrow> (spend_ledger \<Rightarrow> spend_ledger) \<Rightarrow> spend_ledger list \<Rightarrow> spend_ledger list" where
  "ledger_at i f ls = (if out_of i (length ls) then ls else ls[nat i := f (ls ! nat i)])"

definition record_spend :: "zone option \<Rightarrow> nat \<Rightarrow> int \<Rightarrow> int \<Rightarrow> gotime \<Rightarrow> spend_ledger list \<Rightarrow> spend_ledger list" where
  "record_spend tz n i k now ls = (if out_of i n then ls else ledger_at i (ledger_add tz k now) ls)"

fun find_token :: "ptr \<Rightarrow> ptr list \<Rightarrow> nat option" where
  "find_token x [] = None"
| "find_token x (y # ys) = (if x = y then Some 0 else map_option Suc (find_token x ys))"

definition record_spend_entry ::
    "zone option \<Rightarrow> ptr list \<Rightarrow> ptr \<Rightarrow> int \<Rightarrow> gotime \<Rightarrow> spend_ledger list \<Rightarrow> spend_ledger list" where
  "record_spend_entry tz toks x k now ls = (case find_token x toks of
     None \<Rightarrow> ls | Some i \<Rightarrow> ledger_at (int i) (ledger_add tz k now) ls)"

definition record_spend_limited :: "int \<Rightarrow> spend_ledger list \<Rightarrow> spend_ledger list" where
  "record_spend_limited i ls = ledger_at i (\<lambda>l. l\<lparr>sl_limited := sl_limited l + 1\<rparr>) ls"

definition spend_snapshot :: "nat \<Rightarrow> int \<Rightarrow> gotime \<Rightarrow> spend_ledger list \<Rightarrow> spend_view option" where
  "spend_snapshot n i now ls = (if out_of i n \<or> out_of i (length ls) then None
     else Some (fst (ledger_view now (ls ! nat i))))"

subsection \<open>What the buckets count\<close>

fun bucket_of :: "period \<Rightarrow> spend_ledger \<Rightarrow> int \<times> int" where
  "bucket_of Day l = sl_day l" | "bucket_of Week l = sl_week l" | "bucket_of Month l = sl_month l"

definition add_all :: "zone option \<Rightarrow> spend_entry list \<Rightarrow> spend_ledger \<Rightarrow> spend_ledger" where
  "add_all tz es l = foldl (\<lambda>l (t, k). ledger_add tz k t l) l es"

definition spent :: "spend_entry list \<Rightarrow> int" where
  "spent es = sum_list (map snd es)"

lemma wrap64_wrap [simp]: "wrap64 (wrap64 a + b) = wrap64 (a + b)"
proof -
  have "wrap64 a + b + 2 ^ 63 = (a + 2 ^ 63) mod 2 ^ 64 + b" by (simp add: wrap64_def)
  then have "(wrap64 a + b + 2 ^ 63) mod 2 ^ 64 = ((a + 2 ^ 63) + b) mod 2 ^ 64" by (simp only: mod_add_left_eq)
  then show ?thesis by (simp add: wrap64_def algebra_simps)
qed

lemma wrap64_zero [simp]: "wrap64 0 = 0"
  by (simp add: wrap64_def)

lemma foldl_wrap: "foldl (\<lambda>n (t, k). wrap64 (n + k)) (wrap64 n) es = wrap64 (n + spent es)"
proof (induction es arbitrary: n)
  case (Cons e es)
  then show ?case using Cons [of "n + snd e"] by (cases e) (simp add: spent_def add.assoc)
qed (simp add: spent_def)

lemma bucket_of_add:
  "0 < k \<Longrightarrow> bucket_of p (ledger_add tz k now l) = roll_bucket tz (bucket_of p l) p now k"
  by (cases p) (simp_all add: ledger_add_def)

definition in_period :: "zone option \<Rightarrow> period \<Rightarrow> gotime \<Rightarrow> spend_entry \<Rightarrow> bool" where
  "in_period tz p now e \<longleftrightarrow> bucket_start tz (fst e) p = bucket_start tz now p"

lemma add_all_snoc: "add_all tz (es @ [(t, k)]) l = ledger_add tz k t (add_all tz es l)"
  by (simp add: add_all_def)

lemma spent_append [simp]: "spent (xs @ ys) = spent xs + spent ys" "spent [] = 0" "spent [(t, k)] = k"
  by (simp_all add: spent_def)

text \<open>Entries of a later period are never followed by one of an earlier period.\<close>

lemma earlier_period:
  assumes "pacific_zone tz" "s \<le> t" "t \<le> now" "bucket_start tz s p = bucket_start tz now p"
  shows "bucket_start tz t p = bucket_start tz now p"
proof -
  have "\<not> needs_rollover tz (bucket_start tz s p) p now" using rollover_iff [OF assms(1), of s now p] assms by simp
  then have "\<not> needs_rollover tz (bucket_start tz s p) p t" using assms(3)
    unfolding bucket_start_first [OF assms(1)] needs_rollover_first [OF assms(1)] by linarith
  then show ?thesis using rollover_iff [OF assms(1,2), of p] assms(4) by simp
qed

lemma sorted_last: "sorted (map fst es) \<Longrightarrow> x \<in> set es \<Longrightarrow> fst x \<le> fst (last es)"
  by (induction es rule: rev_induct) (auto simp: sorted_append)

lemma bucket_after_adds:
  assumes "pacific_zone tz" "sorted (map fst es)" "\<forall>(t, k) \<in> set es. 0 < k" "es \<noteq> []"
  shows "bucket_of p (add_all tz es new_ledger) =
    (wrap64 (spent (filter (in_period tz p (fst (last es))) es)), bucket_start tz (fst (last es)) p)"
  using assms(2-4)
proof (induction es rule: rev_induct)
  case (snoc e es)
  obtain t k where e: "e = (t, k)" by (cases e)
  have k: "0 < k" using snoc.prems(2) e by auto
  have b: "bucket_of p (add_all tz (es @ [e]) new_ledger) = roll_bucket tz (bucket_of p (add_all tz es new_ledger)) p t k"
    by (simp add: e add_all_snoc bucket_of_add k)
  show ?case
  proof (cases "es = []")
    case True
    have "bucket_of p new_ledger = (0, 0)" by (cases p) (simp_all add: new_ledger_def)
    then show ?thesis using True b
      by (simp add: e add_all_def roll_bucket_def needs_rollover_def in_period_def)
  next
    case False
    define s where "s = fst (last es)"
    have le: "s \<le> t" using snoc.prems(1) False by (auto simp: e s_def sorted_append)
    have ih: "bucket_of p (add_all tz es new_ledger) = (wrap64 (spent (filter (in_period tz p s) es)), bucket_start tz s p)"
      using snoc.IH snoc.prems False by (auto simp: sorted_append s_def)
    note r = rollover_iff [OF assms(1) le, of p]
    have "filter (in_period tz p t) es = (if bucket_start tz t p = bucket_start tz s p then filter (in_period tz p s) es else [])"
    proof (cases "bucket_start tz t p = bucket_start tz s p")
      case False': False
      have "\<not> in_period tz p t x" if "x \<in> set es" for x
      proof
        assume "in_period tz p t x"
        moreover have "fst x \<le> s" using sorted_last [OF _ that] snoc.prems(1) by (simp add: s_def sorted_append)
        ultimately show False using earlier_period [OF assms(1) _ le] False' by (auto simp: in_period_def)
      qed
      then show ?thesis using False' by (simp add: filter_empty_conv)
    next
      case True
      then have "in_period tz p t = in_period tz p s" by (intro ext) (simp add: in_period_def)
      then show ?thesis using True by simp
    qed
    moreover have "in_period tz p t (t, k)" by (simp add: in_period_def)
    ultimately show ?thesis using b ih r by (auto simp: e roll_bucket_def)
  qed
qed simp

lemma prune_rolling_filter:
  "sorted (map fst es) \<Longrightarrow> prune_rolling now es = filter (\<lambda>(t, k). now - 24 * hour \<le> t) es"
  unfolding prune_rolling_def
  by (subst dropWhile_eq_filter_sorted)
    (auto simp: sorted_wrt_map not_less split_beta elim!: sorted_wrt_mono_rel [rotated] intro!: filter_cong)

lemma rolling_after_adds:
  assumes "sorted (map fst es)" "\<forall>(t, k) \<in> set es. 0 < k" "es \<noteq> []"
  shows "sl_rolling (add_all tz es new_ledger) = filter (\<lambda>(t, k). fst (last es) - 24 * hour \<le> t) es"
  using assms
proof (induction es rule: rev_induct)
  case (snoc e es)
  obtain t k where e: "e = (t, k)" by (cases e)
  have k: "0 < k" using snoc.prems(2) e by auto
  show ?case
  proof (cases "es = []")
    case True
    then show ?thesis using k by (simp add: e add_all_def ledger_add_def new_ledger_def prune_rolling_def)
  next
    case False
    define s where "s = fst (last es)"
    have le: "s \<le> t" using snoc.prems(1) False by (auto simp: e s_def sorted_append)
    have so: "sorted (map fst es)" using snoc.prems(1) by (simp add: sorted_append)
    have ih: "sl_rolling (add_all tz es new_ledger) = filter (\<lambda>(t, k). s - 24 * hour \<le> t) es"
      using snoc.IH snoc.prems False so by (simp add: s_def)
    have "prune_rolling t (filter (\<lambda>(t, k). s - 24 * hour \<le> t) es) = filter (\<lambda>(u, k). t - 24 * hour \<le> u) es"
      using le by (subst prune_rolling_filter) (auto simp: sorted_filter so intro!: filter_cong)
    then show ?thesis using k ih by (simp add: e add_all_snoc ledger_add_def)
  qed
qed simp

lemma rolling_24h_after_adds:
  assumes "sorted (map fst es)" "\<forall>(t, k) \<in> set es. 0 < k" "es \<noteq> []" "fst (last es) \<le> now"
  shows "fst (rolling_24h now (add_all tz es new_ledger)) = wrap64 (spent (filter (\<lambda>(t, k). now - 24 * hour \<le> t) es))"
proof -
  have "prune_rolling now (filter (\<lambda>(t, k). fst (last es) - 24 * hour \<le> t) es) = filter (\<lambda>(t, k). now - 24 * hour \<le> t) es"
    using assms(1,4) by (subst prune_rolling_filter) (auto simp: sorted_filter intro!: filter_cong)
  then show ?thesis
    using foldl_wrap [of 0] rolling_after_adds [OF assms(1-3)] by (simp add: rolling_24h_def Let_def)
qed

subsection \<open>Properties\<close>

text \<open>
  C17: the rule-based calendar is exact.  Where the time-zone database is missing, the starts
  of the Pacific day, week and month and the moment a bucket is over are computed from the rule
  of US daylight saving time; at every instant the result is the one the code computes with
  a database that holds this rule, transition days and weeks included.
\<close>

theorem fallback_calendar_exact:
  "pacific_day_start None t = pacific_day_start (Some us_pacific) t \<and>
   bucket_start None t p = bucket_start (Some us_pacific) t p \<and>
   needs_rollover None (bucket_start None s p) p t = needs_rollover (Some us_pacific) (bucket_start (Some us_pacific) s p) p t"
proof (intro conjI)
  obtain y m d where c: "civil_of_day (pacific_day t) = (y, m, d)" by (cases "civil_of_day (pacific_day t)")
  show "pacific_day_start None t = pacific_day_start (Some us_pacific) t"
    using day_of_civil_of_day(1) [OF c]
    by (simp add: pacific_day_start_def pacific_date_day civil_in_us c civil_midnight [OF c] date_in_us)
qed (simp_all add: bucket_start_first needs_rollover_first)

text \<open>
  C18: the ledger counts what it says.  After any adds at non-decreasing times the bucket of
  the day, of the week and of the month holds exactly the tokens spent since the start of
  the Pacific period of the last add, and the rolling window those of the last 24 hours, in
  64-bit arithmetic.
\<close>

theorem ledger_counts_the_period:
  assumes "pacific_zone tz" "sorted (map fst es)" "\<forall>(t, k) \<in> set es. 0 < k" "es \<noteq> []" "fst (last es) \<le> now"
  shows "bucket_of p (add_all tz es new_ledger) =
      (wrap64 (spent (filter (in_period tz p (fst (last es))) es)), bucket_start tz (fst (last es)) p) \<and>
    fst (rolling_24h now (add_all tz es new_ledger)) = wrap64 (spent (filter (\<lambda>(t, k). now - 24 * hour \<le> t) es))"
  using bucket_after_adds [OF assms(1-4)] rolling_24h_after_adds [OF assms(2-5)] by simp

text \<open>Two adds on 31 December 1969, one on 1 January 1970, Pacific time.\<close>

theorem ledger_counts_the_period_witness:
  "fst (bucket_of Day (add_all None [(0, 5), (hour, 2), (30 * hour, 7)] new_ledger)) = 7 \<and>
   fst (rolling_24h (30 * hour) (add_all None [(0, 5), (hour, 2), (30 * hour, 7)] new_ledger)) = 7"
proof -
  have "fst (bucket_of Day (add_all None [(0, 5), (hour, 2), (30 * hour, 7)] new_ledger)) =
      wrap64 (spent (filter (in_period None Day (30 * hour)) [(0, 5), (hour, 2), (30 * hour, 7)]))"
    "fst (rolling_24h (30 * hour) (add_all None [(0, 5), (hour, 2), (30 * hour, 7)] new_ledger)) =
      wrap64 (spent (filter (\<lambda>(t, k). 30 * hour - 24 * hour \<le> t) [(0, 5), (hour, 2), (30 * hour, 7)]))"
    using ledger_counts_the_period [of None "[(0, 5), (hour, 2), (30 * hour, 7)]" "30 * hour" Day] by simp_all
  moreover have "wrap64 (spent (filter (in_period None Day (30 * hour)) [(0, 5), (hour, 2), (30 * hour, 7)])) = 7"
    by code_simp
  ultimately show ?thesis by (simp add: spent_def wrap64_def)
qed

end
