(* ===== verification/PoolQuota.thy ===== *)
theory PoolQuota
  imports SessionViews SpendLedger
begin

text \<open>
  The memories by which the pool leaves a token or a model alone: the rolling daily message
  count and the session quota of a token (\<open>internal/pool/quota.go\<close>), the protection of scarce
  sessions (\<open>scarce.go\<close>), the models the egress cannot serve (\<open>unfit.go\<close>), and the choice of the
  error to surface (\<open>bestRateLimit\<close>, \<open>bestDailyLimit\<close>, \<open>bestWaitingRoom\<close>).
\<close>

subsection \<open>The daily message count\<close>

definition usage_window :: duration where "usage_window = 24 * hour"

definition prune_usage :: "gotime \<Rightarrow> gotime list \<Rightarrow> gotime list" where
  "prune_usage now h = dropWhile (\<lambda>t. t < now - usage_window) h"

text \<open>
  The histories of the tokens by index; \<open>n\<close> is the number of tokens of the current list, which a
  removal shortens before the histories.
\<close>

definition record_chat :: "nat \<Rightarrow> int \<Rightarrow> gotime \<Rightarrow> gotime list list \<Rightarrow> gotime list list" where
  "record_chat n i now us = (if out_of i n then us else if out_of i (length us) then us
     else us[nat i := prune_usage now (us ! nat i) @ [now]])"

definition record_chat_entry :: "ptr list \<Rightarrow> ptr \<Rightarrow> gotime \<Rightarrow> gotime list list \<Rightarrow> gotime list list" where
  "record_chat_entry toks x now us = (case find_token x toks of
     None \<Rightarrow> us
   | Some i \<Rightarrow> if out_of (int i) (length us) then us else us[i := prune_usage now (us ! i) @ [now]])"

definition usage_count :: "nat \<Rightarrow> int \<Rightarrow> gotime \<Rightarrow> gotime list list \<Rightarrow> int \<times> gotime list list" where
  "usage_count n i now us = (if out_of i n then (0, us) else if out_of i (length us) then (0, us)
     else let h = prune_usage now (us ! nat i) in (int (length h), us[nat i := h]))"

definition usage_reset_in :: "int \<Rightarrow> gotime \<Rightarrow> gotime list list \<Rightarrow> duration" where
  "usage_reset_in i now us = (if out_of i (length us) then 0
     else case us ! nat i of [] \<Rightarrow> 0
       | t # h \<Rightarrow> let reset = tsub (t + usage_window) now in if reset < 0 then 0 else reset)"

definition daily_limit_error :: "nat \<Rightarrow> int \<Rightarrow> int \<Rightarrow> gotime \<Rightarrow> gotime list list \<Rightarrow> rate_limit \<times> gotime list list" where
  "daily_limit_error n cap i now us = (let r = usage_reset_in i now us; (c, us') = usage_count n i now us in
     (\<lparr>rl_status = [], rl_model = [], rl_retry_after = r, rl_limit = of_int cap, rl_recent = of_int c,
       rl_reset_at = zero_time, rl_period = [], rl_window = [], rl_body = ''daily message limit reached''\<rparr>, us'))"

text \<open>The same for an entry of bridge mode, which keeps its own history; the total is never reset here.\<close>

definition bridge_record_chat :: "gotime \<Rightarrow> gotime list \<times> int \<Rightarrow> gotime list \<times> int" where
  "bridge_record_chat now b = (prune_usage now (fst b) @ [now], snd b + 1)"

definition bridge_usage_count :: "gotime \<Rightarrow> gotime list \<Rightarrow> int \<times> gotime list" where
  "bridge_usage_count now h = (let h' = prune_usage now h in (int (length h'), h'))"

definition bridge_usage_reset_in :: "gotime \<Rightarrow> gotime list \<Rightarrow> duration" where
  "bridge_usage_reset_in now h = (case h of [] \<Rightarrow> 0
     | t # ts \<Rightarrow> let reset = tsub (t + usage_window) now in if reset < 0 then 0 else reset)"

definition bridge_daily_limit_error :: "int \<Rightarrow> gotime \<Rightarrow> gotime list \<Rightarrow> rate_limit \<times> gotime list" where
  "bridge_daily_limit_error cap now h = (let r = bridge_usage_reset_in now h; (c, h') = bridge_usage_count now h in
     (\<lparr>rl_status = [], rl_model = [], rl_retry_after = r, rl_limit = of_int cap, rl_recent = of_int c,
       rl_reset_at = zero_time, rl_period = [], rl_window = [], rl_body = ''daily message limit reached''\<rparr>, h'))"

subsection \<open>Models the egress cannot serve\<close>

definition model_unfit_ttl :: duration where "model_unfit_ttl = 5 * minute"

text \<open>The registry is keyed by egress and model; there is one egress.\<close>

record unfit_entry =
  un_created :: gotime
  un_until :: gotime
  un_err :: "limited_ip option"

definition unfit_egress :: string where "unfit_egress = ''direct''"

type_synonym unfit_registry = "((string \<times> string) \<times> unfit_entry) list"

definition mark_model_unfit :: "string \<Rightarrow> limited_ip option \<Rightarrow> gotime \<Rightarrow> unfit_registry \<Rightarrow> unfit_registry" where
  "mark_model_unfit model lie now u = AList.update (unfit_egress, model)
     \<lparr>un_created = now, un_until = now + model_unfit_ttl, un_err = map_option (\<lambda>l. l\<lparr>li_model := model\<rparr>) lie\<rparr> u"

definition clear_model_unfit :: "string \<Rightarrow> unfit_registry \<Rightarrow> unfit_registry" where
  "clear_model_unfit model u = AList.delete (unfit_egress, model) u"

definition clear_model_unfit_before :: "string \<Rightarrow> gotime \<Rightarrow> unfit_registry \<Rightarrow> unfit_registry" where
  "clear_model_unfit_before model before u = (case map_of u (unfit_egress, model) of
     None \<Rightarrow> u
   | Some x \<Rightarrow> if \<not> before < un_created x then AList.delete (unfit_egress, model) u else u)"

definition model_unfit :: "string \<Rightarrow> gotime \<Rightarrow> unfit_registry \<Rightarrow> (gotime \<times> limited_ip option) \<times> unfit_registry" where
  "model_unfit model now u = (case map_of u (unfit_egress, model) of
     None \<Rightarrow> ((zero_time, None), u)
   | Some x \<Rightarrow> if \<not> now < un_until x then ((zero_time, None), AList.delete (unfit_egress, model) u)
       else if un_err x = None then ((un_until x, None), u)
       else ((un_until x, un_err x), u))"

subsection \<open>Session quotas\<close>

definition is_referral_gated :: "string \<Rightarrow> bool" where
  "is_referral_gated model \<longleftrightarrow> model = glm_model"

definition reset_ahead :: "gotime \<Rightarrow> model_quota \<Rightarrow> bool" where
  "reset_ahead now q \<longleftrightarrow> \<not> is_zero (mq_reset_at q) \<and> now < mq_reset_at q"

text \<open>Known with something left, what is left, and whether the token has to be skipped.\<close>

definition quota_remaining :: "gotime \<Rightarrow> session_snapshot \<Rightarrow> string \<Rightarrow> bool \<times> rat \<times> bool" where
  "quota_remaining now sn model = (let q = map_of (sn_quota sn) model in
     if is_referral_gated model then
       (if \<not> snapshot_has_glm now sn then (False, 0, True)
        else case q of
          None \<Rightarrow> (True, 1, False)
        | Some q \<Rightarrow> if 0 < mq_limit q then
              (if reset_ahead now q \<and> mq_limit q \<le> mq_recent q then (False, 0, True)
               else if mq_recent q < mq_limit q then (True, mq_limit q - mq_recent q, False)
               else (True, 1, False))
            else (True, 1, False))
     else case q of
       None \<Rightarrow> (False, 0, False)
     | Some q \<Rightarrow> if mq_limit q \<le> 0 then (False, 0, False)
         else if reset_ahead now q \<and> mq_limit q \<le> mq_recent q then (False, 0, True)
         else if mq_recent q < mq_limit q then (True, mq_limit q - mq_recent q, False)
         else (False, 0, False))"

abbreviation quota_known :: "gotime \<Rightarrow> session_snapshot \<Rightarrow> string \<Rightarrow> bool" where
  "quota_known now sn model \<equiv> fst (quota_remaining now sn model)"

abbreviation quota_left :: "gotime \<Rightarrow> session_snapshot \<Rightarrow> string \<Rightarrow> rat" where
  "quota_left now sn model \<equiv> fst (snd (quota_remaining now sn model))"

abbreviation quota_capped :: "gotime \<Rightarrow> session_snapshot \<Rightarrow> string \<Rightarrow> bool" where
  "quota_capped now sn model \<equiv> snd (snd (quota_remaining now sn model))"

definition zero_quota :: model_quota where
  "zero_quota = \<lparr>mq_model = [], mq_limit = 0, mq_recent = 0, mq_reset_at = zero_time, mq_period = [], mq_entitlement = []\<rparr>"

definition quota_limit_error :: "gotime \<Rightarrow> session_snapshot \<Rightarrow> string \<Rightarrow> rate_limit" where
  "quota_limit_error now sn model = (let q = (case map_of (sn_quota sn) model of None \<Rightarrow> zero_quota | Some q \<Rightarrow> q) in
     \<lparr>rl_status = ''rate_limited'', rl_model = model,
      rl_retry_after = (if reset_ahead now q then tsub (mq_reset_at q) now else 0),
      rl_limit = mq_limit q, rl_recent = mq_recent q, rl_reset_at = mq_reset_at q, rl_period = [], rl_window = [],
      rl_body = (if is_referral_gated model \<and> \<not> snapshot_has_glm now sn
        then ''referral entitlement required for '' @ model else ''session quota exhausted for model'')\<rparr>)"

text \<open>The code of bridge mode repeats the computation over the snapshot of its entry.\<close>

definition bridge_quota_remaining :: "gotime \<Rightarrow> session_snapshot \<Rightarrow> string \<Rightarrow> bool \<times> rat \<times> bool" where
  "bridge_quota_remaining now sn model =
     (if is_referral_gated model then
       (if \<not> snapshot_has_glm now sn then (False, 0, True)
        else case map_of (sn_quota sn) model of
          None \<Rightarrow> (True, 1, False)
        | Some q \<Rightarrow> if \<not> 0 < mq_limit q then (True, 1, False)
            else if reset_ahead now q \<and> mq_limit q \<le> mq_recent q then (False, 0, True)
            else if mq_recent q < mq_limit q then (True, mq_limit q - mq_recent q, False)
            else (True, 1, False))
      else case map_of (sn_quota sn) model of
        None \<Rightarrow> (False, 0, False)
      | Some q \<Rightarrow> if mq_limit q \<le> 0 then (False, 0, False)
          else if reset_ahead now q \<and> mq_limit q \<le> mq_recent q then (False, 0, True)
          else if mq_recent q < mq_limit q then (True, mq_limit q - mq_recent q, False)
          else (False, 0, False))"

definition bridge_quota_capped :: "gotime \<Rightarrow> session_snapshot \<Rightarrow> string \<Rightarrow> bool" where
  "bridge_quota_capped now sn model = snd (snd (bridge_quota_remaining now sn model))"

definition is_quota_exhausted :: "rate_limit \<Rightarrow> bool" where
  "is_quota_exhausted r \<longleftrightarrow>
     (if \<not> is_zero (rl_reset_at r) \<or> rl_period r = ''pacific_day'' \<or> rl_period r = ''pacific_week'' \<or> is_daily_cap_reset r then True
      else if 0 < rl_limit r \<and> rl_limit r \<le> rl_recent r then True
      else rl_body r = ''session quota exhausted for model'' \<or> contains_str (rl_body r) ''referral entitlement required'' \<or>
        contains_str (rl_body r) ''no referral quota'')"

subsection \<open>Scarce sessions\<close>

definition scarce_switch_lead :: duration where "scarce_switch_lead = minute"

definition scarce_model_set :: "string list \<Rightarrow> string set" where
  "scarce_model_set ms = set (filter (\<lambda>m. m \<noteq> []) ms)"

definition scarce_held :: "gotime \<Rightarrow> session_snapshot \<Rightarrow> string \<Rightarrow> string set \<Rightarrow> bool" where
  "scarce_held now sn model sc \<longleftrightarrow>
     (if \<not> snapshot_usable now sn \<or> sn_model sn = [] \<or> matches_model model sn then False
      else if sn_model sn \<notin> sc then False
      else \<not> is_zero (sn_expires sn) \<and> scarce_switch_lead < tsub (sn_expires sn) now)"

definition scarce_active :: "gotime \<Rightarrow> session_snapshot \<Rightarrow> string set \<Rightarrow> bool" where
  "scarce_active now sn sc \<longleftrightarrow>
     (if \<not> snapshot_usable now sn \<or> sn_model sn = [] then False
      else if sn_model sn \<notin> sc then False
      else \<not> is_zero (sn_expires sn) \<and> 0 < tsub (sn_expires sn) now)"

subsection \<open>The best error of a bucket\<close>

fun best_rate_limit :: "rate_limit list \<Rightarrow> rate_limit option" where
  "best_rate_limit [] = None"
| "best_rate_limit (r # rs) =
     Some (foldl (\<lambda>best e. if rl_retry_after e < rl_retry_after best then e else best) r rs)"

fun best_daily_limit :: "rate_limit list \<Rightarrow> rate_limit option" where
  "best_daily_limit [] = None"
| "best_daily_limit (r # rs) =
     Some (foldl (\<lambda>best e. if rl_retry_after e < rl_retry_after best then e else best) r rs)"

definition better_wait :: "sess_waiting \<Rightarrow> sess_waiting \<Rightarrow> bool" where
  "better_wait a b \<longleftrightarrow> (if sw_position a \<le> 0 then False
     else if sw_position b \<le> 0 then True
     else if sw_position a \<noteq> sw_position b then sw_position a < sw_position b
     else sw_queue_depth a < sw_queue_depth b)"

fun best_waiting_room :: "sess_waiting list \<Rightarrow> sess_waiting option" where
  "best_waiting_room [] = None"
| "best_waiting_room (w # ws) = Some (foldl (\<lambda>best c. if better_wait c best then c else best) w ws)"

end
