(* ===== verification/PoolGate.thy ===== *)
theory PoolGate
  imports Threads UpstreamErr "HOL-Library.Multiset"
begin

text \<open>
  \<open>internal/pool/create_gate.go\<close>: the gate that bounds the session creations in flight, over all
  models and for each model.  A caller that finds the gate full waits for the broadcast of
  the next release, or for the end of its context.

  The gate is specified as a counting semaphore over the multiset of the models in flight;
  \<open>slots\<close> is the contract its callers rely on.
\<close>

definition default_creates_global :: int where "default_creates_global = 128"
definition default_creates_per_model :: int where "default_creates_per_model = 32"

text \<open>
  A channel is a number; \<open>cg_done\<close> holds the closed ones.  The ids are drawn from a counter
  that would need 2^64 grants to wrap.
\<close>

record create_gate =
  cg_changed :: ptr
  cg_done :: "ptr list"
  cg_max_global :: int
  cg_max_model :: int
  cg_next :: nat
  cg_global :: int
  cg_by_model :: "(string \<times> int) list"
  cg_pending :: "(nat \<times> string) list"

definition effective_limits :: "int \<Rightarrow> int \<Rightarrow> int \<times> int" where
  "effective_limits mg mp = (let g = (if mg \<le> 0 then default_creates_global else mg);
       p = (if mp \<le> 0 then default_creates_per_model else mp) in (g, if g < p then g else p))"

definition new_gate :: "int \<Rightarrow> int \<Rightarrow> create_gate" where
  "new_gate mg mp = (let (g, p) = effective_limits mg mp in
     \<lparr>cg_changed = 0, cg_done = [], cg_max_global = g, cg_max_model = p, cg_next = 0, cg_global = 0,
      cg_by_model = [], cg_pending = []\<rparr>)"

definition notify_waiters :: "create_gate \<Rightarrow> create_gate" where
  "notify_waiters g = g\<lparr>cg_done := cg_changed g # cg_done g, cg_changed := cg_changed g + 1\<rparr>"

definition set_limits :: "int \<Rightarrow> int \<Rightarrow> create_gate \<Rightarrow> create_gate" where
  "set_limits mg mp g = (let (a, b) = effective_limits mg mp in
     notify_waiters (g\<lparr>cg_max_global := a, cg_max_model := b\<rparr>))"

definition can_acquire :: "string \<Rightarrow> create_gate \<Rightarrow> bool" where
  "can_acquire model g \<longleftrightarrow> (if cg_max_global g \<le> cg_global g then False
     else if cg_max_model g \<le> zget (cg_by_model g) model then False else True)"

definition grant :: "string \<Rightarrow> create_gate \<Rightarrow> nat \<times> create_gate" where
  "grant model g = (let i = cg_next g + 1 in
     (i, g\<lparr>cg_next := i, cg_global := cg_global g + 1,
           cg_by_model := AList.update model (zget (cg_by_model g) model + 1) (cg_by_model g),
           cg_pending := AList.update i model (cg_pending g)\<rparr>))"

definition gate_release :: "nat \<Rightarrow> create_gate \<Rightarrow> create_gate" where
  "gate_release i g = (case map_of (cg_pending g) i of
     None \<Rightarrow> g
   | Some model \<Rightarrow> (let n = zget (cg_by_model g) model in
       notify_waiters (g\<lparr>cg_pending := AList.delete i (cg_pending g),
         cg_global := (if 0 < cg_global g then cg_global g - 1 else cg_global g),
         cg_by_model := (if 1 < n then AList.update model (n - 1) (cg_by_model g)
                         else AList.delete model (cg_by_model g))\<rparr>)))"

subsection \<open>Callers\<close>

text \<open>
  \<open>GHold i\<close> is the caller that holds permit \<open>i\<close> and whose next use of the gate is its
  \<open>Release\<close>.
\<close>

datatype gtask = GAcquire string | GWait string ptr | GHold nat

record genv =
  ge_ctx :: "gerr option"
  ge_pick :: bool

fun gexec :: "genv \<Rightarrow> gtask \<Rightarrow> create_gate \<Rightarrow> (gtask list \<times> gtask list \<times> create_gate) option" where
  "gexec e (GAcquire model) g = (if can_acquire model g
     then (let (i, g') = grant model g in Some ([GHold i], [], g'))
     else Some ([GWait model (cg_changed g)], [], g))"
| "gexec e (GWait model ch) g =
     (if ch \<in> set (cg_done g) \<and> \<not> (ge_ctx e \<noteq> None \<and> ge_pick e) then Some ([GAcquire model], [], g)
      else if ge_ctx e \<noteq> None then Some ([], [], g) else None)"
| "gexec e (GHold i) g = Some ([], [], gate_release i g)"

fun gate_entry :: "gtask \<Rightarrow> bool" where
  "gate_entry (GAcquire model) = True" | "gate_entry t = False"

inductive gate_reach :: "create_gate \<times> gtask list list \<Rightarrow> bool" where
  ginit: "gate_reach (new_gate mg mp, [])"
| gthread: "gate_reach (g, ts) \<Longrightarrow> i < length ts \<Longrightarrow> ts ! i = t # rest \<Longrightarrow>
    gexec e t g = Some (new, sp, g') \<Longrightarrow> gate_reach (g', ts[i := new @ rest] @ map (\<lambda>t. [t]) sp)"
| gspawn: "gate_reach (g, ts) \<Longrightarrow> gate_entry t \<Longrightarrow> gate_reach (g, ts @ [[t]])"
| glimits: "gate_reach (g, ts) \<Longrightarrow> gate_reach (set_limits mg mp g, ts)"

interpretation gate: goroutines gexec gate_entry "\<lambda>g g'. \<exists>mg mp. g' = set_limits mg mp g"
    "\<lambda>g. \<exists>mg mp. g = new_gate mg mp" gate_reach
proof unfold_locales
  fix g ts and Q :: "create_gate \<Rightarrow> gtask list list \<Rightarrow> bool"
  assume r: "gate_reach (g, ts)"
    and Q: "\<And>g. \<exists>mg mp. g = new_gate mg mp \<Longrightarrow> Q g []"
    "\<And>g ts i t rest e new sp g'. gate_reach (g, ts) \<Longrightarrow> Q g ts \<Longrightarrow> i < length ts \<Longrightarrow> ts ! i = t # rest \<Longrightarrow>
       gexec e t g = Some (new, sp, g') \<Longrightarrow> Q g' (ts[i := new @ rest] @ map (\<lambda>t. [t]) sp)"
    "\<And>g ts t. gate_reach (g, ts) \<Longrightarrow> Q g ts \<Longrightarrow> gate_entry t \<Longrightarrow> Q g (ts @ [[t]])"
    "\<And>g ts g'. gate_reach (g, ts) \<Longrightarrow> Q g ts \<Longrightarrow> \<exists>mg mp. g' = set_limits mg mp g \<Longrightarrow> Q g' ts"
  have "gate_reach s \<Longrightarrow> Q (fst s) (snd s)" for s
  proof (induction rule: gate_reach.induct)
    case (ginit mg mp)
    then show ?case using Q(1) by auto
  next
    case (gthread g ts i t rest e new sp g')
    then show ?case using Q(2) [OF gthread(1) _ gthread(2-4)] by simp
  next
    case (gspawn g ts t)
    then show ?case using Q(3) [OF gspawn(1)] by simp
  next
    case (glimits g ts mg mp)
    then show ?case using Q(4) [OF glimits(1)] by auto
  qed
  from this [OF r] show "Q g ts" by simp
qed (rule gate_reach.gthread)

subsection \<open>The counters count the permits\<close>

definition gate_ok :: "create_gate \<Rightarrow> bool" where
  "gate_ok g \<longleftrightarrow> gomap (cg_pending g) \<and> gomap (cg_by_model g) \<and> cg_global g = int (length (cg_pending g)) \<and>
     (\<forall>m. zget (cg_by_model g) m = int (count (mset (map snd (cg_pending g))) m)) \<and>
     (\<forall>i \<in> fst ` set (cg_pending g). i \<le> cg_next g) \<and> cg_changed g \<notin> set (cg_done g) \<and>
     (\<forall>c \<in> set (cg_done g). c < cg_changed g)"

lemma notify_waiters_ok: "gate_ok g \<Longrightarrow> gate_ok (notify_waiters g)"
  by (auto simp: gate_ok_def notify_waiters_def less_Suc_eq)

lemma new_gate_ok: "gate_ok (new_gate mg mp)"
  by (auto simp: gate_ok_def new_gate_def split: prod.split)

lemma limits_pending [simp]: "cg_pending (new_gate mg mp) = []" "cg_pending (set_limits mg mp g) = cg_pending g"
  by (simp_all add: new_gate_def set_limits_def notify_waiters_def split: prod.split)

lemma set_limits_ok: "gate_ok g \<Longrightarrow> gate_ok (set_limits mg mp g)"
  by (auto simp: gate_ok_def set_limits_def notify_waiters_def less_Suc_eq split: prod.split)

lemma grant_ok:
  assumes "gate_ok g" "grant model g = (i, g')"
  shows "gate_ok g'" "cg_pending g' = cg_pending g @ [(i, model)]" "map_of (cg_pending g) i = None" "i = cg_next g + 1"
proof -
  have f: "i \<notin> fst ` set (cg_pending g)" using assms by (auto simp: gate_ok_def grant_def Let_def)
  then show n: "map_of (cg_pending g) i = None" by (simp add: map_of_eq_None_iff)
  show p: "cg_pending g' = cg_pending g @ [(i, model)]"
    using assms(2) n by (auto simp: grant_def Let_def update_absent_append)
  show "i = cg_next g + 1" using assms(2) by (auto simp: grant_def Let_def)
  then show "gate_ok g'"
    using assms f p by (auto simp: gate_ok_def grant_def Let_def gomap_def gomap_simps distinct_update)
qed

lemma delete_mset:
  "gomap m \<Longrightarrow> map_of m k = Some v \<Longrightarrow> mset (map snd m) = add_mset v (mset (map snd (AList.delete k m)))"
proof (induction m)
  case (Cons x m)
  show ?case
  proof (cases "fst x = k")
    case True
    then have "k \<notin> fst ` set m" using Cons.prems(1) by (auto simp: gomap_def)
    with True Cons.prems(2) show ?thesis by (cases x) (simp add: delete_id)
  qed (use Cons in \<open>cases x; auto simp: gomap_def\<close>)
qed simp

lemma gate_release_ok:
  assumes "gate_ok g" "map_of (cg_pending g) i = Some model"
  shows "gate_ok (gate_release i g)" "cg_pending (gate_release i g) = AList.delete i (cg_pending g)"
    "cg_changed g \<in> set (cg_done (gate_release i g))"
proof -
  have m: "mset (map snd (cg_pending g)) = add_mset model (mset (map snd (AList.delete i (cg_pending g))))"
    using assms by (intro delete_mset) (auto simp: gate_ok_def)
  from arg_cong [OF m, of size] have l: "length (cg_pending g) = Suc (length (AList.delete i (cg_pending g)))" by simp
  have z: "zget (cg_by_model g) k = int (count (mset (map snd (cg_pending g))) k)" for k
    using assms(1) by (simp add: gate_ok_def)
  define bm where "bm = (if 1 < zget (cg_by_model g) model
    then AList.update model (zget (cg_by_model g) model - 1) (cg_by_model g) else AList.delete model (cg_by_model g))"
  have b: "gomap bm" using assms(1) by (simp add: bm_def gate_ok_def gomap_intros)
  have c: "zget bm k = int (count (mset (map snd (AList.delete i (cg_pending g)))) k)" for k
    using z [of k] z [of model] m by (auto simp: bm_def zget_update zget_delete simp del: mset_map)
  have r: "gate_release i g = notify_waiters (g\<lparr>cg_pending := AList.delete i (cg_pending g),
      cg_global := cg_global g - 1, cg_by_model := bm\<rparr>)"
    using assms l by (simp add: gate_release_def bm_def Let_def gate_ok_def)
  have "gate_ok (g\<lparr>cg_pending := AList.delete i (cg_pending g), cg_global := cg_global g - 1, cg_by_model := bm\<rparr>)"
    using assms(1) b c l by (auto simp: gate_ok_def gomap_intros set_delete)
  then show "gate_ok (gate_release i g)" by (simp add: r notify_waiters_ok)
  show "cg_pending (gate_release i g) = AList.delete i (cg_pending g)"
    "cg_changed g \<in> set (cg_done (gate_release i g))"
    by (simp_all add: gate_release_def assms(2) Let_def notify_waiters_def)
qed

lemma gate_ok_reach:
  assumes "gate_reach (g, ts)"
  shows "gate_ok g"
proof -
  have "gate_ok g \<and> (\<forall>t \<in> set (concat ts). True)"
  proof (rule gate.invariant [OF assms, where I = gate_ok and J = "\<lambda>g t. True"])
    fix e t g new sp g'
    assume "gate_ok g" "gexec e t g = Some (new, sp, g')"
    then show "gate_ok g' \<and> (\<forall>u \<in> set new \<union> set sp. True) \<and> (\<forall>u. True \<longrightarrow> True)"
      by (cases t; cases "map_of (cg_pending g) (case t of GHold i \<Rightarrow> i | _ \<Rightarrow> 0)")
        (auto simp: gate_release_def dest: grant_ok(1) gate_release_ok(1) split: if_splits prod.splits)
  qed (auto simp: new_gate_ok set_limits_ok)
  then show ?thesis by simp
qed

subsection \<open>Holders and waiters\<close>

fun gate_holds :: "gtask \<Rightarrow> bool" where
  "gate_holds (GHold i) = True" | "gate_holds t = False"

lemma grant_cases:
  assumes "gexec e (GAcquire model) g = Some (new, sp, g')"
  obtains (granted) i where "can_acquire model g" "grant model g = (i, g')" "new = [GHold i]" "sp = []"
    | (full) "\<not> can_acquire model g" "g' = g" "new = [GWait model (cg_changed g)]" "sp = []"
  using assms by (auto split: if_splits prod.splits)

lemma release_missing: "map_of (cg_pending g) i = None \<Longrightarrow> gate_release i g = g"
  by (simp add: gate_release_def)

text \<open>Each permit has exactly one holder.\<close>

lemma one_holder:
  assumes "gate_reach (g, ts)"
  shows "pend (\<lambda>t. t = GHold i) ts = (if map_of (cg_pending g) i = None then 0 else 1)"
proof (rule gate.token_count_reach [OF assms, where f = "\<lambda>g. if map_of (cg_pending g) i = None then 0 else 1"])
  fix e t g ts new sp g'
  assume r: "gate_reach (g, ts)" and x: "gexec e t g = Some (new, sp, g')"
    and p: "t = GHold i \<Longrightarrow> (1::int) \<le> (if map_of (cg_pending g) i = None then 0 else 1)"
  have k: "gate_ok g" by (rule gate_ok_reach [OF r])
  show "many (\<lambda>t. t = GHold i) new + many (\<lambda>t. t = GHold i) sp - (if t = GHold i then 1 else 0) =
      (if map_of (cg_pending g') i = None then 0 else 1) - (if map_of (cg_pending g) i = None then 0 else (1::int))"
  proof (cases t)
    case (GAcquire model)
    with x have "gexec e (GAcquire model) g = Some (new, sp, g')" by simp
    then show ?thesis
    proof (cases rule: grant_cases)
      case (granted j)
      then show ?thesis using grant_ok(2,3) [OF k granted(2)] GAcquire by (auto split: option.splits)
    qed (simp add: GAcquire)
  next
    case (GHold j)
    then show ?thesis using x p gate_release_ok(2) [OF k, of j] release_missing [of g j]
      by (cases "map_of (cg_pending g) j") (auto simp: map_of_delete)
  qed (use x in \<open>auto split: if_splits\<close>)
qed (auto elim: gate_entry.elims)

lemma holder_pending:
  assumes "gate_reach (g, ts)" "GHold i \<in> set (concat ts)"
  shows "\<exists>model. map_of (cg_pending g) i = Some model"
proof -
  obtain xs where "xs \<in> set ts" "GHold i \<in> set xs" using assms(2) by auto
  then obtain j where "j < length ts" "GHold i \<in> set (ts ! j)" by (metis in_set_conv_nth)
  then have "1 \<le> pend (\<lambda>t. t = GHold i) ts" by (rule pend_pos) simp
  then show ?thesis using one_holder [OF assms(1), of i] by (auto split: if_splits)
qed

lemma holders_counted:
  assumes "gate_reach (g, ts)"
  shows "pend gate_holds ts = cg_global g"
proof -
  have "pend gate_holds ts = int (length (cg_pending g))"
  proof (rule gate.token_count_reach [OF assms, where f = "\<lambda>g. int (length (cg_pending g))"])
    fix e t g ts new sp g'
    assume r: "gate_reach (g, ts)" and t: "t \<in> set (concat ts)" and x: "gexec e t g = Some (new, sp, g')"
    have k: "gate_ok g" by (rule gate_ok_reach [OF r])
    show "many gate_holds new + many gate_holds sp - (if gate_holds t then 1 else 0) =
        int (length (cg_pending g')) - int (length (cg_pending g))"
    proof (cases t)
      case (GAcquire model)
      with x have "gexec e (GAcquire model) g = Some (new, sp, g')" by simp
      then show ?thesis
        by (cases rule: grant_cases) (use grant_ok(2) [OF k] GAcquire in auto)
    next
      case (GHold j)
      then obtain model where m: "map_of (cg_pending g) j = Some model" using holder_pending [OF r] t by auto
      have "mset (map snd (cg_pending g)) = add_mset model (mset (map snd (AList.delete j (cg_pending g))))"
        using k m by (intro delete_mset) (auto simp: gate_ok_def)
      from arg_cong [OF this, of size] show ?thesis using GHold x gate_release_ok(2) [OF k m] by simp
    qed (use x in \<open>auto split: if_splits\<close>)
  qed (auto elim: gate_entry.elims)
  then show ?thesis using gate_ok_reach [OF assms] by (simp add: gate_ok_def)
qed

definition waits_right :: "create_gate \<Rightarrow> gtask \<Rightarrow> bool" where
  "waits_right g t = (case t of
     GWait model ch \<Rightarrow> ch \<in> set (cg_done g) \<or> (ch = cg_changed g \<and> \<not> can_acquire model g)
   | _ \<Rightarrow> True)"

lemma notified_wakes: "waits_right g t \<Longrightarrow> waits_right (notify_waiters (g\<lparr>cg_pending := p, cg_global := n, cg_by_model := b\<rparr>)) t"
  "waits_right g t \<Longrightarrow> waits_right (notify_waiters (g\<lparr>cg_max_global := x, cg_max_model := y\<rparr>)) t"
  by (auto simp: waits_right_def notify_waiters_def split: gtask.splits)

lemma limits_wake: "waits_right g t \<Longrightarrow> waits_right (set_limits mg mp g) t"
  by (simp add: set_limits_def notified_wakes split: prod.split)

lemma waits_right_entry: "gate_entry t \<Longrightarrow> waits_right g t"
  by (cases t) (simp_all add: waits_right_def)

lemma grant_keeps_waiters:
  assumes "gate_ok g" "grant model g = (i, g')" "waits_right g t"
  shows "waits_right g' t"
  using assms(2,3) by (auto simp: waits_right_def can_acquire_def grant_def Let_def zget_update split: gtask.splits if_splits)

lemma waits_right_reach:
  assumes "gate_reach (g, ts)"
  shows "gate_ok g \<and> (\<forall>t \<in> set (concat ts). waits_right g t)"
proof (rule gate.invariant [OF assms])
  fix e t g new sp g'
  assume I: "gate_ok g" "waits_right g t" and x: "gexec e t g = Some (new, sp, g')"
  show "gate_ok g' \<and> (\<forall>u \<in> set new \<union> set sp. waits_right g' u) \<and> (\<forall>u. waits_right g u \<longrightarrow> waits_right g' u)"
  proof (cases t)
    case (GAcquire model)
    with x have "gexec e (GAcquire model) g = Some (new, sp, g')" by simp
    then show ?thesis
    proof (cases rule: grant_cases)
      case (granted i)
      then show ?thesis using grant_ok(1) [OF I(1) granted(2)] grant_keeps_waiters [OF I(1) granted(2)]
        by (auto simp: waits_right_def)
    qed (use I in \<open>auto simp: waits_right_def\<close>)
  next
    case (GHold i)
    show ?thesis
    proof (cases "map_of (cg_pending g) i")
      case (Some model)
      then show ?thesis using GHold x gate_release_ok(1) [OF I(1) Some]
        by (auto simp: gate_release_def Let_def notified_wakes)
    qed (use GHold x I in \<open>auto simp: gate_release_def\<close>)
  qed (use x I in \<open>auto simp: waits_right_def split: if_splits\<close>)
qed (auto simp: new_gate_ok set_limits_ok limits_wake waits_right_entry)

subsection \<open>The gate as a semaphore\<close>

definition gate_abs :: "create_gate \<Rightarrow> string multiset" where
  "gate_abs g = mset (map snd (cg_pending g))"

definition sem_free :: "int \<times> int \<Rightarrow> string \<Rightarrow> string multiset \<Rightarrow> bool" where
  "sem_free caps model ms \<longleftrightarrow> int (size ms) < fst caps \<and> int (count ms model) < snd caps"

lemma gate_abs_grant: "gate_ok g \<Longrightarrow> gate_abs (snd (grant model g)) = add_mset model (gate_abs g)"
  by (cases "grant model g") (simp add: gate_abs_def grant_ok(2))

lemma gate_abs_release:
  "gate_ok g \<Longrightarrow> map_of (cg_pending g) i = Some model \<Longrightarrow> gate_abs (gate_release i g) = gate_abs g - {#model#}"
  using delete_mset [of "cg_pending g" i model] gate_release_ok(2) [of g i model]
  by (simp add: gate_abs_def gate_ok_def)

text \<open>What a caller of the gate relies on.\<close>

locale slots =
  fixes inv :: "'g \<Rightarrow> bool" and held :: "'g \<Rightarrow> string multiset" and owner :: "'g \<Rightarrow> nat \<Rightarrow> string option"
    and take :: "string \<Rightarrow> 'g \<Rightarrow> nat \<times> 'g" and give :: "nat \<Rightarrow> 'g \<Rightarrow> 'g"
  assumes take_inv: "inv g \<Longrightarrow> take model g = (i, g') \<Longrightarrow> inv g'"
    and take_held: "inv g \<Longrightarrow> take model g = (i, g') \<Longrightarrow> held g' = add_mset model (held g)"
    and take_owner: "inv g \<Longrightarrow> take model g = (i, g') \<Longrightarrow> owner g' i = Some model"
    and give_inv: "inv g \<Longrightarrow> inv (give i g)"
    and give_held: "inv g \<Longrightarrow> owner g i = Some model \<Longrightarrow> held (give i g) = held g - {#model#}"
begin

lemma balanced:
  assumes "inv g" "take model g = (i, g')"
  shows "held (give i g') = held g" "inv (give i g')"
  using take_held [OF assms] give_held [OF take_inv [OF assms] take_owner [OF assms]]
    give_inv [OF take_inv [OF assms]] by simp_all

end

interpretation permits: slots gate_ok gate_abs "\<lambda>g. map_of (cg_pending g)" grant gate_release
proof
  fix g model i g'
  assume a: "gate_ok g" "grant model g = (i, g')"
  show "gate_ok g'" "gate_abs g' = add_mset model (gate_abs g)" "map_of (cg_pending g') i = Some model"
    using grant_ok [OF a] gate_abs_grant [OF a(1), of model] a(2) by (auto simp: map_add_def)
next
  fix g i
  assume "gate_ok g"
  then show "gate_ok (gate_release i g)"
    by (cases "map_of (cg_pending g) i") (auto simp: gate_release_def dest: gate_release_ok(1))
qed (rule gate_abs_release)

text \<open>
  C15: the gate is a counting semaphore.  Over the multiset of the models with a creation in
  flight, \<open>canAcquireLocked\<close> holds exactly when both caps have room, a grant adds the
  model, a release removes it and one of an unknown permit changes nothing; the multiset
  counts the callers that hold a permit, and every permit has exactly one holder.
\<close>

theorem gate_refines_semaphore:
  assumes "gate_reach (g, ts)"
  shows "can_acquire model g = sem_free (cg_max_global g, cg_max_model g) model (gate_abs g) \<and>
    gate_abs (snd (grant model g)) = add_mset model (gate_abs g) \<and>
    gate_abs (gate_release i g) = (case map_of (cg_pending g) i of None \<Rightarrow> gate_abs g | Some m \<Rightarrow> gate_abs g - {#m#}) \<and>
    int (size (gate_abs g)) = pend gate_holds ts \<and>
    pend (\<lambda>t. t = GHold i) ts = (if map_of (cg_pending g) i = None then 0 else 1)"
proof -
  have k: "gate_ok g" by (rule gate_ok_reach [OF assms])
  have "can_acquire model g = sem_free (cg_max_global g, cg_max_model g) model (gate_abs g)"
    using k by (auto simp: can_acquire_def sem_free_def gate_ok_def gate_abs_def)
  moreover have "int (size (gate_abs g)) = pend gate_holds ts"
    using k holders_counted [OF assms] by (simp add: gate_abs_def gate_ok_def)
  moreover have "gate_abs (gate_release i g) = (case map_of (cg_pending g) i of None \<Rightarrow> gate_abs g | Some m \<Rightarrow> gate_abs g - {#m#})"
    using gate_abs_release [OF k] by (auto simp: release_missing split: option.split)
  ultimately show ?thesis using gate_abs_grant [OF k] one_holder [OF assms] by simp
qed

text \<open>Two callers of a gate of size one: the first holds the slot, the second waits.\<close>

definition gate_env :: genv where "gate_env = \<lparr>ge_ctx = None, ge_pick = False\<rparr>"

definition crowded :: "(create_gate \<times> gtask list list) option" where
  "crowded = play gexec [(0, gate_env), (1, gate_env)] (new_gate 1 1, [[GAcquire ''a''], [GAcquire ''b'']])"

lemma two_callers: "gate_reach (new_gate mg mp, [[GAcquire a], [GAcquire b]])"
  using gspawn [OF gspawn [OF ginit, of "GAcquire a"], of "GAcquire b"] by simp

lemma crowded_state:
  obtains g where "crowded = Some (g, [[GHold 1], [GWait ''b'' 0]])" "gate_reach (g, [[GHold 1], [GWait ''b'' 0]])"
    "map_of (cg_pending g) 1 = Some ''a''" "cg_done g = []"
proof -
  have f: "case crowded of None \<Rightarrow> False | Some (g, ts) \<Rightarrow> ts = [[GHold 1], [GWait ''b'' 0]] \<and>
      map_of (cg_pending g) 1 = Some ''a'' \<and> cg_done g = []"
    by code_simp
  then obtain g ts where p: "crowded = Some (g, ts)" by (cases crowded) auto
  then have "gate_reach (g, ts)" unfolding crowded_def by (rule gate.play_reach [OF two_callers])
  moreover have "ts = [[GHold 1], [GWait ''b'' 0]] \<and> map_of (cg_pending g) 1 = Some ''a'' \<and> cg_done g = []"
    using f unfolding p by simp
  ultimately show ?thesis using p that [of g] by simp
qed

theorem gate_refines_semaphore_witness:
  "\<exists>g. crowded = Some (g, [[GHold 1], [GWait ''b'' 0]]) \<and> size (gate_abs g) = 1 \<and>
     size (gate_abs (gate_release 1 g)) = size (gate_abs g - {#''a''#})"
proof -
  obtain g where g: "crowded = Some (g, [[GHold 1], [GWait ''b'' 0]])" "gate_reach (g, [[GHold 1], [GWait ''b'' 0]])"
    "map_of (cg_pending g) 1 = Some ''a''" by (rule crowded_state)
  have "pend gate_holds [[GHold 1], [GWait ''b'' 0]] = 1" by simp
  with gate_refines_semaphore [OF g(2), of "''b''" 1] g(1,3) show ?thesis by auto
qed

text \<open>The holder releases: there is room again, and the caller waits on the channel just closed.\<close>

definition roomy :: "(create_gate \<times> gtask list list) option" where
  "roomy = play gexec [(0, gate_env), (1, gate_env), (0, gate_env)] (new_gate 1 1, [[GAcquire ''a''], [GAcquire ''b'']])"

lemma roomy_state:
  obtains g where "roomy = Some (g, [[], [GWait ''b'' 0]])" "gate_reach (g, [[], [GWait ''b'' 0]])"
    "can_acquire ''b'' g" "fst (grant ''b'' g) = 2"
proof -
  have f: "case roomy of None \<Rightarrow> False | Some (g, ts) \<Rightarrow> ts = [[], [GWait ''b'' 0]] \<and>
      can_acquire ''b'' g \<and> fst (grant ''b'' g) = 2"
    by code_simp
  then obtain g ts where p: "roomy = Some (g, ts)" by (cases roomy) auto
  then have "gate_reach (g, ts)" unfolding roomy_def by (rule gate.play_reach [OF two_callers])
  moreover have "ts = [[], [GWait ''b'' 0]] \<and> can_acquire ''b'' g \<and> fst (grant ''b'' g) = 2"
    using f unfolding p by simp
  ultimately show ?thesis using p that [of g] by simp
qed

text \<open>
  C16: no wakeup is lost.  Whenever there is room for the model of a waiting caller, however a
  release or a reload of the caps made it, the channel the caller waits on is closed already:
  its next step is a new attempt, unless its context is done as well and the \<open>select\<close> takes
  that case, and the attempt made while there is room gets the permit.
\<close>

theorem gate_no_lost_wakeup:
  assumes "gate_reach (g, ts)" "GWait model ch \<in> set (concat ts)"
  shows "can_acquire model g \<longrightarrow> ch \<in> set (cg_done g) \<and>
    gexec e (GWait model ch) g = Some (if ge_ctx e \<noteq> None \<and> ge_pick e then [] else [GAcquire model], [], g) \<and>
    gexec e (GAcquire model) g = Some ([GHold (fst (grant model g))], [], snd (grant model g))"
proof
  assume room: "can_acquire model g"
  have "ch \<in> set (cg_done g)" using waits_right_reach [OF assms(1)] assms(2) room by (fastforce simp: waits_right_def)
  with room show "ch \<in> set (cg_done g) \<and>
    gexec e (GWait model ch) g = Some (if ge_ctx e \<noteq> None \<and> ge_pick e then [] else [GAcquire model], [], g) \<and>
    gexec e (GAcquire model) g = Some ([GHold (fst (grant model g))], [], snd (grant model g))"
    by (auto simp: case_prod_beta)
qed

theorem gate_no_lost_wakeup_witness:
  "\<exists>g. roomy = Some (g, [[], [GWait ''b'' 0]]) \<and> 0 \<in> set (cg_done g) \<and>
     gexec gate_env (GWait ''b'' 0) g = Some ([GAcquire ''b''], [], g) \<and>
     gexec gate_env (GAcquire ''b'') g = Some ([GHold 2], [], snd (grant ''b'' g))"
proof -
  obtain g where g: "roomy = Some (g, [[], [GWait ''b'' 0]])" "gate_reach (g, [[], [GWait ''b'' 0]])"
    "can_acquire ''b'' g" "fst (grant ''b'' g) = 2" by (rule roomy_state)
  from gate_no_lost_wakeup [OF g(2), of "''b''" 0 gate_env] g(3) have
    "0 \<in> set (cg_done g) \<and> gexec gate_env (GWait ''b'' 0) g = Some ([GAcquire ''b''], [], g) \<and>
     gexec gate_env (GAcquire ''b'') g = Some ([GHold (fst (grant ''b'' g))], [], snd (grant ''b'' g))"
    by (simp add: gate_env_def)
  with g(1,4) show ?thesis by (intro exI [of _ g]) (simp del: gexec.simps)
qed

end
