(* ===== verification/PoolOrder.thy ===== *)
theory PoolOrder
  imports PoolQuota RunCooldown PoolGate "HOL-Library.Product_Lexorder"
begin

text \<open>
  \<open>acquireOrder\<close> of \<open>internal/pool/acquire.go\<close>: the order in which the tokens are tried for a
  model.  Tokens with a live session for the model come first, then tokens without a session,
  then tokens whose session is for another model.
\<close>

text \<open>A token as the pool sees it: the lock, the cooldowns of its run manager, its session manager.\<close>

record ptoken =
  pt_locked :: bool
  pt_cool :: cooldowns
  pt_session :: smanager

abbreviation snap_of :: "ptoken \<Rightarrow> session_snapshot" where
  "snap_of t \<equiv> snapshot (pt_session t)"

definition order_eligible :: "gotime \<Rightarrow> string \<Rightarrow> ptoken \<Rightarrow> bool" where
  "order_eligible now model t \<longleftrightarrow> (if pt_locked t then False
     else if quota_capped now (snap_of t) model then False else True)"

text \<open>The token of the model's session admission in flight, if any.\<close>

definition admitting :: "int option \<Rightarrow> nat \<Rightarrow> bool" where
  "admitting adm i \<longleftrightarrow> adm = Some (int i)"

definition has_live :: "gotime \<Rightarrow> int option \<Rightarrow> ptoken \<Rightarrow> nat \<Rightarrow> bool" where
  "has_live now adm t i \<longleftrightarrow> snapshot_usable now (snap_of t) \<or> sn_refreshing (snap_of t) \<or> admitting adm i"

definition tier :: "gotime \<Rightarrow> string \<Rightarrow> int option \<Rightarrow> ptoken \<Rightarrow> nat \<Rightarrow> nat" where
  "tier now model adm t i = (if has_live now adm t i
     then (if matches_model model (snap_of t) \<or> admitting adm i then 0 else 2) else 1)"

text \<open>The order among the tokens with a live session for the model.\<close>

definition hot_less :: "gotime \<Rightarrow> string \<Rightarrow> int option \<Rightarrow> nat option \<Rightarrow> ptoken list \<Rightarrow> nat \<Rightarrow> nat \<Rightarrow> bool" where
  "hot_less now model adm lst ts a b = (let sa = snap_of (ts ! a); sb = snap_of (ts ! b);
       adm_a = (sn_refreshing sa \<or> admitting adm a); adm_b = (sn_refreshing sb \<or> admitting adm b);
       (a_known, a_rem, _) = quota_remaining now sa model; (b_known, b_rem, _) = quota_remaining now sb model
     in if adm_a \<noteq> adm_b then adm_a
        else if a_known \<noteq> b_known then a_known
        else if a_known \<and> a_rem \<noteq> b_rem then a_rem < b_rem
        else if lst = Some a \<and> lst \<noteq> Some b then True
        else if lst = Some b \<and> lst \<noteq> Some a then False
        else a < b)"

text \<open>\<open>sort.SliceStable\<close>.\<close>

fun stable_insert :: "('a \<Rightarrow> 'a \<Rightarrow> bool) \<Rightarrow> 'a \<Rightarrow> 'a list \<Rightarrow> 'a list" where
  "stable_insert lt x [] = [x]"
| "stable_insert lt x (y # ys) = (if lt y x then y # stable_insert lt x ys else x # y # ys)"

fun stable_sort :: "('a \<Rightarrow> 'a \<Rightarrow> bool) \<Rightarrow> 'a list \<Rightarrow> 'a list" where
  "stable_sort lt [] = []"
| "stable_sort lt (x # xs) = stable_insert lt x (stable_sort lt xs)"

definition round_robin :: "nat \<Rightarrow> nat \<Rightarrow> nat list" where
  "round_robin start n = map (\<lambda>k. (start + k) mod n) [0..<n]"

definition acquire_order ::
    "gotime \<Rightarrow> ptoken list \<Rightarrow> nat \<Rightarrow> string \<Rightarrow> nat option \<Rightarrow> int option \<Rightarrow> nat list \<times> rate_limit list" where
  "acquire_order now ts start model lst adm = (
     let idxs = filter (\<lambda>i. order_eligible now model (ts ! i)) (round_robin start (length ts));
         pick = (\<lambda>k. filter (\<lambda>i. tier now model adm (ts ! i) i = k) idxs);
         order = stable_sort (hot_less now model adm lst ts) (pick 0) @ pick 1 @ pick 2
     in if order = [] then (round_robin start (length ts), [])
        else (order, map (\<lambda>i. quota_limit_error now (snap_of (ts ! i)) model)
               (filter (\<lambda>i. i \<notin> set order \<and> quota_capped now (snap_of (ts ! i)) model) [0..<length ts])))"

subsection \<open>Sorting\<close>

lemma mset_stable_insert [simp]: "mset (stable_insert lt x xs) = add_mset x (mset xs)"
  by (induction xs) auto

lemma mset_stable_sort [simp]: "mset (stable_sort lt xs) = mset xs"
  by (induction xs) auto

lemma set_stable_sort [simp]: "set (stable_sort lt xs) = set xs"
  using mset_stable_sort [of lt xs] by (metis set_mset_mset)

lemma set_stable_insert [simp]: "set (stable_insert lt x xs) = insert x (set xs)"
  using mset_stable_insert [of lt x xs] by (metis set_mset_mset set_mset_add_mset_insert)

lemma stable_sort_key: "stable_sort (\<lambda>a b. f a < f b) xs = sort_key f xs"
proof -
  have "stable_insert (\<lambda>a b. f a < f b) x ys = insort_key f x ys" for x ys
    by (induction ys) auto
  then show ?thesis by (induction xs) auto
qed

text \<open>The comparison of hot tokens is the lexicographic order of a key.\<close>

definition hot_key :: "gotime \<Rightarrow> string \<Rightarrow> int option \<Rightarrow> nat option \<Rightarrow> ptoken list \<Rightarrow> nat \<Rightarrow> bool \<times> bool \<times> rat \<times> bool \<times> nat" where
  "hot_key now model adm lst ts i = (let sn = snap_of (ts ! i) in
     (\<not> (sn_refreshing sn \<or> admitting adm i), \<not> quota_known now sn model,
      if quota_known now sn model then quota_left now sn model else 0, lst \<noteq> Some i, i))"

lemma hot_less_key: "hot_less now model adm lst ts a b \<longleftrightarrow> hot_key now model adm lst ts a < hot_key now model adm lst ts b"
proof -
  obtain ka ra ca where a: "quota_remaining now (snap_of (ts ! a)) model = (ka, ra, ca)"
    by (cases "quota_remaining now (snap_of (ts ! a)) model") auto
  obtain kb rb cb where b: "quota_remaining now (snap_of (ts ! b)) model = (kb, rb, cb)"
    by (cases "quota_remaining now (snap_of (ts ! b)) model") auto
  show ?thesis
    by (cases ka; cases kb) (auto simp: hot_less_def hot_key_def a b Let_def less_prod_def)
qed

subsection \<open>The order tries every eligible token\<close>

lemma round_robin_set: "set (round_robin start n) = {..<n}"
proof (cases "n = 0")
  case False
  have "i \<in> (\<lambda>k. (start + k) mod n) ` {0..<n}" if "i < n" for i
  proof -
    define k where "k = (i + n - start mod n) mod n"
    have "(start + k) mod n = (start mod n + (i + n - start mod n)) mod n"
      unfolding k_def by (simp only: mod_add_right_eq mod_add_left_eq)
    also have "start mod n + (i + n - start mod n) = i + n"
      using False mod_less_divisor [of n start] by linarith
    finally have "(start + k) mod n = i" using that by simp
    moreover have "k < n" using False by (simp add: k_def)
    ultimately show ?thesis by force
  qed
  then show ?thesis using False by (auto simp: round_robin_def)
qed (simp add: round_robin_def)

lemma round_robin_distinct: "distinct (round_robin start n)"
  using round_robin_set [of start n] by (intro card_distinct) (simp add: round_robin_def)

lemma sorted_wrt_const: "\<forall>x \<in> set xs. f x = c \<Longrightarrow> sorted (map f xs)"
  by (induction xs) auto

text \<open>
  C19: the order of the tokens.  A token is eligible when it is neither locked nor out of session
  quota for the model; its cooldowns and its daily count are not looked at here, although the
  comment on \<open>eligible\<close> lists them, but when the token is visited.  When some token is eligible
  the order tries exactly the eligible ones, each once: those with a live session for the model (or
  one being admitted) first, then those without a session, then those whose session is for
  another model.  Within the first group an admission in flight goes first, then the smallest
  known remaining quota, then the token used last for the model, then the index.  The error of
  every token left out for its quota rides along.  When none is eligible, all tokens are tried
  round-robin, the locked ones included, and no quota error rides along.
\<close>

theorem acquire_order_spec:
  assumes "acquire_order now ts start model lst adm = (order, ql)"
  shows "if \<exists>i < length ts. order_eligible now model (ts ! i)
    then distinct order \<and> set order = {i. i < length ts \<and> order_eligible now model (ts ! i)} \<and>
      sorted (map (\<lambda>i. tier now model adm (ts ! i) i) order) \<and>
      sorted (map (hot_key now model adm lst ts) (filter (\<lambda>i. tier now model adm (ts ! i) i = 0) order)) \<and>
      ql = map (\<lambda>i. quota_limit_error now (snap_of (ts ! i)) model)
        (filter (\<lambda>i. quota_capped now (snap_of (ts ! i)) model) [0..<length ts])
    else order = round_robin start (length ts) \<and> ql = []"
proof -
  define idxs where "idxs = filter (\<lambda>i. order_eligible now model (ts ! i)) (round_robin start (length ts))"
  define tr where "tr = (\<lambda>i. tier now model adm (ts ! i) i)"
  define hot where "hot = sort_key (hot_key now model adm lst ts) (filter (\<lambda>i. tr i = 0) idxs)"
  define cand where "cand = hot @ filter (\<lambda>i. tr i = 1) idxs @ filter (\<lambda>i. tr i = 2) idxs"
  have sidx: "set idxs = {i. i < length ts \<and> order_eligible now model (ts ! i)}"
    by (auto simp: idxs_def round_robin_set)
  have t: "tier now model adm (ts ! i) i = tr i" for i by (simp add: tr_def)
  have tr3: "tr i = 0 \<or> tr i = 1 \<or> tr i = 2" for i by (simp add: tr_def tier_def)
  have scand: "set cand = set idxs"
    using tr3 unfolding cand_def hot_def set_append set_sort set_filter by blast
  have h: "stable_sort (hot_less now model adm lst ts) xs = sort_key (hot_key now model adm lst ts) xs" for xs
    unfolding stable_sort_key [symmetric] hot_less_key [abs_def] ..
  have r: "acquire_order now ts start model lst adm = (if cand = [] then (round_robin start (length ts), [])
      else (cand, map (\<lambda>i. quota_limit_error now (snap_of (ts ! i)) model)
        (filter (\<lambda>i. i \<notin> set cand \<and> quota_capped now (snap_of (ts ! i)) model) [0..<length ts])))"
    by (simp add: acquire_order_def Let_def h cand_def hot_def tr_def idxs_def)
  show ?thesis
  proof (cases "\<exists>i < length ts. order_eligible now model (ts ! i)")
    case True
    then obtain i where "i < length ts" "order_eligible now model (ts ! i)" by blast
    then have "i \<in> set cand" unfolding scand sidx by simp
    then have ne: "cand \<noteq> []" by (cases cand) simp_all
    have oq: "(order, ql) = (cand, map (\<lambda>i. quota_limit_error now (snap_of (ts ! i)) model)
        (filter (\<lambda>i. i \<notin> set cand \<and> quota_capped now (snap_of (ts ! i)) model) [0..<length ts]))"
      by (rule trans [OF assms [symmetric] trans [OF r if_not_P [OF ne]]])
    have e: "order = cand" "ql = map (\<lambda>i. quota_limit_error now (snap_of (ts ! i)) model)
        (filter (\<lambda>i. i \<notin> set cand \<and> quota_capped now (snap_of (ts ! i)) model) [0..<length ts])"
      using conjunct1 [OF oq [unfolded prod.inject]] conjunct2 [OF oq [unfolded prod.inject]] .
    have "distinct idxs" by (simp add: idxs_def round_robin_distinct)
    then have d: "distinct cand" by (auto simp: cand_def hot_def)
    have so: "sorted (map tr cand)"
      by (auto simp: cand_def hot_def sorted_append intro!: sorted_wrt_const)
    have hf: "filter (\<lambda>i. tr i = 0) cand = hot"
      by (auto simp: cand_def hot_def filter_empty_conv filter_id_conv)
    have q: "filter (\<lambda>i. i \<notin> set cand \<and> quota_capped now (snap_of (ts ! i)) model) [0..<length ts] =
        filter (\<lambda>i. quota_capped now (snap_of (ts ! i)) model) [0..<length ts]"
      by (rule filter_cong) (auto simp: scand sidx order_eligible_def)
    show ?thesis using True d so hf scand sidx e(2) unfolding e(1) q t by (simp add: hot_def)
  next
    case False
    then have "set cand = {}" unfolding scand sidx by blast
    then have "cand = []" by (simp only: set_empty)
    with r assms have "(order, ql) = (round_robin start (length ts), [])" by simp
    then show ?thesis unfolding if_not_P [OF False] prod.inject .
  qed
qed

text \<open>Three tokens: one with a session of another model, one cold, one hot.\<close>

definition token_with :: "string \<Rightarrow> string \<Rightarrow> ptoken" where
  "token_with inst model = \<lparr>pt_locked = False, pt_cool = no_cooldowns,
     pt_session = (new_manager inst None)\<lparr>sm_state := (if inst = [] then None else
       Some ((blank_cached ''active'')\<lparr>cs_instance := inst, cs_model := model, cs_expires := hour, cs_grace := 2 * hour\<rparr>))\<rparr>\<rparr>"

abbreviation three_tokens :: "ptoken list" where
  "three_tokens \<equiv> [token_with ''i0'' ''other'', token_with [] [], token_with ''i2'' ''m'']"

theorem acquire_order_spec_witness:
  "fst (acquire_order 0 three_tokens 0 ''m'' None None) = [2, 1, 0] \<and>
   distinct (fst (acquire_order 0 three_tokens 0 ''m'' None None))"
proof -
  obtain order ql where a: "acquire_order 0 three_tokens 0 ''m'' None None = (order, ql)" by fastforce
  have e: "fst (acquire_order 0 three_tokens 0 ''m'' None None) = [2, 1, 0]" by code_simp
  have "order_eligible 0 ''m'' (three_tokens ! 1)" by code_simp
  then have "\<exists>i < length three_tokens. order_eligible 0 ''m'' (three_tokens ! i)"
    by (intro exI [of _ 1]) simp
  with acquire_order_spec [OF a] have "distinct order" by simp
  with a e show ?thesis by simp
qed

end
