(* ===== verification/PoolAcquire.thy ===== *)
theory PoolAcquire
  imports PoolOrder
begin

text \<open>
  \<open>leaseFromOrder\<close> of \<open>internal/pool/acquire.go\<close>: one pass over the tokens of an order until one
  yields a session and a run, and the error surfaced when none does.

  The pool is a record; a token is a pointer, so that the list a pass works on can differ
  from the list of the pool when a token was removed meanwhile.  What happens in the calls a
  pass makes (the wait at the gate, \<open>EnsureSessionForModel\<close>, the start of the run) is given by
  the \<open>attempt\<close> of each visit: the results, the state the session manager is left in, the token
  list found afterwards.  A panic in \<open>CooldownIpCapped\<close> is the outcome \<open>Crashed\<close>.  The
  waiting-room chain fired before a session call, the phase timings and the log records are left
  out.
\<close>

record pool_lease =
  le_token :: int
  le_model :: string
  le_agent :: string
  le_run :: nat
  le_instance :: string
  le_fallback :: string
  le_entry :: ptr
  le_at :: gotime

text \<open>\<open>po_events\<close> is a ghost: the session calls and the webhook events, newest first.\<close>

datatype pool_event = VEnsure nat string | VBanned int string | VExhausted string

record pool_config =
  pc_max_messages :: int
  pc_scarce :: "string list"
  pc_fallback :: "(string \<times> string) list"

record pool =
  po_tok :: "ptr \<Rightarrow> ptoken"
  po_toks :: "ptr list"
  po_usage :: "gotime list list"
  po_ledgers :: "spend_ledger list"
  po_gate :: create_gate
  po_admissions :: "(string \<times> int) list"
  po_last :: "(string \<times> nat) list"
  po_unfit :: unfit_registry
  po_active :: gotime
  po_idle_finished :: bool
  po_sessions_ended :: bool
  po_notify :: bool
  po_events :: "pool_event list"

record attempt =
  at_now :: gotime
  at_zone :: "zone option"
  at_ctx :: "gerr option"
  at_gate :: "gerr option"
  at_session :: smanager
  at_ensured :: "string + gerr"
  at_rand :: int
  at_toks :: "ptr list"
  at_run :: "nat + gerr"

text \<open>The reasons gathered for the tokens that yielded nothing.\<close>

record buckets =
  bk_errs :: "string list"
  bk_waiting :: "sess_waiting list"
  bk_rate :: "rate_limit list"
  bk_ip :: "ip_capped list"
  bk_ban :: "ban list"
  bk_country :: "country_blocked list"
  bk_model :: "limited_ip list"
  bk_daily :: "rate_limit list"
  bk_scarce :: "gotime list"

definition no_buckets :: buckets where
  "no_buckets = \<lparr>bk_errs = [], bk_waiting = [], bk_rate = [], bk_ip = [], bk_ban = [], bk_country = [], bk_model = [],
     bk_daily = [], bk_scarce = []\<rparr>"

definition add_new :: "('a \<Rightarrow> string) \<Rightarrow> 'a \<Rightarrow> 'a list \<Rightarrow> 'a list" where
  "add_new txt x xs = (if \<exists>y \<in> set xs. txt y = txt x then xs else xs @ [x])"

definition token_name :: "nat \<Rightarrow> string" where
  "token_name i = ''token-'' @ int_str (int i + 1)"

definition errline :: "nat \<Rightarrow> string \<Rightarrow> buckets \<Rightarrow> buckets" where
  "errline i msg b = b\<lparr>bk_errs := bk_errs b @ [token_name i @ '': '' @ msg]\<rparr>"

subsection \<open>A token left alone\<close>

text \<open>A quota lock of another model does not keep the token from serving this one.\<close>

definition cooldown_blocks :: "gotime \<Rightarrow> string \<Rightarrow> cooldowns \<Rightarrow> bool" where
  "cooldown_blocks now model c \<longleftrightarrow> now < co_until c \<and>
     (case rate_limit_error now c of None \<Rightarrow> True
      | Some r \<Rightarrow> \<not> (rl_model r \<noteq> [] \<and> rl_model r \<noteq> model \<and> is_quota_exhausted r))"

definition record_cooling :: "nat \<Rightarrow> gotime \<Rightarrow> cooldowns \<Rightarrow> buckets \<Rightarrow> buckets" where
  "record_cooling i now c b = (let b = errline i (''cooling down until '' @ fmt_rfc3339 (co_until c)) b in
     b\<lparr>bk_ban := (case ban_error now c of None \<Rightarrow> bk_ban b | Some e \<Rightarrow> add_new ban_text e (bk_ban b)),
       bk_country := (case country_blocked_error now c of None \<Rightarrow> bk_country b | Some e \<Rightarrow> add_new country_text e (bk_country b)),
       bk_rate := (case rate_limit_error now c of None \<Rightarrow> bk_rate b | Some e \<Rightarrow> add_new rate_limit_text e (bk_rate b)),
       bk_ip := (case ip_capped_error now c of None \<Rightarrow> bk_ip b | Some e \<Rightarrow> add_new ip_capped_text e (bk_ip b))\<rparr>)"

subsection \<open>A token refused\<close>

definition with_token :: "ptr \<Rightarrow> (ptoken \<Rightarrow> ptoken) \<Rightarrow> pool \<Rightarrow> pool" where
  "with_token x f p = p\<lparr>po_tok := (po_tok p)(x := f (po_tok p x))\<rparr>"

definition cool :: "ptr \<Rightarrow> (cooldowns \<Rightarrow> cooldowns) \<Rightarrow> pool \<Rightarrow> pool" where
  "cool x f p = with_token x (\<lambda>t. t\<lparr>pt_cool := f (pt_cool t)\<rparr>) p"

definition emit :: "pool_event \<Rightarrow> pool \<Rightarrow> pool" where
  "emit v p = p\<lparr>po_events := v # po_events p\<rparr>"

text \<open>\<open>notifyBan\<close>.\<close>

definition notify_ban :: "int \<Rightarrow> string \<Rightarrow> pool \<Rightarrow> pool" where
  "notify_ban i model p = (if po_notify p then emit (VBanned i model) p else p)"

definition refused_rate :: "attempt \<Rightarrow> nat \<Rightarrow> ptr \<Rightarrow> string \<Rightarrow> rate_limit \<Rightarrow> buckets \<times> pool \<Rightarrow> buckets \<times> pool" where
  "refused_rate v i x model r s = (case s of (b, p) \<Rightarrow>
     let r = (if rl_model r = [] then r\<lparr>rl_model := model\<rparr> else r);
         p = cool x (cooldown_rate_limit (at_zone v) r (at_now v)) p
     in (b\<lparr>bk_rate := add_new rate_limit_text r (bk_rate b)\<rparr>,
         if rl_status r = ''spend_limited'' then p\<lparr>po_ledgers := record_spend_limited (int i) (po_ledgers p)\<rparr> else p))"

definition refused_ip :: "attempt \<Rightarrow> ptr \<Rightarrow> ip_capped \<Rightarrow> buckets \<times> pool \<Rightarrow> (buckets \<times> pool) option" where
  "refused_ip v x e s = (case s of (b, p) \<Rightarrow>
     (case cooldown_ip_capped (at_zone v) (at_rand v) e (at_now v) (pt_cool (po_tok p x)) of
        None \<Rightarrow> None
      | Some c \<Rightarrow> Some (b\<lparr>bk_ip := add_new ip_capped_text e (bk_ip b)\<rparr>, cool x (\<lambda>_. c) p)))"

definition refused_ban :: "attempt \<Rightarrow> nat \<Rightarrow> ptr \<Rightarrow> string \<Rightarrow> ban \<Rightarrow> buckets \<times> pool \<Rightarrow> buckets \<times> pool" where
  "refused_ban v i x model e s = (case s of (b, p) \<Rightarrow>
     (b\<lparr>bk_ban := add_new ban_text e (bk_ban b)\<rparr>,
      notify_ban (int i + 1) model (cool x (cooldown_ban e (at_now v)) p)))"

definition refused_country :: "attempt \<Rightarrow> ptr \<Rightarrow> country_blocked \<Rightarrow> buckets \<times> pool \<Rightarrow> buckets \<times> pool" where
  "refused_country v x e s = (case s of (b, p) \<Rightarrow>
     (b\<lparr>bk_country := add_new country_text e (bk_country b)\<rparr>, cool x (cooldown_country_blocked e (at_now v)) p))"

text \<open>What a failed session call and a failed run start have in common.\<close>

definition refused :: "attempt \<Rightarrow> nat \<Rightarrow> ptr \<Rightarrow> string \<Rightarrow> gerr \<Rightarrow> buckets \<times> pool \<Rightarrow> (buckets \<times> pool) option" where
  "refused v i x model err s =
     (let s = (if err_is err ErrAuthRejected then map_prod id (cool x (cooldown default_cooldown (at_now v))) s else s);
          s = (case as_rate_limit err of None \<Rightarrow> s | Some r \<Rightarrow> refused_rate v i x model r s)
      in case (case as_ip_capped err of None \<Rightarrow> Some s | Some e \<Rightarrow> refused_ip v x e s) of
           None \<Rightarrow> None
         | Some s \<Rightarrow>
             let s = (case as_ban err of None \<Rightarrow> s | Some e \<Rightarrow> refused_ban v i x model e s);
                 s = (case as_country err of None \<Rightarrow> s | Some e \<Rightarrow> refused_country v x e s)
             in Some s)"

definition session_refused :: "attempt \<Rightarrow> nat \<Rightarrow> ptr \<Rightarrow> string \<Rightarrow> gerr \<Rightarrow> buckets \<times> pool \<Rightarrow> (buckets \<times> pool) option" where
  "session_refused v i x model err s =
     (let s = (case as_sess_waiting err of None \<Rightarrow> s | Some w \<Rightarrow> map_prod (\<lambda>b. b\<lparr>bk_waiting := bk_waiting b @ [w]\<rparr>) id s)
      in case refused v i x model err s of
           None \<Rightarrow> None
         | Some (b, p) \<Rightarrow> (case as_limited_ip err of
             Some l \<Rightarrow> (let l = l\<lparr>li_model := model\<rparr> in
               Some (errline i (err_text err) (b\<lparr>bk_model := bk_model b @ [l]\<rparr>),
                 p\<lparr>po_unfit := mark_model_unfit model (Some l) (at_now v) (po_unfit p)\<rparr>))
           | None \<Rightarrow> Some (errline i (err_text err) b, p)))"

definition run_refused :: "attempt \<Rightarrow> nat \<Rightarrow> ptr \<Rightarrow> string \<Rightarrow> gerr \<Rightarrow> buckets \<times> pool \<Rightarrow> (buckets \<times> pool) option" where
  "run_refused v i x model err s = map_option (map_prod (errline i (err_text err)) id) (refused v i x model err s)"

subsection \<open>One visit\<close>

datatype visit = Next buckets pool | Stop "pool_lease + gerr" pool | Panic

definition next_or_panic :: "(buckets \<times> pool) option \<Rightarrow> visit" where
  "next_or_panic r = (case r of None \<Rightarrow> Panic | Some (b, p) \<Rightarrow> Next b p)"

text \<open>The model's admission in flight is forgotten when it is still this token's or the leader's mark.\<close>

definition clear_admission :: "string \<Rightarrow> nat \<Rightarrow> pool \<Rightarrow> pool" where
  "clear_admission model i p = (if zget (po_admissions p) model = int i \<or> zget (po_admissions p) model = - 1
     then p\<lparr>po_admissions := AList.delete model (po_admissions p)\<rparr> else p)"

definition effective :: "(string \<Rightarrow> string + gerr) \<Rightarrow> string \<Rightarrow> string \<Rightarrow> session_snapshot \<Rightarrow> string \<times> string" where
  "effective agents model agent sn = (if sn_model sn \<noteq> [] \<and> sn_model sn \<noteq> model
     then (sn_model sn, case agents (sn_model sn) of Inl a \<Rightarrow> a | Inr _ \<Rightarrow> agent) else (model, agent))"

definition leased :: "attempt \<Rightarrow> nat \<Rightarrow> ptr \<Rightarrow> string \<times> string \<Rightarrow> nat \<Rightarrow> string \<Rightarrow> pool_lease" where
  "leased v i x ma r inst = \<lparr>le_token = int i, le_model = fst ma, le_agent = snd ma, le_run = r, le_instance = inst,
     le_fallback = [], le_entry = x, le_at = at_now v\<rparr>"

text \<open>The part after the session is there: revalidation, the run, the lease.\<close>

definition lease_run :: "(string \<Rightarrow> string + gerr) \<Rightarrow> string \<Rightarrow> string \<Rightarrow> nat \<Rightarrow> ptr \<Rightarrow> attempt \<Rightarrow> string \<Rightarrow> buckets \<Rightarrow> pool \<Rightarrow> visit" where
  "lease_run agents model agent i x v inst b p0 =
     (let p = (cool x clear_cooldowns p0)\<lparr>po_toks := at_toks v\<rparr> in
      if length (po_toks p) \<le> i \<or> po_toks p ! i \<noteq> x then Next b p
      else let ma = effective agents model agent (snap_of (po_tok p x)) in
        case at_run v of
          Inr err \<Rightarrow> next_or_panic (run_refused v i x model err (b, p))
        | Inl r \<Rightarrow> Stop (Inl (leased v i x ma r inst))
            (p\<lparr>po_active := at_now v, po_idle_finished := False, po_sessions_ended := False,
               po_last := AList.update (fst ma) i (po_last p)\<rparr>))"

text \<open>The admission: the mark, the gate, the session call, the release of the permit and of the mark.\<close>

definition begin_admission :: "string \<Rightarrow> nat \<Rightarrow> pool \<Rightarrow> pool" where
  "begin_admission model i p = p\<lparr>po_admissions := AList.update model (int i) (po_admissions p)\<rparr>"

definition session_call :: "string \<Rightarrow> nat \<Rightarrow> ptr \<Rightarrow> attempt \<Rightarrow> pool \<Rightarrow> pool" where
  "session_call model i x v p = emit (VEnsure i model) (with_token x (\<lambda>t. t\<lparr>pt_session := at_session v\<rparr>) p)"

definition end_admission :: "string \<Rightarrow> nat \<Rightarrow> nat \<Rightarrow> pool \<Rightarrow> pool" where
  "end_admission model i k p = clear_admission model i (p\<lparr>po_gate := gate_release k (po_gate p)\<rparr>)"

definition admit :: "(string \<Rightarrow> string + gerr) \<Rightarrow> string \<Rightarrow> string \<Rightarrow> nat \<Rightarrow> ptr \<Rightarrow> attempt \<Rightarrow> buckets \<Rightarrow> pool \<Rightarrow> visit" where
  "admit agents model agent i x v b p0 =
     (let p1 = begin_admission model i p0 in
      case at_gate v of
        Some err \<Rightarrow> Stop (Inr err) (clear_admission model i p1)
      | None \<Rightarrow>
          let (k, g) = grant model (po_gate p1);
              p3 = end_admission model i k (session_call model i x v (p1\<lparr>po_gate := g\<rparr>))
          in case at_ensured v of
               Inr err \<Rightarrow> next_or_panic (session_refused v i x model err (b, p3))
             | Inl inst \<Rightarrow> lease_run agents model agent i x v inst b p3)"

text \<open>What a visit checks first; the token is admitted when \<open>Inr\<close> is returned.\<close>

definition visit_guard :: "pool_config \<Rightarrow> string \<Rightarrow> ptr list \<Rightarrow> nat \<Rightarrow> attempt \<Rightarrow> buckets \<Rightarrow> pool \<Rightarrow> visit + pool" where
  "visit_guard cfg model toks i v b p = (case at_ctx v of Some err \<Rightarrow> Inl (Stop (Inr err) p) | None \<Rightarrow>
     if length toks \<le> i then Inl (Next b p) else
     let t = po_tok p (toks ! i); now = at_now v; sn = snap_of t in
     if pt_locked t then Inl (Next b p)
     else if cooldown_blocks now model (pt_cool t) then Inl (Next (record_cooling i now (pt_cool t) b) p)
     else let n = length (po_toks p); cap = pc_max_messages cfg;
              (c, us) = (if 0 < cap then usage_count n (int i) now (po_usage p) else (0, po_usage p));
              p = p\<lparr>po_usage := us\<rparr> in
       if 0 < cap \<and> cap \<le> c then
         (let (e, us) = daily_limit_error n cap (int i) now (po_usage p) in
          Inl (Next (errline i (''daily message limit ('' @ int_str cap @ '') reached'') (b\<lparr>bk_daily := bk_daily b @ [e]\<rparr>))
            (p\<lparr>po_usage := us\<rparr>)))
       else if scarce_held now sn model (scarce_model_set (pc_scarce cfg)) then
         Inl (Next (errline i (''scarce session ('' @ sn_model sn @ '') in use until '' @ fmt_rfc3339 (sn_expires sn))
           (b\<lparr>bk_scarce := bk_scarce b @ [sn_expires sn]\<rparr>)) p)
       else if quota_capped now sn model then
         Inl (Next (errline i ''session quota exhausted for model''
           (b\<lparr>bk_rate := bk_rate b @ [quota_limit_error now sn model]\<rparr>)) p)
       else Inr p)"

definition visit_token :: "pool_config \<Rightarrow> (string \<Rightarrow> string + gerr) \<Rightarrow> string \<Rightarrow> string \<Rightarrow> ptr list \<Rightarrow> nat \<Rightarrow> attempt \<Rightarrow>
    buckets \<Rightarrow> pool \<Rightarrow> visit" where
  "visit_token cfg agents model agent toks i v b p = (case visit_guard cfg model toks i v b p of
     Inl r \<Rightarrow> r | Inr p \<Rightarrow> admit agents model agent i (toks ! i) v b p)"

subsection \<open>The pass\<close>

datatype outcome = Leased pool_lease | Failed gerr | FallBack string | Crashed

fun join_strings :: "string \<Rightarrow> string list \<Rightarrow> string" where
  "join_strings sep [] = []"
| "join_strings sep [s] = s"
| "join_strings sep (s # t # ss) = s @ sep @ join_strings sep (t # ss)"

definition none_left :: "string list \<Rightarrow> gerr" where
  "none_left errs = EText (''unable to acquire run from any token: '' @ join_strings ''; '' errs)"

text \<open>The first bucket that is not empty decides.\<close>

definition surface :: "pool_config \<Rightarrow> string \<Rightarrow> rate_limit list \<Rightarrow> buckets \<Rightarrow> pool \<Rightarrow> outcome \<times> pool" where
  "surface cfg model ql b p = (let rate = bk_rate b @ ql in
     case bk_ban b of e # _ \<Rightarrow> (Failed (EBan e), p) | [] \<Rightarrow>
     case bk_country b of e # _ \<Rightarrow> (Failed (ECountry e), p) | [] \<Rightarrow>
     case bk_model b of e # _ \<Rightarrow> (Failed (ELimitedIp e), p) | [] \<Rightarrow>
     case best_rate_limit rate of Some e \<Rightarrow>
       (let fb = (case map_of (pc_fallback cfg) model of None \<Rightarrow> [] | Some f \<Rightarrow> f) in
        if list_all is_quota_exhausted rate \<and> fb \<noteq> [] \<and> fb \<noteq> model then (FallBack fb, p)
        else (Failed (ERate e), if po_notify p then emit (VExhausted model) p else p)) | None \<Rightarrow>
     case bk_ip b of e # _ \<Rightarrow> (Failed (EIpCapped e), p) | [] \<Rightarrow>
     case bk_scarce b of t # ts \<Rightarrow> (Failed (EScarce model (foldl (\<lambda>m u. if u < m then u else m) t ts)), p) | [] \<Rightarrow>
     case best_waiting_room (bk_waiting b) of Some w \<Rightarrow> (Failed (ESessWaiting w), p) | None \<Rightarrow>
     case best_daily_limit (bk_daily b) of Some e \<Rightarrow> (Failed (ERate e), p) | None \<Rightarrow>
     (Failed (none_left (bk_errs b)), p))"

fun lease_loop :: "pool_config \<Rightarrow> (string \<Rightarrow> string + gerr) \<Rightarrow> string \<Rightarrow> string \<Rightarrow> ptr list \<Rightarrow> rate_limit list \<Rightarrow>
    (nat \<Rightarrow> attempt) \<Rightarrow> nat \<Rightarrow> nat list \<Rightarrow> buckets \<Rightarrow> pool \<Rightarrow> outcome \<times> pool" where
  "lease_loop cfg agents model agent toks ql env k [] b p = surface cfg model ql b p"
| "lease_loop cfg agents model agent toks ql env k (i # order) b p =
     (case visit_token cfg agents model agent toks i (env k) b p of
        Panic \<Rightarrow> (Crashed, p)
      | Stop (Inl l) p' \<Rightarrow> (Leased l, p')
      | Stop (Inr err) p' \<Rightarrow> (Failed err, p')
      | Next b' p' \<Rightarrow> lease_loop cfg agents model agent toks ql env (k + 1) order b' p')"

definition lease_from_order :: "pool_config \<Rightarrow> (string \<Rightarrow> string + gerr) \<Rightarrow> string \<Rightarrow> string \<Rightarrow> ptr list \<Rightarrow> rate_limit list \<Rightarrow>
    (nat \<Rightarrow> attempt) \<Rightarrow> nat list \<Rightarrow> pool \<Rightarrow> outcome \<times> pool" where
  "lease_from_order cfg agents model agent toks ql env order p =
     lease_loop cfg agents model agent toks ql env 0 order no_buckets p"

text \<open>Both written out.\<close>

lemma admit_unfold:
  "admit agents model agent i x v b p0 =
     (let p1 = p0\<lparr>po_admissions := AList.update model (int i) (po_admissions p0)\<rparr> in
      case at_gate v of
        Some err \<Rightarrow> Stop (Inr err) (clear_admission model i p1)
      | None \<Rightarrow>
          let (k, g) = grant model (po_gate p1);
              p2 = emit (VEnsure i model) (with_token x (\<lambda>t. t\<lparr>pt_session := at_session v\<rparr>) (p1\<lparr>po_gate := g\<rparr>));
              p3 = clear_admission model i (p2\<lparr>po_gate := gate_release k (po_gate p2)\<rparr>)
          in case at_ensured v of
               Inr err \<Rightarrow> next_or_panic (session_refused v i x model err (b, p3))
             | Inl inst \<Rightarrow> lease_run agents model agent i x v inst b p3)"
  unfolding admit_def begin_admission_def session_call_def end_admission_def Let_def by (rule refl)

lemma visit_token_unfold:
  "visit_token cfg agents model agent toks i v b p = (case at_ctx v of Some err \<Rightarrow> Stop (Inr err) p | None \<Rightarrow>
     if length toks \<le> i then Next b p else
     let x = toks ! i; t = po_tok p x; now = at_now v; sn = snap_of t in
     if pt_locked t then Next b p
     else if cooldown_blocks now model (pt_cool t) then Next (record_cooling i now (pt_cool t) b) p
     else let n = length (po_toks p); cap = pc_max_messages cfg;
              (c, us) = (if 0 < cap then usage_count n (int i) now (po_usage p) else (0, po_usage p));
              p = p\<lparr>po_usage := us\<rparr> in
       if 0 < cap \<and> cap \<le> c then
         (let (e, us) = daily_limit_error n cap (int i) now (po_usage p) in
          Next (errline i (''daily message limit ('' @ int_str cap @ '') reached'') (b\<lparr>bk_daily := bk_daily b @ [e]\<rparr>))
            (p\<lparr>po_usage := us\<rparr>))
       else if scarce_held now sn model (scarce_model_set (pc_scarce cfg)) then
         Next (errline i (''scarce session ('' @ sn_model sn @ '') in use until '' @ fmt_rfc3339 (sn_expires sn))
           (b\<lparr>bk_scarce := bk_scarce b @ [sn_expires sn]\<rparr>)) p
       else if quota_capped now sn model then
         Next (errline i ''session quota exhausted for model''
           (b\<lparr>bk_rate := bk_rate b @ [quota_limit_error now sn model]\<rparr>)) p
       else admit agents model agent i x v b p)"
  by (auto simp: visit_token_def visit_guard_def Let_def split: option.split prod.split)

subsection \<open>What a visit leaves alone\<close>

text \<open>Only the visited token's record changes; the gate and the admissions change in \<open>admit\<close> alone.\<close>

definition touches :: "ptr \<Rightarrow> pool \<Rightarrow> pool \<Rightarrow> bool" where
  "touches x p p' \<longleftrightarrow> (\<forall>y. y \<noteq> x \<longrightarrow> po_tok p' y = po_tok p y) \<and> po_gate p' = po_gate p \<and>
     po_admissions p' = po_admissions p \<and> po_toks p' = po_toks p \<and> po_usage p' = po_usage p \<and>
     filter (\<lambda>v. \<exists>i m. v = VEnsure i m) (po_events p') = filter (\<lambda>v. \<exists>i m. v = VEnsure i m) (po_events p)"

lemma touches_refl [simp]: "touches x p p"
  by (simp add: touches_def)

lemma touches_trans: "touches x p q \<Longrightarrow> touches x q r \<Longrightarrow> touches x p r"
  by (simp add: touches_def)

lemma touches_simps [simp]:
  "touches x p (cool x f q) = touches x p q" "touches x p (notify_ban n m q) = touches x p q"
  "touches x p (q\<lparr>po_ledgers := l\<rparr>) = touches x p q" "touches x p (q\<lparr>po_unfit := u\<rparr>) = touches x p q"
  "touches x p (emit (VExhausted m) q) = touches x p q"
  by (auto simp: touches_def cool_def with_token_def notify_ban_def emit_def)

lemma refused_touches: "refused v i x model err (b, p) = Some (b', p') \<Longrightarrow> touches x p p'"
proof -
  assume r: "refused v i x model err (b, p) = Some (b', p')"
  define s1 where "s1 = (if err_is err ErrAuthRejected then map_prod id (cool x (cooldown default_cooldown (at_now v))) (b, p) else (b, p))"
  define s2 where "s2 = (case as_rate_limit err of None \<Rightarrow> s1 | Some r \<Rightarrow> refused_rate v i x model r s1)"
  have t1: "touches x p (snd s1)" by (simp add: s1_def)
  have "touches x (snd s1) (snd s2)"
    by (cases s1) (auto simp: s2_def refused_rate_def Let_def split: option.split)
  with t1 have t2: "touches x p (snd s2)" by (rule touches_trans)
  obtain s3 where s3: "(case as_ip_capped err of None \<Rightarrow> Some s2 | Some e \<Rightarrow> refused_ip v x e s2) = Some s3"
    and r': "(b', p') = (let s = (case as_ban err of None \<Rightarrow> s3 | Some e \<Rightarrow> refused_ban v i x model e s3) in
       case as_country err of None \<Rightarrow> s | Some e \<Rightarrow> refused_country v x e s)"
    using r unfolding refused_def Let_def s1_def [symmetric] s2_def [symmetric] by (auto split: option.splits)
  have "touches x (snd s2) (snd s3)"
    using s3 by (cases s2) (auto simp: refused_ip_def split: option.splits)
  with t2 have t3: "touches x p (snd s3)" by (rule touches_trans)
  define s4 where "s4 = (case as_ban err of None \<Rightarrow> s3 | Some e \<Rightarrow> refused_ban v i x model e s3)"
  have "touches x (snd s3) (snd s4)"
    by (cases s3) (auto simp: s4_def refused_ban_def split: option.split)
  with t3 have t4: "touches x p (snd s4)" by (rule touches_trans)
  have "touches x (snd s4) p'"
    using r' unfolding Let_def s4_def [symmetric] by (cases s4) (auto simp: refused_country_def split: option.splits)
  with t4 show "touches x p p'" by (rule touches_trans)
qed

lemma session_refused_touches: "session_refused v i x model err (b, p) = Some (b', p') \<Longrightarrow> touches x p p'"
  by (auto simp: session_refused_def Let_def split: option.splits dest!: refused_touches)

lemma run_refused_touches: "run_refused v i x model err (b, p) = Some (b', p') \<Longrightarrow> touches x p p'"
  by (auto simp: run_refused_def dest!: refused_touches)

lemma usage_count_same: "usage_count n i now us = (c, us') \<Longrightarrow> length us' = length us"
  by (auto simp: usage_count_def Let_def split: if_splits)

text \<open>
  A visit of token \<open>x\<close> at index \<open>i\<close> leaves every other token and history alone, returns the
  slot it took at the gate, and calls the session manager at most once.
\<close>

definition session_calls :: "pool \<Rightarrow> pool_event list" where
  "session_calls p = filter (\<lambda>v. \<exists>i m. v = VEnsure i m) (po_events p)"

definition visited :: "ptr \<Rightarrow> nat \<Rightarrow> string \<Rightarrow> pool \<Rightarrow> pool \<Rightarrow> bool" where
  "visited x i model p p' \<longleftrightarrow> (\<forall>y. y \<noteq> x \<longrightarrow> po_tok p' y = po_tok p y) \<and>
     (gate_ok (po_gate p) \<longrightarrow> gate_ok (po_gate p') \<and> gate_abs (po_gate p') = gate_abs (po_gate p)) \<and>
     (\<forall>m. m \<noteq> model \<longrightarrow> map_of (po_admissions p') m = map_of (po_admissions p) m) \<and>
     session_calls p' \<in> {session_calls p, VEnsure i model # session_calls p} \<and>
     length (po_usage p') = length (po_usage p) \<and> (\<forall>j. j \<noteq> i \<longrightarrow> po_usage p' ! j = po_usage p ! j)"

definition after_visit :: "(pool \<Rightarrow> bool) \<Rightarrow> visit \<Rightarrow> bool" where
  "after_visit R r = (case r of Next b p \<Rightarrow> R p | Stop a p \<Rightarrow> R p | Panic \<Rightarrow> True)"

lemma after_visit_simps [simp]:
  "after_visit R (Next b p) = R p" "after_visit R (Stop a p) = R p" "after_visit R Panic"
  by (simp_all add: after_visit_def)

lemma after_next_or_panic:
  "(\<And>b p. r = Some (b, p) \<Longrightarrow> R p) \<Longrightarrow> after_visit R (next_or_panic r)"
  by (auto simp: next_or_panic_def split: option.split)

lemma visited_touches: "visited x i model p q \<Longrightarrow> touches x q r \<Longrightarrow> visited x i model p r"
  by (auto simp: visited_def touches_def session_calls_def)

lemma visited_refl [simp]: "visited x i model p p"
  by (simp add: visited_def)

lemma lease_run_visited:
  assumes "visited x i model p0 p"
  shows "after_visit (visited x i model p0) (lease_run agents model agent i x v inst b p)"
proof -
  define q where "q = (cool x clear_cooldowns p)\<lparr>po_toks := at_toks v\<rparr>"
  have q: "visited x i model p0 q"
    using assms by (auto simp: visited_def q_def cool_def with_token_def session_calls_def)
  then have "visited x i model p0 (q\<lparr>po_active := t, po_idle_finished := c, po_sessions_ended := d, po_last := l\<rparr>)" for t c d l
    by (auto simp: visited_def session_calls_def)
  then show ?thesis
    using q unfolding lease_run_def Let_def q_def [symmetric]
    by (auto split: sum.split intro!: after_next_or_panic dest: run_refused_touches intro: visited_touches)
qed

lemma clear_admission_visited: "visited x i model p q \<Longrightarrow> visited x i model p (clear_admission model i q)"
  by (auto simp: visited_def clear_admission_def session_calls_def map_of_delete)

lemma admit_visited: "after_visit (visited x i model p) (admit agents model agent i x v b p)"
proof -
  define p1 where "p1 = p\<lparr>po_admissions := AList.update model (int i) (po_admissions p)\<rparr>"
  obtain k g where g: "grant model (po_gate p1) = (k, g)" by (cases "grant model (po_gate p1)")
  define p2 where "p2 = emit (VEnsure i model) (with_token x (\<lambda>t. t\<lparr>pt_session := at_session v\<rparr>) (p1\<lparr>po_gate := g\<rparr>))"
  define p3 where "p3 = clear_admission model i (p2\<lparr>po_gate := gate_release k (po_gate p2)\<rparr>)"
  have p1: "visited x i model p p1" by (auto simp: p1_def visited_def session_calls_def map_of_update)
  have "po_gate p1 = po_gate p" by (simp add: p1_def)
  then have gg: "gate_ok (po_gate p) \<Longrightarrow> gate_ok (gate_release k g) \<and> gate_abs (gate_release k g) = gate_abs (po_gate p)"
    using permits.balanced [of "po_gate p" model k g] g by simp
  have sc: "session_calls p2 = VEnsure i model # session_calls p"
    by (simp add: p2_def p1_def session_calls_def emit_def with_token_def)
  have "visited x i model p (p2\<lparr>po_gate := gate_release k (po_gate p2)\<rparr>)"
    using gg p1 sc by (auto simp: visited_def session_calls_def p2_def emit_def with_token_def)
  then have p3: "visited x i model p p3" unfolding p3_def by (rule clear_admission_visited)
  show ?thesis
    using p3 clear_admission_visited [OF p1] lease_run_visited [OF p3]
    unfolding admit_unfold Let_def p1_def [symmetric] g prod.case p2_def [symmetric] p3_def [symmetric]
    by (auto split: option.split sum.split intro!: after_next_or_panic dest: session_refused_touches intro: visited_touches)
qed

lemma usage_count_other: "usage_count n (int i) now us = (c, us') \<Longrightarrow> length us' = length us \<and> (\<forall>j. j \<noteq> i \<longrightarrow> us' ! j = us ! j)"
  by (auto simp: usage_count_def Let_def split: if_splits)

lemma visit_visited:
  assumes "i < length toks"
  shows "after_visit (visited (toks ! i) i model p) (visit_token cfg agents model agent toks i v b p)"
proof -
  have u: "visited x i model p (p\<lparr>po_usage := us\<rparr>)" if "length us = length (po_usage p)" "\<forall>j. j \<noteq> i \<longrightarrow> us ! j = po_usage p ! j" for us x
    using that by (simp add: visited_def session_calls_def)
  have tr: "after_visit (visited x i model p) r" if "after_visit (visited x i model (p\<lparr>po_usage := us\<rparr>)) r"
      "length us = length (po_usage p)" "\<forall>j. j \<noteq> i \<longrightarrow> us ! j = po_usage p ! j" for us x r
    using that by (cases r) (auto simp: visited_def session_calls_def)
  show ?thesis
    using assms
    by (auto simp: visit_token_unfold daily_limit_error_def Let_def split: option.split prod.split if_split
      intro!: u tr [OF admit_visited] admit_visited dest!: usage_count_other)
qed

subsection \<open>The visit that yields the lease\<close>

definition may_serve :: "pool_config \<Rightarrow> gotime \<Rightarrow> string \<Rightarrow> ptoken \<Rightarrow> bool" where
  "may_serve cfg now model t \<longleftrightarrow> \<not> pt_locked t \<and> \<not> cooldown_blocks now model (pt_cool t) \<and>
     \<not> scarce_held now (snap_of t) model (scarce_model_set (pc_scarce cfg)) \<and> \<not> quota_capped now (snap_of t) model"

lemma next_or_panic_stop [simp]: "next_or_panic r \<noteq> Stop a p"
  by (auto simp: next_or_panic_def split: option.split)

lemma lease_run_leased:
  assumes "lease_run agents model agent i x v inst b p = Stop a p'"
  shows "i < length (at_toks v) \<and> at_toks v ! i = x \<and> po_toks p' = at_toks v \<and>
    (\<exists>r. at_run v = Inl r \<and> a = Inl (leased v i x (effective agents model agent (snap_of (po_tok p x))) r inst)) \<and>
    po_tok p' x = (po_tok p x)\<lparr>pt_cool := clear_cooldowns (pt_cool (po_tok p x))\<rparr> \<and>
    map_of (po_last p') (fst (effective agents model agent (snap_of (po_tok p x)))) = Some i"
  using assms
  by (auto simp: lease_run_def Let_def cool_def with_token_def map_of_update split: if_splits sum.splits)

lemma clear_admission_tok [simp]: "po_tok (clear_admission model i p) = po_tok p"
  by (simp add: clear_admission_def)

lemma admit_leased:
  assumes "admit agents model agent i x v b p = Stop (Inl l) p'"
  shows "at_gate v = None \<and> at_ensured v = Inl (le_instance l) \<and> at_run v = Inl (le_run l) \<and>
    i < length (at_toks v) \<and> at_toks v ! i = x \<and> po_toks p' = at_toks v \<and> le_token l = int i \<and> le_entry l = x \<and>
    (le_model l, le_agent l) = effective agents model agent (snapshot (at_session v)) \<and>
    pt_session (po_tok p' x) = at_session v \<and> co_until (pt_cool (po_tok p' x)) = zero_time \<and>
    map_of (po_last p') (le_model l) = Some i"
  using assms
  by (auto simp: admit_unfold Let_def leased_def with_token_def emit_def clear_cooldowns_def
    split: option.splits prod.splits sum.splits dest!: lease_run_leased)

lemma visit_leased:
  assumes "visit_token cfg agents model agent toks i v b p = Stop (Inl l) p'"
  shows "i < length toks \<and> may_serve cfg (at_now v) model (po_tok p (toks ! i)) \<and>
    (0 < pc_max_messages cfg \<longrightarrow>
      fst (usage_count (length (po_toks p)) (int i) (at_now v) (po_usage p)) < pc_max_messages cfg) \<and>
    (\<exists>us. admit agents model agent i (toks ! i) v b (p\<lparr>po_usage := us\<rparr>) = Stop (Inl l) p')"
  using assms
  by (auto simp: visit_token_unfold may_serve_def Let_def split: option.splits if_splits prod.splits intro: exI [of _ "po_usage p"])

text \<open>What earlier visits leave of the pool.\<close>

definition tokens_of :: "ptr list \<Rightarrow> nat set \<Rightarrow> ptr set" where
  "tokens_of toks is = {toks ! i |i. i \<in> is \<and> i < length toks}"

lemma visit_out_of_range: "length toks \<le> i \<Longrightarrow> visit_token cfg agents model agent toks i v b p = Next b' p' \<Longrightarrow> p' = p"
  by (auto simp: visit_token_unfold split: option.splits)

lemma visit_next_frame:
  assumes "visit_token cfg agents model agent toks i v b p = Next b' p'"
  shows "y \<notin> tokens_of toks {i} \<Longrightarrow> po_tok p' y = po_tok p y" "j \<noteq> i \<Longrightarrow> po_usage p' ! j = po_usage p ! j"
    "length (po_usage p') = length (po_usage p)" "po_toks p' \<in> {po_toks p, at_toks v}"
proof -
  show "y \<notin> tokens_of toks {i} \<Longrightarrow> po_tok p' y = po_tok p y" "j \<noteq> i \<Longrightarrow> po_usage p' ! j = po_usage p ! j"
    "length (po_usage p') = length (po_usage p)"
    using visit_out_of_range [OF _ assms] visit_visited [of i toks model p cfg agents agent v b] assms
    by (cases "i < length toks"; auto simp: tokens_of_def visited_def)+
  have r: "po_toks p2 = po_toks p1" if "touches x p1 p2" for x p1 p2 using that by (simp add: touches_def)
  show "po_toks p' \<in> {po_toks p, at_toks v}"
    using assms
    by (auto simp: visit_token_unfold admit_unfold lease_run_def next_or_panic_def Let_def clear_admission_def emit_def with_token_def cool_def
      split: option.splits if_splits prod.splits sum.splits dest!: r [OF session_refused_touches] r [OF run_refused_touches])
qed

lemma loop_leased:
  assumes "lease_loop cfg agents model agent toks ql env k order b p = (Leased l, p')"
  shows "\<exists>j q c. j < length order \<and> visit_token cfg agents model agent toks (order ! j) (env (k + j)) c q = Stop (Inl l) p' \<and>
    (\<forall>y. y \<notin> tokens_of toks (set (take j order)) \<longrightarrow> po_tok q y = po_tok p y) \<and>
    (\<forall>i. i \<notin> set (take j order) \<longrightarrow> po_usage q ! i = po_usage p ! i) \<and> length (po_usage q) = length (po_usage p) \<and>
    ((\<forall>k. at_toks (env k) = po_toks p) \<longrightarrow> po_toks q = po_toks p)"
  using assms
proof (induction order arbitrary: k b p)
  case Nil
  then show ?case by (auto simp: surface_def Let_def split: list.splits option.splits if_splits)
next
  case (Cons i order)
  show ?case
  proof (cases "visit_token cfg agents model agent toks i (env k) b p")
    case (Next b1 p1)
    note fr = visit_next_frame [OF Next]
    from Cons.prems Next have "lease_loop cfg agents model agent toks ql env (k + 1) order b1 p1 = (Leased l, p')" by simp
    from Cons.IH [OF this] obtain j q c where ih: "j < length order"
      "visit_token cfg agents model agent toks (order ! j) (env (k + 1 + j)) c q = Stop (Inl l) p'"
      "\<forall>y. y \<notin> tokens_of toks (set (take j order)) \<longrightarrow> po_tok q y = po_tok p1 y"
      "\<forall>i. i \<notin> set (take j order) \<longrightarrow> po_usage q ! i = po_usage p1 ! i" "length (po_usage q) = length (po_usage p1)"
      "(\<forall>k. at_toks (env k) = po_toks p1) \<longrightarrow> po_toks q = po_toks p1"
      by blast
    have "y \<notin> tokens_of toks {i} \<and> y \<notin> tokens_of toks (set (take j order))"
      if "y \<notin> tokens_of toks (set (take (Suc j) (i # order)))" for y
      using that by (auto simp: tokens_of_def)
    then have "\<forall>y. y \<notin> tokens_of toks (set (take (Suc j) (i # order))) \<longrightarrow> po_tok q y = po_tok p y"
      using ih(3) fr(1) by metis
    moreover have "\<forall>n. n \<notin> set (take (Suc j) (i # order)) \<longrightarrow> po_usage q ! n = po_usage p ! n"
      using ih(4) fr(2) by simp
    moreover have "(\<forall>k. at_toks (env k) = po_toks p) \<longrightarrow> po_toks q = po_toks p"
      using ih(6) fr(4) by force
    ultimately show ?thesis using ih(1,2,5) fr(3) by (intro exI [of _ "Suc j"] exI [of _ q] exI [of _ c]) simp
  next
    case (Stop a q)
    then show ?thesis using Cons.prems by (intro exI [of _ 0] exI [of _ p] exI [of _ b]) (auto split: sum.splits)
  next
    case Panic
    then show ?thesis using Cons.prems by simp
  qed
qed

subsection \<open>What a pass leaves behind\<close>

lemma clear_admission_own:
  "map_of (po_admissions p) model = Some (int i) \<Longrightarrow> map_of (po_admissions (clear_admission model i p)) model = None"
  by (simp add: clear_admission_def zget_def map_of_delete)

text \<open>The admission of the model is cleared by every visit that made one.\<close>

lemma admit_admission: "after_visit (\<lambda>q. map_of (po_admissions q) model = None) (admit agents model agent i x v b p)"
proof -
  have t: "map_of (po_admissions r) model = None" if "touches y q r" "map_of (po_admissions q) model = None" for y q r
    using that by (simp add: touches_def)
  have c: "map_of (po_admissions (clear_admission model i (p1\<lparr>po_gate := g\<rparr>))) model = None"
    if "po_admissions p1 = AList.update model (int i) (po_admissions p)" for p1 g
    using that by (intro clear_admission_own) (simp add: map_of_update)
  have c': "map_of (po_admissions (clear_admission model i p1)) model = None"
    if "po_admissions p1 = AList.update model (int i) (po_admissions p)" for p1
    using that by (intro clear_admission_own) (simp add: map_of_update)
  have l: "after_visit (\<lambda>q. map_of (po_admissions q) model = None) (lease_run agents model agent i x v inst b q)"
    if "map_of (po_admissions q) model = None" for inst q
    using that
    by (auto simp: lease_run_def Let_def cool_def with_token_def split: sum.split
      intro!: after_next_or_panic dest!: run_refused_touches intro: t)
  show ?thesis
    by (auto simp: admit_unfold Let_def emit_def with_token_def split: option.split prod.split sum.split
      intro!: after_next_or_panic l c c' dest!: session_refused_touches intro: t)
qed

lemma visit_admission:
  "after_visit (\<lambda>q. map_of (po_admissions q) model \<in> {None, map_of (po_admissions p) model})
     (visit_token cfg agents model agent toks i v b p)"
proof -
  have a: "after_visit (\<lambda>q. map_of (po_admissions q) model \<in> {None, map_of (po_admissions p) model})
      (admit agents model agent i x v b q)" for x q
    using admit_admission [of model agents agent i x v b q] by (auto simp: after_visit_def split: visit.splits)
  show ?thesis
    by (auto simp: visit_token_unfold Let_def split: option.split prod.split intro!: a [simplified])
qed

definition neutral :: "string \<Rightarrow> pool \<Rightarrow> nat list \<Rightarrow> pool \<Rightarrow> bool" where
  "neutral model p is p' \<longleftrightarrow>
     (gate_ok (po_gate p) \<longrightarrow> gate_ok (po_gate p') \<and> gate_abs (po_gate p') = gate_abs (po_gate p)) \<and>
     (\<forall>m. m \<noteq> model \<longrightarrow> map_of (po_admissions p') m = map_of (po_admissions p) m) \<and>
     map_of (po_admissions p') model \<in> {None, map_of (po_admissions p) model} \<and>
     session_calls p' = rev (map (\<lambda>i. VEnsure i model) is) @ session_calls p"

lemma neutral_trans: "neutral model p is q \<Longrightarrow> neutral model q js r \<Longrightarrow> neutral model p (is @ js) r"
  by (auto simp: neutral_def)

lemma neutral_refl: "neutral model p [] p"
  by (simp add: neutral_def)

lemma visit_neutral:
  "after_visit (\<lambda>q. neutral model p [] q \<or> neutral model p [i] q) (visit_token cfg agents model agent toks i v b p)"
proof (cases "i < length toks")
  case True
  show ?thesis
    using visit_visited [OF True, of model p cfg agents agent v b] visit_admission [of model p cfg agents agent toks i v b]
    by (auto simp: after_visit_def visited_def neutral_def split: visit.splits)
next
  case False
  then show ?thesis by (auto simp: visit_token_unfold neutral_refl split: option.split)
qed

lemma surface_neutral: "surface cfg model ql b p = (oc, p') \<Longrightarrow> neutral model p [] p'"
  by (auto simp: surface_def neutral_def session_calls_def emit_def Let_def split: list.splits option.splits if_splits)

lemma loop_neutral:
  "lease_loop cfg agents model agent toks ql env k order b p = (oc, p') \<Longrightarrow> oc \<noteq> Crashed \<Longrightarrow>
     \<exists>is. subseq is order \<and> neutral model p is p'"
proof (induction order arbitrary: k b p)
  case Nil
  then show ?case by (auto intro!: exI [of _ "[]"] dest: surface_neutral)
next
  case (Cons i order)
  note vn = visit_neutral [of model p i cfg agents agent toks "env k" b]
  show ?case
  proof (cases "visit_token cfg agents model agent toks i (env k) b p")
    case (Next b1 p1)
    with Cons obtain js where js: "subseq js order" "neutral model p1 js p'" by fastforce
    from vn Next consider "neutral model p [] p1" | "neutral model p [i] p1" by auto
    then show ?thesis
    proof cases
      case 1
      from neutral_trans [OF this js(2)] js(1) show ?thesis by (intro exI [of _ js]) auto
    next
      case 2
      from neutral_trans [OF this js(2)] js(1) show ?thesis by (intro exI [of _ "i # js"]) auto
    qed
  next
    case (Stop a q)
    then have "q = p'" using Cons.prems by (auto split: sum.splits)
    with vn Stop have "neutral model p [] p' \<or> neutral model p [i] p'" by simp
    then show ?thesis
    proof
      assume "neutral model p [] p'"
      then show ?thesis by (intro exI [of _ "[]"]) simp
    next
      assume "neutral model p [i] p'"
      then show ?thesis by (intro exI [of _ "[i]"]) simp
    qed
  qed (use Cons.prems in simp)
qed

text \<open>
  C20: a pass leaves nothing behind.  Whatever happens in it, short of a panic, a pass gives back
  every slot it took at the creation gate, leaves the admissions of other models alone and
  none of its own for the model, and calls the session manager of each token of the order
  at most once, in that order.
\<close>

theorem pass_is_neutral:
  assumes "lease_from_order cfg agents model agent toks ql env order p = (oc, p')" "oc \<noteq> Crashed" "gate_ok (po_gate p)"
  shows "\<exists>is. subseq is order \<and> session_calls p' = rev (map (\<lambda>i. VEnsure i model) is) @ session_calls p \<and>
    gate_ok (po_gate p') \<and> gate_abs (po_gate p') = gate_abs (po_gate p) \<and>
    (\<forall>m. m \<noteq> model \<longrightarrow> map_of (po_admissions p') m = map_of (po_admissions p) m) \<and>
    map_of (po_admissions p') model \<in> {None, map_of (po_admissions p) model}"
  using loop_neutral [OF assms(1) [unfolded lease_from_order_def] assms(2)] assms(3) unfolding neutral_def by blast

text \<open>
  C23: a lease is sound.  When a pass over distinct tokens returns a lease, its token was not
  locked, had no cooldown that blocks this model (one for the quota of another model does not),
  held no scarce session of another model and had session quota left; it was below the daily
  message cap, when there is one and the pool's token list did not change during the pass; the
  session manager returned the instance and the run manager the run of the lease; the token
  was still in the pool's list at its index; and the lease is for the model of the session.
  The token's cooldowns are then cleared and it is the one remembered for that model.
\<close>

theorem lease_is_sound:
  assumes "lease_from_order cfg agents model agent toks ql env order p = (Leased l, p')" "distinct order" "distinct toks"
  shows "\<exists>j < length order. let i = order ! j; v = env j; x = toks ! i in
    i < length toks \<and> le_token l = int i \<and> le_entry l = x \<and> may_serve cfg (at_now v) model (po_tok p x) \<and>
    ((\<forall>k. at_toks (env k) = po_toks p) \<and> 0 < pc_max_messages cfg \<longrightarrow>
      fst (usage_count (length (po_toks p)) (int i) (at_now v) (po_usage p)) < pc_max_messages cfg) \<and>
    at_ensured v = Inl (le_instance l) \<and> at_run v = Inl (le_run l) \<and>
    i < length (po_toks p') \<and> po_toks p' ! i = x \<and>
    (le_model l, le_agent l) = effective agents model agent (snap_of (po_tok p' x)) \<and>
    co_until (pt_cool (po_tok p' x)) = zero_time \<and> map_of (po_last p') (le_model l) = Some i"
proof -
  from loop_leased [OF assms(1) [unfolded lease_from_order_def]] obtain j q c where j: "j < length order"
    and v: "visit_token cfg agents model agent toks (order ! j) (env j) c q = Stop (Inl l) p'"
    and fr: "\<And>y. y \<notin> tokens_of toks (set (take j order)) \<Longrightarrow> po_tok q y = po_tok p y"
      "\<And>i. i \<notin> set (take j order) \<Longrightarrow> po_usage q ! i = po_usage p ! i" "length (po_usage q) = length (po_usage p)"
      "(\<forall>k. at_toks (env k) = po_toks p) \<longrightarrow> po_toks q = po_toks p"
    by auto
  define i where "i = order ! j"
  note vl = visit_leased [OF v, folded i_def]
  have ni: "i \<notin> set (take j order)"
  proof
    assume "i \<in> set (take j order)"
    then obtain n where "n < j" "order ! n = i" by (auto simp: in_set_conv_nth)
    then show False using nth_eq_iff_index_eq [OF assms(2), of n j] j by (simp add: i_def)
  qed
  have "toks ! i \<notin> tokens_of toks (set (take j order))"
    using ni nth_eq_iff_index_eq [OF assms(3), of i] vl by (auto simp: tokens_of_def)
  then have t: "po_tok q (toks ! i) = po_tok p (toks ! i)" by (rule fr(1))
  have u: "fst (usage_count n (int i) (at_now (env j)) (po_usage q)) = fst (usage_count n (int i) (at_now (env j)) (po_usage p))" for n
    using fr(2) [OF ni] fr(3) by (auto simp: usage_count_def out_of_def Let_def)
  obtain us where a: "admit agents model agent i (toks ! i) (env j) c (q\<lparr>po_usage := us\<rparr>) = Stop (Inl l) p'"
    using vl by auto
  show ?thesis
    using j vl t u fr(4) admit_leased [OF a] by (intro exI [of _ j]) (auto simp: Let_def i_def [symmetric])
qed

text \<open>A pool of the three tokens; the hot one serves.\<close>

definition three_pool :: pool where
  "three_pool = \<lparr>po_tok = (\<lambda>x. three_tokens ! x), po_toks = [0, 1, 2], po_usage = [[], [], []],
     po_ledgers = [new_ledger, new_ledger, new_ledger], po_gate = new_gate 0 0, po_admissions = [], po_last = [],
     po_unfit = [], po_active = zero_time, po_idle_finished = True, po_sessions_ended = False, po_notify = True,
     po_events = []\<rparr>"

definition one_config :: pool_config where
  "one_config = \<lparr>pc_max_messages = 3, pc_scarce = [], pc_fallback = [(''m'', ''f'')]\<rparr>"

definition ready_attempt :: "nat \<Rightarrow> attempt" where
  "ready_attempt k = \<lparr>at_now = 0, at_zone = None, at_ctx = None, at_gate = None, at_session = pt_session (three_tokens ! 2),
     at_ensured = Inl ''i2'', at_rand = 0, at_toks = [0, 1, 2], at_run = Inl 7\<rparr>"

definition one_agent :: "string \<Rightarrow> string + gerr" where
  "one_agent m = Inl ''agent''"

theorem lease_is_sound_witness:
  "case lease_from_order one_config one_agent ''m'' ''agent'' [0, 1, 2] [] ready_attempt [2, 1, 0] three_pool of
     (Leased l, p') \<Rightarrow> le_token l = 2 \<and> le_run l = 7 \<and> (\<exists>j < 3. le_entry l = [0, 1, 2] ! ([2, 1, 0] ! j)) | _ \<Rightarrow> False"
proof -
  obtain oc p' where r: "lease_from_order one_config one_agent ''m'' ''agent'' [0, 1, 2] [] ready_attempt [2, 1, 0] three_pool = (oc, p')"
    by fastforce
  have "case lease_from_order one_config one_agent ''m'' ''agent'' [0, 1, 2] [] ready_attempt [2, 1, 0] three_pool of
     (Leased l, p') \<Rightarrow> le_token l = 2 \<and> le_run l = 7 | _ \<Rightarrow> False"
    by code_simp
  then obtain l where l: "oc = Leased l" "le_token l = 2" "le_run l = 7" unfolding r prod.case by (cases oc) simp_all
  have "lease_from_order one_config one_agent ''m'' ''agent'' [0, 1, 2] [] ready_attempt [2, 1, 0] three_pool = (Leased l, p')"
    using r l(1) by simp
  from lease_is_sound [OF this] have "\<exists>j < length [2, 1, 0 :: nat]. le_entry l = [0, 1, 2] ! ([2, 1, 0] ! j)"
    unfolding Let_def by (fastforce simp del: One_nat_def)
  then have "\<exists>j < 3. le_entry l = [0, 1, 2] ! ([2, 1, 0] ! j)" by (simp add: numeral_3_eq_3)
  then show ?thesis using r l by simp
qed

theorem pass_is_neutral_witness:
  "case lease_from_order one_config one_agent ''m'' ''agent'' [0, 1, 2] [] ready_attempt [2, 1, 0] three_pool of
     (oc, p') \<Rightarrow> gate_abs (po_gate p') = {#} \<and> map_of (po_admissions p') ''m'' = None"
proof -
  obtain oc p' where r: "lease_from_order one_config one_agent ''m'' ''agent'' [0, 1, 2] [] ready_attempt [2, 1, 0] three_pool = (oc, p')"
    by fastforce
  have "case lease_from_order one_config one_agent ''m'' ''agent'' [0, 1, 2] [] ready_attempt [2, 1, 0] three_pool of
     (Leased l, p') \<Rightarrow> True | _ \<Rightarrow> False"
    by code_simp
  then have "oc \<noteq> Crashed" unfolding r prod.case by (cases oc) simp_all
  moreover have "gate_ok (po_gate three_pool)" by (simp add: three_pool_def new_gate_ok)
  ultimately have "gate_abs (po_gate p') = gate_abs (po_gate three_pool) \<and>
      map_of (po_admissions p') ''m'' \<in> {None, map_of (po_admissions three_pool) ''m''}"
    using pass_is_neutral [OF r] by blast
  moreover have "gate_abs (po_gate three_pool) = {#}" "map_of (po_admissions three_pool) ''m'' = None"
    by (simp_all add: three_pool_def gate_abs_def)
  ultimately show ?thesis unfolding r prod.case by simp
qed

end
