(* ===== verification/PoolAdmission.thy ===== *)
theory PoolAdmission
  imports PoolAcquire GoText
begin

text \<open>
  \<open>Acquire\<close> of \<open>internal/pool/acquire.go\<close> under concurrency: the leader and the followers of a
  model.  The first caller for a model registers a channel and leads; later callers wait for
  the channel to be closed and then read which token the leader took.

  A caller is a goroutine whose tasks are the sections of its pass: a section ends where the
  code releases a mutex others wait for or makes a call that takes time.  The deferred close of
  the leader's channel is the task \<open>QClose\<close> behind the pass, so it runs after errors and panics
  too, and after the whole inner call when the pass falls back to another model.
\<close>

text \<open>\<open>ad_out\<close> is a ghost: the calls that ended, with what they returned, newest first.\<close>

record admission =
  ad_pool :: pool
  ad_gate :: "(string \<times> ptr) list"
  ad_closed :: "ptr list"
  ad_next :: ptr
  ad_rr :: nat
  ad_out :: "(string \<times> outcome) list"
  ad_crash :: bool

text \<open>The variables of one call.\<close>

record acall =
  ca_model :: string
  ca_agent :: string
  ca_cfg :: pool_config
  ca_toks :: "ptr list"
  ca_start :: nat
  ca_reason :: string
  ca_quota :: "rate_limit list"

datatype qtask =
    QAcquire string string
  | QMark acall
  | QFollow acall ptr
  | QRead acall
  | QOrder acall "nat option"
  | QVisit acall buckets "nat list"
  | QAdmit acall buckets nat "nat list"
  | QGate acall buckets nat "nat list"
  | QEnsure acall buckets nat nat "nat list"
  | QEnsured acall buckets nat nat "nat list" "string + gerr"
  | QRun acall buckets nat string "nat list"
  | QClose string ptr

record aenv =
  ae_at :: attempt
  ae_cfg :: pool_config
  ae_agents :: "string \<Rightarrow> string + gerr"

type_synonym astep = "qtask list \<times> qtask list \<times> admission"

definition new_admission :: "pool \<Rightarrow> admission" where
  "new_admission p = \<lparr>ad_pool = p, ad_gate = [], ad_closed = [], ad_next = 0, ad_rr = 0, ad_out = [], ad_crash = False\<rparr>"

subsection \<open>Leader or follower\<close>

definition returns :: "string \<Rightarrow> outcome \<Rightarrow> pool \<Rightarrow> admission \<Rightarrow> astep" where
  "returns model oc p a = ([], [], a\<lparr>ad_pool := p, ad_out := (model, oc) # ad_out a\<rparr>)"

definition lead :: "string \<Rightarrow> admission \<Rightarrow> ptr \<times> admission" where
  "lead model a = (ad_next a, a\<lparr>ad_gate := AList.update model (ad_next a) (ad_gate a), ad_next := ad_next a + 1\<rparr>)"

definition acquire_enter :: "aenv \<Rightarrow> string \<Rightarrow> string \<Rightarrow> admission \<Rightarrow> astep" where
  "acquire_enter e model reason a0 = (let p = ad_pool a0; toks = po_toks p in
     if toks = [] then returns model (Failed (EText ''pool: no auth tokens configured'')) p a0
     else case ae_agents e model of
       Inr err \<Rightarrow> returns model (Failed err) p a0
     | Inl agent \<Rightarrow>
         let a = a0\<lparr>ad_rr := ad_rr a0 + 1\<rparr>;
             c = \<lparr>ca_model = model, ca_agent = agent, ca_cfg = ae_cfg e, ca_toks = toks,
                  ca_start = ad_rr a0 mod length toks, ca_reason = reason, ca_quota = []\<rparr>
         in case map_of (ad_gate a) model of
              None \<Rightarrow> (let (ch, a) = lead model a in ([QMark c, QClose model ch], [], a))
            | Some ch \<Rightarrow> ([QFollow c ch], [], a))"

definition mark_leader :: "string \<Rightarrow> pool \<Rightarrow> pool" where
  "mark_leader model p = p\<lparr>po_admissions := AList.update model (- 1) (po_admissions p)\<rparr>"

text \<open>The follower waits for the channel alone, whatever becomes of its context.\<close>

definition follow :: "acall \<Rightarrow> ptr \<Rightarrow> admission \<Rightarrow> astep option" where
  "follow c ch a = (if ch \<in> set (ad_closed a) then Some ([QRead c], [], a) else None)"

definition leader_token :: "string \<Rightarrow> pool \<Rightarrow> nat option" where
  "leader_token model p = (let t = zget (po_admissions p) model in if 0 \<le> t then Some (nat t) else None)"

definition follow_order :: "nat option \<Rightarrow> nat list \<Rightarrow> nat list" where
  "follow_order lt order = (case lt of None \<Rightarrow> order | Some t \<Rightarrow> t # filter (\<lambda>i. i \<noteq> t) order)"

definition close_gate :: "string \<Rightarrow> ptr \<Rightarrow> admission \<Rightarrow> admission" where
  "close_gate model ch a = (if ch \<in> set (ad_closed a) then a\<lparr>ad_crash := True\<rparr>
     else a\<lparr>ad_closed := ch # ad_closed a, ad_gate := AList.delete model (ad_gate a)\<rparr>)"

definition pool_order :: "gotime \<Rightarrow> acall \<Rightarrow> pool \<Rightarrow> nat list \<times> rate_limit list" where
  "pool_order now c p = acquire_order now (map (po_tok p) (ca_toks c)) (ca_start c) (ca_model c)
     (map_of (po_last p) (ca_model c)) (map_of (po_admissions p) (ca_model c))"

definition order_pass :: "aenv \<Rightarrow> acall \<Rightarrow> nat option \<Rightarrow> admission \<Rightarrow> astep" where
  "order_pass e c lt a = (let (order, ql) = pool_order (at_now (ae_at e)) c (ad_pool a)
     in ([QVisit (c\<lparr>ca_quota := ql\<rparr>) no_buckets (follow_order lt order)], [], a))"

subsection \<open>The sections of a pass\<close>

text \<open>After a visit: the next token, or the result of the call.\<close>

definition continue :: "acall \<Rightarrow> nat list \<Rightarrow> visit \<Rightarrow> pool \<Rightarrow> admission \<Rightarrow> astep" where
  "continue c order r p a = (case r of
     Next b q \<Rightarrow> ([QVisit c b order], [], a\<lparr>ad_pool := q\<rparr>)
   | Stop (Inl l) q \<Rightarrow> returns (ca_model c) (Leased (if ca_reason c = [] then l else l\<lparr>le_fallback := ca_reason c\<rparr>)) q a
   | Stop (Inr err) q \<Rightarrow> returns (ca_model c) (Failed err) q a
   | Panic \<Rightarrow> returns (ca_model c) Crashed p a)"

definition end_pass :: "acall \<Rightarrow> buckets \<Rightarrow> admission \<Rightarrow> astep" where
  "end_pass c b a = (case surface (ca_cfg c) (ca_model c) (ca_quota c) b (ad_pool a) of
     (FallBack fb, p) \<Rightarrow> ([QAcquire fb ''quota_exhausted''], [], a\<lparr>ad_pool := p\<rparr>)
   | (oc, p) \<Rightarrow> returns (ca_model c) oc p a)"

definition next_visit :: "aenv \<Rightarrow> acall \<Rightarrow> buckets \<Rightarrow> nat \<Rightarrow> nat list \<Rightarrow> admission \<Rightarrow> astep" where
  "next_visit e c b i order a = (case visit_guard (ca_cfg c) (ca_model c) (ca_toks c) i (ae_at e) b (ad_pool a) of
     Inl r \<Rightarrow> continue c order r (ad_pool a) a
   | Inr p \<Rightarrow> ([QAdmit c b i order], [], a\<lparr>ad_pool := p\<rparr>))"

definition pass_gate :: "aenv \<Rightarrow> acall \<Rightarrow> buckets \<Rightarrow> nat \<Rightarrow> nat list \<Rightarrow> admission \<Rightarrow> astep option" where
  "pass_gate e c b i order a = (let p = ad_pool a; model = ca_model c in
     case at_gate (ae_at e) of
       Some err \<Rightarrow> Some (continue c order (Stop (Inr err) (clear_admission model i p)) p a)
     | None \<Rightarrow> if can_acquire model (po_gate p)
         then (let (k, g) = grant model (po_gate p) in Some ([QEnsure c b i k order], [], a\<lparr>ad_pool := p\<lparr>po_gate := g\<rparr>\<rparr>))
         else None)"

definition ensure_session :: "aenv \<Rightarrow> acall \<Rightarrow> buckets \<Rightarrow> nat \<Rightarrow> nat \<Rightarrow> nat list \<Rightarrow> admission \<Rightarrow> astep" where
  "ensure_session e c b i k order a = ([QEnsured c b i k order (at_ensured (ae_at e))], [],
     a\<lparr>ad_pool := session_call (ca_model c) i (ca_toks c ! i) (ae_at e) (ad_pool a)\<rparr>)"

definition session_ready :: "aenv \<Rightarrow> acall \<Rightarrow> buckets \<Rightarrow> nat \<Rightarrow> nat \<Rightarrow> nat list \<Rightarrow> string + gerr \<Rightarrow> admission \<Rightarrow> astep" where
  "session_ready e c b i k order r a = (let p = end_admission (ca_model c) i k (ad_pool a) in
     case r of
       Inl inst \<Rightarrow> ([QRun c b i inst order], [], a\<lparr>ad_pool := p\<rparr>)
     | Inr err \<Rightarrow> continue c order
         (next_or_panic (session_refused (ae_at e) i (ca_toks c ! i) (ca_model c) err (b, p))) p a)"

definition start_run :: "aenv \<Rightarrow> acall \<Rightarrow> buckets \<Rightarrow> nat \<Rightarrow> string \<Rightarrow> nat list \<Rightarrow> admission \<Rightarrow> astep" where
  "start_run e c b i inst order a = continue c order
     (lease_run (ae_agents e) (ca_model c) (ca_agent c) i (ca_toks c ! i) (ae_at e) inst b (ad_pool a)) (ad_pool a) a"

fun aexec :: "aenv \<Rightarrow> qtask \<Rightarrow> admission \<Rightarrow> astep option" where
  "aexec e (QAcquire model reason) a = Some (acquire_enter e model reason a)"
| "aexec e (QMark c) a = Some ([QOrder c None], [], a\<lparr>ad_pool := mark_leader (ca_model c) (ad_pool a)\<rparr>)"
| "aexec e (QFollow c ch) a = follow c ch a"
| "aexec e (QRead c) a = Some ([QOrder c (leader_token (ca_model c) (ad_pool a))], [], a)"
| "aexec e (QOrder c lt) a = Some (order_pass e c lt a)"
| "aexec e (QVisit c b []) a = Some (end_pass c b a)"
| "aexec e (QVisit c b (i # order)) a = Some (next_visit e c b i order a)"
| "aexec e (QAdmit c b i order) a =
     Some ([QGate c b i order], [], a\<lparr>ad_pool := begin_admission (ca_model c) i (ad_pool a)\<rparr>)"
| "aexec e (QGate c b i order) a = pass_gate e c b i order a"
| "aexec e (QEnsure c b i k order) a = Some (ensure_session e c b i k order a)"
| "aexec e (QEnsured c b i k order r) a = Some (session_ready e c b i k order r a)"
| "aexec e (QRun c b i inst order) a = Some (start_run e c b i inst order a)"
| "aexec e (QClose model ch) a = Some ([], [], close_gate model ch a)"

fun acquire_entry :: "qtask \<Rightarrow> bool" where
  "acquire_entry (QAcquire model reason) \<longleftrightarrow> reason = []" | "acquire_entry t = False"

text \<open>The rest of the program changes the pool, not its admissions.\<close>

inductive admission_step :: "admission \<times> qtask list list \<Rightarrow> admission \<times> qtask list list \<Rightarrow> bool" where
  athread: "i < length ts \<Longrightarrow> ts ! i = t # rest \<Longrightarrow> aexec e t a = Some (new, sp, a') \<Longrightarrow>
    admission_step (a, ts) (a', ts[i := new @ rest] @ map (\<lambda>t. [t]) sp)"
| aspawn: "acquire_entry t \<Longrightarrow> admission_step (a, ts) (a, ts @ [[t]])"
| apool: "po_admissions q = po_admissions (ad_pool a) \<Longrightarrow> admission_step (a, ts) (a\<lparr>ad_pool := q\<rparr>, ts)"

inductive admission_reach :: "admission \<times> qtask list list \<Rightarrow> bool" where
  ainit: "po_admissions p = [] \<Longrightarrow> admission_reach (new_admission p, [])"
| astep: "admission_reach s \<Longrightarrow> admission_step s s' \<Longrightarrow> admission_reach s'"

interpretation adm: goroutines aexec acquire_entry
    "\<lambda>a a'. \<exists>q. po_admissions q = po_admissions (ad_pool a) \<and> a' = a\<lparr>ad_pool := q\<rparr>"
    "\<lambda>a. \<exists>p. po_admissions p = [] \<and> a = new_admission p" admission_reach
proof unfold_locales
  fix a ts and Q :: "admission \<Rightarrow> qtask list list \<Rightarrow> bool"
  assume r: "admission_reach (a, ts)"
    and Q: "\<And>a. \<exists>p. po_admissions p = [] \<and> a = new_admission p \<Longrightarrow> Q a []"
    "\<And>a ts i t rest e new sp a'. admission_reach (a, ts) \<Longrightarrow> Q a ts \<Longrightarrow> i < length ts \<Longrightarrow> ts ! i = t # rest \<Longrightarrow>
       aexec e t a = Some (new, sp, a') \<Longrightarrow> Q a' (ts[i := new @ rest] @ map (\<lambda>t. [t]) sp)"
    "\<And>a ts t. admission_reach (a, ts) \<Longrightarrow> Q a ts \<Longrightarrow> acquire_entry t \<Longrightarrow> Q a (ts @ [[t]])"
    "\<And>a ts a'. admission_reach (a, ts) \<Longrightarrow> Q a ts \<Longrightarrow>
       \<exists>q. po_admissions q = po_admissions (ad_pool a) \<and> a' = a\<lparr>ad_pool := q\<rparr> \<Longrightarrow> Q a' ts"
  have "admission_reach s \<Longrightarrow> Q (fst s) (snd s)" for s
  proof (induction rule: admission_reach.induct)
    case (ainit p)
    then show ?case using Q(1) by auto
  next
    case (astep s s')
    from astep(2) show ?case
    proof (cases rule: admission_step.cases)
      case (athread i ts t rest e a new sp a')
      then show ?thesis using Q(2) [OF _ _ athread(3-5)] astep(1,3) by simp
    next
      case (aspawn t a ts)
      then show ?thesis using Q(3) [OF _ _ aspawn(3)] astep(1,3) by simp
    next
      case (apool q a ts)
      then show ?thesis using Q(4) [of a ts "a\<lparr>ad_pool := q\<rparr>"] astep(1,3) by auto
    qed
  qed
  from this [OF r] show "Q a ts" by simp
qed (rule admission_reach.astep [OF _ admission_step.athread])

subsection \<open>One leader per model\<close>

text \<open>What a section other than the first and the last does to the gate: nothing.\<close>

lemma continue_frame:
  assumes "continue c order r p a = (new, sp, a')"
  shows "ad_gate a' = ad_gate a \<and> ad_closed a' = ad_closed a \<and> ad_next a' = ad_next a \<and> ad_crash a' = ad_crash a \<and>
    sp = [] \<and> (new = [] \<or> (\<exists>b. new = [QVisit c b order]))"
  using assms by (auto simp: continue_def returns_def split: visit.splits sum.splits)

fun guards :: "string \<Rightarrow> ptr \<Rightarrow> qtask \<Rightarrow> bool" where
  "guards model ch (QClose m c) \<longleftrightarrow> m = model \<and> c = ch" | "guards model ch t = False"

fun plain :: "qtask \<Rightarrow> bool" where
  "plain (QAcquire model reason) = False" | "plain (QFollow c ch) = False" | "plain (QClose m c) = False" | "plain t = True"

fun mild :: "qtask \<Rightarrow> bool" where
  "mild (QFollow c ch) = False" | "mild (QClose m c) = False" | "mild t = True"

lemma plain_step:
  assumes "plain t" "aexec e t a = Some (new, sp, a')"
  shows "ad_gate a' = ad_gate a \<and> ad_closed a' = ad_closed a \<and> ad_next a' = ad_next a \<and> ad_crash a' = ad_crash a \<and>
    sp = [] \<and> list_all mild new"
  using assms
  by (cases "(e, t, a)" rule: aexec.cases)
    (auto simp: order_pass_def end_pass_def next_visit_def pass_gate_def ensure_session_def session_ready_def start_run_def returns_def Let_def
      dest!: continue_frame split: prod.splits outcome.splits sum.splits option.splits if_splits)

lemma plain_or: "plain t \<or> (\<exists>m r. t = QAcquire m r) \<or> (\<exists>c ch. t = QFollow c ch) \<or> (\<exists>m ch. t = QClose m ch)"
  by (cases t) auto

lemma acquire_enter_cases:
  assumes "acquire_enter e model reason a = (new, sp, a')"
  obtains (leads) c where "map_of (ad_gate a) model = None" "new = [QMark c, QClose model (ad_next a)]" "sp = []"
      "ad_gate a' = AList.update model (ad_next a) (ad_gate a)" "ad_next a' = ad_next a + 1" "ad_closed a' = ad_closed a"
      "ad_crash a' = ad_crash a"
    | (follows) c ch where "map_of (ad_gate a) model = Some ch" "ca_model c = model" "new = [QFollow c ch]" "sp = []"
      "ad_gate a' = ad_gate a" "ad_next a' = ad_next a" "ad_closed a' = ad_closed a" "ad_crash a' = ad_crash a"
    | (refused) "new = []" "sp = []"
      "ad_gate a' = ad_gate a" "ad_next a' = ad_next a" "ad_closed a' = ad_closed a" "ad_crash a' = ad_crash a"
proof (cases "po_toks (ad_pool a) = [] \<or> (\<exists>err. ae_agents e model = Inr err)")
  case True
  then show ?thesis using assms refused by (auto simp: acquire_enter_def returns_def Let_def split: if_splits)
next
  case False
  then obtain agent where g: "po_toks (ad_pool a) \<noteq> []" "ae_agents e model = Inl agent"
    by (cases "ae_agents e model") auto
  show ?thesis
  proof (cases "map_of (ad_gate a) model")
    case None
    then show ?thesis using assms g leads by (auto simp: acquire_enter_def lead_def Let_def)
  next
    case (Some ch)
    define c where "c = \<lparr>ca_model = model, ca_agent = agent, ca_cfg = ae_cfg e, ca_toks = po_toks (ad_pool a),
      ca_start = ad_rr a mod length (po_toks (ad_pool a)), ca_reason = reason, ca_quota = []\<rparr>"
    have "new = [QFollow c ch]" "sp = []" "a' = a\<lparr>ad_rr := Suc (ad_rr a)\<rparr>"
      using assms g Some by (auto simp: acquire_enter_def Let_def c_def)
    then show ?thesis using follows [of ch c] Some by (simp add: c_def)
  qed
qed

definition gate_sound :: "admission \<Rightarrow> bool" where
  "gate_sound a \<longleftrightarrow> \<not> ad_crash a \<and> (\<forall>ch \<in> set (ad_closed a). ch < ad_next a) \<and>
     (\<forall>m ch. map_of (ad_gate a) m = Some ch \<longrightarrow> ch < ad_next a \<and> ch \<notin> set (ad_closed a)) \<and>
     (\<forall>m n ch. map_of (ad_gate a) m = Some ch \<and> map_of (ad_gate a) n = Some ch \<longrightarrow> m = n)"

definition led :: "string \<Rightarrow> ptr \<Rightarrow> admission \<Rightarrow> int" where
  "led model ch a = (if map_of (ad_gate a) model = Some ch then 1 else 0)"

fun waits :: "admission \<Rightarrow> qtask \<Rightarrow> bool" where
  "waits a (QFollow c ch) \<longleftrightarrow> ch \<in> set (ad_closed a) \<or> map_of (ad_gate a) (ca_model c) = Some ch"
| "waits a t \<longleftrightarrow> True"

lemma waits_same: "ad_gate a' = ad_gate a \<Longrightarrow> ad_closed a' = ad_closed a \<Longrightarrow> waits a' t = waits a t"
  by (cases t) auto

lemma mild_many: "list_all mild new \<Longrightarrow> many (guards m ch) new = 0"
proof -
  assume "list_all mild new"
  moreover have "\<not> guards m ch t" if "mild t" for t using that by (cases t) auto
  ultimately show ?thesis by (auto simp: many_def list_all_iff filter_empty_conv)
qed

lemma mild_waits: "mild t \<Longrightarrow> waits a t"
  by (cases t) auto

text \<open>One step, seen by the channel \<open>ch\<close> of a model.\<close>

lemma admission_exec:
  assumes "aexec e t a = Some (new, sp, a')" "gate_sound a" "\<forall>m ch. t = QClose m ch \<longrightarrow> map_of (ad_gate a) m = Some ch"
  shows "gate_sound a' \<and> sp = [] \<and> many (guards m ch) new - (if guards m ch t then 1 else 0) = led m ch a' - led m ch a \<and>
    (\<forall>u \<in> set new. waits a' u) \<and> (\<forall>u. waits a u \<longrightarrow> waits a' u)"
proof -
  from plain_or [of t] consider "plain t" | (acq) n r where "t = QAcquire n r" | (fol) c d where "t = QFollow c d"
    | (cls) n d where "t = QClose n d" by blast
  then show ?thesis
  proof cases
    case 1
    from plain_step [OF 1 assms(1)] have f: "ad_gate a' = ad_gate a" "ad_closed a' = ad_closed a" "ad_next a' = ad_next a"
      "ad_crash a' = ad_crash a" "sp = []" and new: "list_all mild new" by auto
    have "\<not> guards m ch t" using 1 by (cases t) auto
    then show ?thesis
      using f assms(2) mild_many [OF new] new waits_same [OF f(1,2)] mild_waits by (simp add: gate_sound_def led_def list_all_iff)
  next
    case acq
    from assms(1) have x: "acquire_enter e n r a = (new, sp, a')" by (simp add: acq)
    from x show ?thesis
    proof (cases rule: acquire_enter_cases)
      case (leads c)
      have nf: "map_of (ad_gate a) k \<noteq> Some (ad_next a)" "ad_next a \<notin> set (ad_closed a)" for k
        using assms(2) by (auto simp: gate_sound_def)
      have "gate_sound a'"
        using assms(2) leads nf by (auto simp: gate_sound_def map_of_update less_Suc_eq split: if_splits)
      moreover have "\<forall>u. waits a u \<longrightarrow> waits a' u"
      proof (intro allI impI)
        fix u
        assume "waits a u"
        then show "waits a' u" using leads by (cases u) (auto simp: map_of_update)
      qed
      ultimately show ?thesis using leads nf acq by (auto simp: led_def map_of_update)
    next
      case (follows c d)
      then show ?thesis using assms(2) acq waits_same [of a' a] by (auto simp: gate_sound_def led_def)
    next
      case refused
      then show ?thesis using assms(2) acq waits_same [of a' a] by (auto simp: gate_sound_def led_def)
    qed
  next
    case fol
    with assms show ?thesis by (auto simp: follow_def split: if_splits)
  next
    case cls
    have g: "map_of (ad_gate a) n = Some d" using assms(3) cls by simp
    then have d: "d \<notin> set (ad_closed a)" "d < ad_next a" using assms(2) by (auto simp: gate_sound_def)
    then have a': "a' = a\<lparr>ad_closed := d # ad_closed a, ad_gate := AList.delete n (ad_gate a)\<rparr>" "new = []" "sp = []"
      using assms(1) cls by (auto simp: close_gate_def)
    have u: "map_of (ad_gate a) k = Some d \<Longrightarrow> k = n" for k using assms(2) g by (auto simp: gate_sound_def)
    have "gate_sound a'" using assms(2) d u by (auto simp: a' gate_sound_def map_of_delete split: if_splits)
    moreover have "\<forall>u. waits a u \<longrightarrow> waits a' u"
    proof (intro allI impI)
      fix v
      assume "waits a v"
      then show "waits a' v" using g by (cases v) (auto simp: a' map_of_delete)
    qed
    moreover have "many (guards m ch) new - (if guards m ch t then 1 else 0) = led m ch a' - led m ch a"
      using g by (cases "m = n") (auto simp: a' cls led_def map_of_delete)
    ultimately show ?thesis by (simp add: a')
  qed
qed

lemma admission_invariant:
  assumes "admission_reach (a, ts)"
  shows "gate_sound a \<and> (\<forall>m ch. pend (guards m ch) ts = led m ch a) \<and> (\<forall>t \<in> set (concat ts). waits a t)"
proof (rule adm.reach_induct [OF assms, where Q = "\<lambda>a ts. gate_sound a \<and> (\<forall>m ch. pend (guards m ch) ts = led m ch a) \<and>
    (\<forall>t \<in> set (concat ts). waits a t)"])
  fix a ts i t rest e new sp a'
  assume I: "gate_sound a \<and> (\<forall>m ch. pend (guards m ch) ts = led m ch a) \<and> (\<forall>t \<in> set (concat ts). waits a t)"
    and s: "i < length ts" "ts ! i = t # rest" "aexec e t a = Some (new, sp, a')"
  have own: "\<forall>m ch. t = QClose m ch \<longrightarrow> map_of (ad_gate a) m = Some ch"
  proof (intro allI impI)
    fix m ch
    assume "t = QClose m ch"
    then have "1 \<le> pend (guards m ch) ts" using pend_pos [OF s(1), of t "guards m ch"] s(2) by simp
    then show "map_of (ad_gate a) m = Some ch" using I by (auto simp: led_def split: if_splits)
  qed
  have x: "gate_sound a' \<and> sp = [] \<and> many (guards m ch) new - (if guards m ch t then 1 else 0) = led m ch a' - led m ch a \<and>
      (\<forall>u \<in> set new. waits a' u) \<and> (\<forall>u. waits a u \<longrightarrow> waits a' u)" for m ch
    using I by (intro admission_exec [OF s(3) _ own]) simp
  have "pend (guards m ch) (ts[i := new @ rest] @ map (\<lambda>t. [t]) sp) = led m ch a'" for m ch
    using x [of m ch] I pend_update [OF s(1,2), of "guards m ch" new] by simp
  moreover have "\<forall>u \<in> set (concat (ts[i := new @ rest])). waits a' u"
    using set_concat_update [OF s(1,2), of new] x I by blast
  ultimately show "gate_sound a' \<and> (\<forall>m ch. pend (guards m ch) (ts[i := new @ rest] @ map (\<lambda>t. [t]) sp) = led m ch a') \<and>
      (\<forall>u \<in> set (concat (ts[i := new @ rest] @ map (\<lambda>t. [t]) sp)). waits a' u)"
    using x by simp
next
  fix a ts t
  assume I: "gate_sound a \<and> (\<forall>m ch. pend (guards m ch) ts = led m ch a) \<and> (\<forall>t \<in> set (concat ts). waits a t)"
    and "acquire_entry t"
  then obtain m where "t = QAcquire m []" by (cases t) auto
  with I show "gate_sound a \<and> (\<forall>m ch. pend (guards m ch) (ts @ [[t]]) = led m ch a) \<and> (\<forall>u \<in> set (concat (ts @ [[t]])). waits a u)"
    by simp
next
  fix a ts a'
  assume I: "gate_sound a \<and> (\<forall>m ch. pend (guards m ch) ts = led m ch a) \<and> (\<forall>t \<in> set (concat ts). waits a t)"
    and "\<exists>q. po_admissions q = po_admissions (ad_pool a) \<and> a' = a\<lparr>ad_pool := q\<rparr>"
  then obtain q where "a' = a\<lparr>ad_pool := q\<rparr>" by blast
  with I waits_same [of a' a] show "gate_sound a' \<and> (\<forall>m ch. pend (guards m ch) ts = led m ch a') \<and> (\<forall>t \<in> set (concat ts). waits a' t)"
    by (auto simp: gate_sound_def led_def)
qed (auto simp: new_admission_def gate_sound_def led_def)

text \<open>
  C21: one leader per model.  In every reachable state a model has a channel exactly when one
  goroutine is going to close it, the channel is open until then and no other model has it, no
  goroutine closes a closed channel, and whoever waits for a channel waits for one that is
  closed or has this goroutine behind it.
\<close>

theorem one_leader_per_model:
  assumes "admission_reach (a, ts)"
  shows "pend (guards model ch) ts = (if map_of (ad_gate a) model = Some ch then 1 else 0) \<and> \<not> ad_crash a \<and>
    (map_of (ad_gate a) model = Some ch \<longrightarrow>
      ch \<notin> set (ad_closed a) \<and> (\<forall>other. map_of (ad_gate a) other = Some ch \<longrightarrow> other = model)) \<and>
    (\<forall>c. QFollow c ch \<in> set (concat ts) \<longrightarrow> ch \<in> set (ad_closed a) \<or> pend (guards (ca_model c) ch) ts = 1)"
  using admission_invariant [OF assms] unfolding gate_sound_def led_def
  by (auto dest!: bspec [where x = "QFollow _ ch"])

subsection \<open>A follower of its own channel\<close>

text \<open>
  A pass that falls back to another model calls \<open>Acquire\<close> again before its deferred close
  runs.  If the chain of fallbacks comes back to a model this goroutine leads, it waits for a
  channel only it can close.  \<open>Config.Validate\<close> only rejects a model that falls back to itself.
\<close>

definition blank :: "string \<Rightarrow> bool" where
  "blank s \<longleftrightarrow> strings_trim s = []"

definition fallbacks_valid :: "(string \<times> string) list \<Rightarrow> bool" where
  "fallbacks_valid fs \<longleftrightarrow> list_all (\<lambda>(src, target). \<not> blank src \<and> \<not> blank target \<and> src \<noteq> target) fs"

lemma self_follower_blocked:
  assumes "admission_reach (a, ts)" "i < length ts" "ts ! i = QFollow c ch # rest" "QClose (ca_model c) ch \<in> set rest"
  shows "follow c ch a = None"
proof -
  have "1 \<le> pend (guards (ca_model c) ch) ts"
    using pend_pos [OF assms(2), of "QClose (ca_model c) ch" "guards (ca_model c) ch"] assms(3,4) by simp
  then have "map_of (ad_gate a) (ca_model c) = Some ch"
    using admission_invariant [OF assms(1)] by (auto simp: led_def split: if_splits)
  then have "ch \<notin> set (ad_closed a)" using admission_invariant [OF assms(1)] by (auto simp: gate_sound_def)
  then show ?thesis by (simp add: follow_def)
qed

lemma self_follower_step:
  assumes "admission_step (a, ts) (a', ts')" "admission_reach (a, ts)" "i < length ts" "ts ! i = QFollow c ch # rest"
    "QClose (ca_model c) ch \<in> set rest"
  shows "i < length ts' \<and> ts' ! i = ts ! i"
  using assms(1)
proof (cases rule: admission_step.cases)
  case (athread j t r e new sp)
  have "j \<noteq> i" using self_follower_blocked [OF assms(2-5)] athread(3-4) assms(4) by auto
  then show ?thesis using athread(1) assms(3) by (simp add: nth_append)
qed (use assms(3) in \<open>auto simp: nth_append\<close>)

text \<open>
  C22: a goroutine that follows the channel it leads never returns: whatever the others do,
  whatever the upstream answers and whatever becomes of the request's context, it stays where
  it is, and with it the channel of the model.  The fallbacks of a configuration that passes
  validation can lead there.
\<close>

theorem own_follower_never_returns:
  assumes "admission_reach (a, ts)" "i < length ts" "ts ! i = QFollow c ch # rest" "QClose (ca_model c) ch \<in> set rest"
    and "admission_step\<^sup>*\<^sup>* (a, ts) (a', ts')"
  shows "i < length ts' \<and> ts' ! i = ts ! i \<and> map_of (ad_gate a') (ca_model c) = Some ch \<and> aexec e (QFollow c ch) a' = None"
proof -
  from assms(5) have "admission_reach (a', ts') \<and> i < length ts' \<and> ts' ! i = ts ! i"
  proof (induction rule: rtranclp_induct2)
    case refl
    then show ?case using assms(1,2) by simp
  next
    case (step b us b' us')
    then show ?case using self_follower_step [OF step(2), of i c ch rest] assms(3,4) admission_reach.astep by auto
  qed
  then have r: "admission_reach (a', ts')" "i < length ts'" "ts' ! i = QFollow c ch # rest" "ts' ! i = ts ! i"
    using assms(3) by auto
  have "1 \<le> pend (guards (ca_model c) ch) ts'"
    using pend_pos [OF r(2), of "QClose (ca_model c) ch" "guards (ca_model c) ch"] r(3) assms(4) by simp
  then have "map_of (ad_gate a') (ca_model c) = Some ch"
    using admission_invariant [OF r(1)] by (auto simp: led_def split: if_splits)
  then show ?thesis using r self_follower_blocked [OF r(1-3) assms(4)] by simp
qed

text \<open>One token whose account has no session quota left for two models that fall back to each other.\<close>

definition full_quota :: model_quota where
  "full_quota = zero_quota\<lparr>mq_limit := 1, mq_recent := 1, mq_reset_at := hour\<rparr>"

definition one_pool :: pool where
  "one_pool = three_pool\<lparr>po_tok := (\<lambda>x. (token_with [] [])\<lparr>pt_session :=
       (new_manager [] None)\<lparr>sm_quota := Some [(''a'', full_quota), (''b'', full_quota)]\<rparr>\<rparr>),
     po_toks := [0], po_usage := [[]], po_ledgers := [new_ledger]\<rparr>"

definition refused_env :: aenv where
  "refused_env = \<lparr>ae_at = ready_attempt 0,
     ae_cfg = \<lparr>pc_max_messages = 0, pc_scarce = [], pc_fallback = [(''a'', ''b''), (''b'', ''a'')]\<rparr>, ae_agents = one_agent\<rparr>"

definition cyclic_calls :: "(admission \<times> qtask list list) option" where
  "cyclic_calls = play aexec (replicate 11 (0, refused_env)) (new_admission one_pool, [[QAcquire ''a'' []]])"

fun waits_for_itself :: "qtask list list \<Rightarrow> bool" where
  "waits_for_itself [QFollow c ch # rest] \<longleftrightarrow> ca_model c = ''a'' \<and> ch = 0 \<and> list_ex (guards ''a'' 0) rest"
| "waits_for_itself ts = False"

lemma guards_close: "guards m ch t \<longleftrightarrow> t = QClose m ch"
  by (cases t) auto

theorem own_follower_never_returns_witness:
  "\<exists>a c rest. cyclic_calls = Some (a, [QFollow c 0 # rest]) \<and> fallbacks_valid (pc_fallback (ae_cfg refused_env)) \<and>
     map_of (ad_gate a) ''a'' = Some 0 \<and> aexec refused_env (QFollow c 0) a = None"
proof -
  have "case cyclic_calls of None \<Rightarrow> False | Some (a, ts) \<Rightarrow> waits_for_itself ts"
    by code_simp
  then obtain a ts where p: "cyclic_calls = Some (a, ts)" and w: "waits_for_itself ts" by (auto split: option.splits)
  from w obtain c rest where ts: "ts = [QFollow c 0 # rest]" "ca_model c = ''a''" and "list_ex (guards ''a'' 0) rest"
    by (auto elim: waits_for_itself.elims)
  then have m: "QClose (ca_model c) 0 \<in> set rest" by (auto simp: list_ex_iff guards_close)
  have "admission_reach (new_admission one_pool, [[QAcquire ''a'' []]])"
    using admission_reach.astep [OF admission_reach.ainit admission_step.aspawn, of one_pool "QAcquire ''a'' []"]
    by (simp add: one_pool_def three_pool_def)
  from adm.play_reach [OF this p [unfolded cyclic_calls_def]] have r: "admission_reach (a, [QFollow c 0 # rest])" unfolding ts .
  have "fallbacks_valid (pc_fallback (ae_cfg refused_env))" by code_simp
  moreover have "map_of (ad_gate a) (ca_model c) = Some 0 \<and> aexec refused_env (QFollow c 0) a = None"
    using own_follower_never_returns [OF r, of 0 c 0 rest a "[QFollow c 0 # rest]"] m by simp
  ultimately show ?thesis using p ts by auto
qed

theorem one_leader_per_model_witness:
  "\<exists>a ts. cyclic_calls = Some (a, ts) \<and> pend (guards ''b'' 1) ts = (if map_of (ad_gate a) ''b'' = Some 1 then 1 else 0) \<and> \<not> ad_crash a"
proof -
  have "case cyclic_calls of None \<Rightarrow> False | Some s \<Rightarrow> True" by code_simp
  then obtain a ts where p: "cyclic_calls = Some (a, ts)" by (auto split: option.splits)
  have "admission_reach (new_admission one_pool, [[QAcquire ''a'' []]])"
    using admission_reach.astep [OF admission_reach.ainit admission_step.aspawn, of one_pool "QAcquire ''a'' []"]
    by (simp add: one_pool_def three_pool_def)
  from adm.play_reach [OF this p [unfolded cyclic_calls_def]] have "admission_reach (a, ts)" .
  from one_leader_per_model [OF this, of "''b''" 1] p show ?thesis by (intro exI [of _ a] exI [of _ ts] conjI) blast+
qed

subsection \<open>The token the followers take\<close>

lemma leased_admission:
  assumes "lease_from_order cfg agents model agent toks ql env order p = (Leased l, p')"
  shows "map_of (po_admissions p') model = None"
proof -
  from loop_leased [OF assms [unfolded lease_from_order_def]] obtain i v b q
    where v: "visit_token cfg agents model agent toks i v b q = Stop (Inl l) p'" by blast
  from visit_leased [OF v] obtain us where "admit agents model agent i (toks ! i) v b (q\<lparr>po_usage := us\<rparr>) = Stop (Inl l) p'"
    by blast
  with admit_admission [of model agents agent i "toks ! i" v b "q\<lparr>po_usage := us\<rparr>"] show ?thesis by simp
qed

text \<open>
  The followers of a leader that got a lease try token 0 first, whichever token the leader
  took.  The leader's pass deletes the admission before it returns, and the follower reads the
  index from the map without asking whether the key is there, so it gets the zero value.  The
  comment on the gate says the followers follow the leader's token.
\<close>

theorem follower_takes_token_zero:
  assumes "lease_from_order cfg agents (ca_model c) agent toks ql env order p = (Leased l, ad_pool a)"
  shows "\<exists>ql'. order_pass e c (leader_token (ca_model c) (ad_pool a)) a =
    ([QVisit (c\<lparr>ca_quota := ql'\<rparr>) no_buckets (0 # filter (\<lambda>i. i \<noteq> 0) (fst (pool_order (at_now (ae_at e)) c (ad_pool a))))], [], a)"
  using leased_admission [OF assms]
  by (cases "pool_order (at_now (ae_at e)) c (ad_pool a)")
    (auto simp: leader_token_def zget_def order_pass_def follow_order_def)

definition follower_call :: acall where
  "follower_call = \<lparr>ca_model = ''m'', ca_agent = ''agent'', ca_cfg = one_config, ca_toks = [0, 1, 2], ca_start = 0,
     ca_reason = [], ca_quota = []\<rparr>"

theorem follower_takes_token_zero_witness:
  "\<exists>l p'. lease_from_order one_config one_agent ''m'' ''agent'' [0, 1, 2] [] ready_attempt [2, 1, 0]
       (mark_leader ''m'' three_pool) = (Leased l, p') \<and> le_token l = 2 \<and>
     (\<exists>c' is. order_pass refused_env follower_call (leader_token ''m'' p') (new_admission p') =
       ([QVisit c' no_buckets (0 # is)], [], new_admission p'))"
proof -
  obtain oc p' where r: "lease_from_order one_config one_agent ''m'' ''agent'' [0, 1, 2] [] ready_attempt [2, 1, 0]
      (mark_leader ''m'' three_pool) = (oc, p')" by fastforce
  have "case lease_from_order one_config one_agent ''m'' ''agent'' [0, 1, 2] [] ready_attempt [2, 1, 0]
      (mark_leader ''m'' three_pool) of (Leased l, p') \<Rightarrow> le_token l = 2 | _ \<Rightarrow> False"
    by code_simp
  then obtain l where l: "oc = Leased l" "le_token l = 2" unfolding r prod.case by (cases oc) simp_all
  have "lease_from_order one_config one_agent (ca_model follower_call) ''agent'' [0, 1, 2] [] ready_attempt [2, 1, 0]
      (mark_leader ''m'' three_pool) = (Leased l, ad_pool (new_admission p'))"
    using r l(1) by (simp add: follower_call_def new_admission_def)
  from follower_takes_token_zero [OF this, of refused_env] r l show ?thesis
    by (auto simp: follower_call_def new_admission_def)
qed

end
