(* ===== verification/RateLimiter.thy ===== *)
theory RateLimiter
  imports GoTime Complex_Main
begin

text \<open>
  \<open>internal/ratelimit/limiter.go\<close>: the token bucket of each client address, and the bound it
  puts on the requests admitted.  A \<open>float64\<close> is a rational: with a rate that no \<open>float64\<close> holds
  exactly, the rounding of the code can admit a request an ulp before the bound does.
\<close>

record bucket =
  bu_tokens :: rat
  bu_seen :: gotime

record limiter =
  lm_rate :: rat
  lm_burst :: rat
  lm_max :: int
  lm_buckets :: "(string \<times> bucket) list"

definition burst_of :: "rat \<Rightarrow> int \<Rightarrow> rat" where
  "burst_of rate burst = (if burst \<le> 0 \<and> 0 < rate then max 1 (rate * 2) else of_int burst)"

definition new_limiter :: "rat \<Rightarrow> int \<Rightarrow> int \<Rightarrow> limiter" where
  "new_limiter rate burst maxe = (let r = (if rate < 0 then 0 else rate) in
     \<lparr>lm_rate = r, lm_burst = burst_of r burst, lm_max = (if maxe \<le> 0 then 10000 else maxe), lm_buckets = []\<rparr>)"

definition set_rate :: "rat \<Rightarrow> int \<Rightarrow> limiter \<Rightarrow> limiter" where
  "set_rate rate burst l = (let r = (if rate < 0 then 0 else rate) in l\<lparr>lm_rate := r, lm_burst := burst_of r burst\<rparr>)"

subsection \<open>The key of a client\<close>

text \<open>\<open>net.SplitHostPort\<close>, as far as the host: \<open>None\<close> is its error.\<close>

definition last_colon :: "string \<Rightarrow> nat option" where
  "last_colon s = (case rev (filter (\<lambda>i. s ! i = CHR '':'') [0..<length s]) of [] \<Rightarrow> None | i # is \<Rightarrow> Some i)"

definition first_index :: "char \<Rightarrow> string \<Rightarrow> nat option" where
  "first_index c s = (case filter (\<lambda>i. s ! i = c) [0..<length s] of [] \<Rightarrow> None | i # is \<Rightarrow> Some i)"

definition split_host :: "string \<Rightarrow> string option" where
  "split_host s = (case last_colon s of
     None \<Rightarrow> None
   | Some i \<Rightarrow>
       if hd s = CHR ''['' then
         (case first_index (CHR '']'') s of
            None \<Rightarrow> None
          | Some e \<Rightarrow> if e + 1 \<noteq> i then None
              else if CHR ''['' \<in> set (drop 1 s) \<or> CHR '']'' \<in> set (drop (e + 1) s) then None
              else Some (drop 1 (take e s)))
       else if CHR '':'' \<in> set (take i s) \<or> CHR ''['' \<in> set s \<or> CHR '']'' \<in> set s then None
       else Some (take i s))"

definition client_key :: "string \<Rightarrow> string" where
  "client_key ip = (let h = (case split_host ip of Some h \<Rightarrow> h | None \<Rightarrow> ip) in if h = [] then ''unknown'' else h)"

subsection \<open>Admission\<close>

text \<open>
  \<open>ord\<close> is the order in which the \<open>range\<close> over the map visits the buckets, which Go leaves open.
\<close>

definition prune_oldest :: "string list \<Rightarrow> gotime \<Rightarrow> limiter \<Rightarrow> limiter" where
  "prune_oldest ord now l = (let bs = filter (\<lambda>(k, b). \<not> bu_seen b < now - 5 * minute) (lm_buckets l) in
     if lm_max l \<le> int (length bs)
     then (let gone = take (max 1 (length bs div 2)) (filter (\<lambda>k. k \<in> fst ` set bs) ord)
       in l\<lparr>lm_buckets := filter (\<lambda>(k, b). k \<notin> set gone) bs\<rparr>)
     else l\<lparr>lm_buckets := bs\<rparr>)"

definition refill :: "gotime \<Rightarrow> limiter \<Rightarrow> bucket \<Rightarrow> bucket" where
  "refill now l b = (let elapsed = rat_of_int (tsub now (bu_seen b)) / of_int second in
     if 0 < elapsed then \<lparr>bu_tokens = min (lm_burst l) (bu_tokens b + elapsed * lm_rate l), bu_seen = now\<rparr> else b)"

definition retry_after :: "rat \<Rightarrow> rat \<Rightarrow> duration" where
  "retry_after tokens rate = (let w = (1 - tokens) / rate; w = (if w < 1 then 1 else w) in wrap64 (\<lceil>w\<rceil> * second))"

definition allow :: "string list \<Rightarrow> string \<Rightarrow> gotime \<Rightarrow> limiter \<Rightarrow> (bool \<times> duration) \<times> limiter" where
  "allow ord ip now l = (if lm_rate l \<le> 0 then ((True, 0), l) else
     let k = client_key ip in
     case map_of (lm_buckets l) k of
       None \<Rightarrow> (let l = (if lm_max l \<le> int (length (lm_buckets l)) then prune_oldest ord now l else l)
         in ((True, 0), l\<lparr>lm_buckets := AList.update k \<lparr>bu_tokens = lm_burst l - 1, bu_seen = now\<rparr> (lm_buckets l)\<rparr>))
     | Some b0 \<Rightarrow> (let b = refill now l b0 in
         if 1 \<le> bu_tokens b
         then ((True, 0), l\<lparr>lm_buckets := AList.update k (b\<lparr>bu_tokens := bu_tokens b - 1\<rparr>) (lm_buckets l)\<rparr>)
         else ((False, retry_after (bu_tokens b) (lm_rate l)), l\<lparr>lm_buckets := AList.update k b (lm_buckets l)\<rparr>)))"

definition limiter_rate :: "limiter \<Rightarrow> rat \<times> int" where
  "limiter_rate l = (lm_rate l, \<lfloor>lm_burst l\<rfloor>)"

definition limiter_len :: "limiter \<Rightarrow> nat" where
  "limiter_len l = length (lm_buckets l)"

subsection \<open>The level of a bucket\<close>

definition limiter_ok :: "limiter \<Rightarrow> bool" where
  "limiter_ok l \<longleftrightarrow> 0 < lm_rate l \<and> 1 \<le> lm_burst l \<and> gomap (lm_buckets l) \<and>
     (\<forall>b \<in> snd ` set (lm_buckets l). 0 \<le> bu_tokens b \<and> bu_tokens b \<le> lm_burst l)"

lemma new_limiter_ok: "0 < rate \<Longrightarrow> limiter_ok (new_limiter rate burst maxe)"
  by (auto simp: limiter_ok_def new_limiter_def burst_of_def Let_def)

text \<open>What flows into a bucket in a time.\<close>

definition inflow :: "limiter \<Rightarrow> int \<Rightarrow> rat" where
  "inflow l d = lm_rate l * of_int d / of_int second"

lemma inflow_add: "inflow l (d + e) = inflow l d + inflow l e"
  by (simp add: inflow_def ring_distribs add_divide_distrib)

lemma inflow_nonneg: "limiter_ok l \<Longrightarrow> 0 \<le> d \<Longrightarrow> 0 \<le> inflow l d"
  by (simp add: inflow_def limiter_ok_def)

lemma inflow_mono: "limiter_ok l \<Longrightarrow> d \<le> e \<Longrightarrow> inflow l d \<le> inflow l e"
  using inflow_add [of l d "e - d"] inflow_nonneg [of l "e - d"] by simp

lemma inflow_simps [simp]: "inflow l 0 = 0" "inflow (l\<lparr>lm_buckets := bs\<rparr>) d = inflow l d"
  by (simp_all add: inflow_def)

text \<open>What a client has at \<open>t\<close>: its tokens and what flowed in since, at most the burst.\<close>

definition level :: "string \<Rightarrow> gotime \<Rightarrow> limiter \<Rightarrow> rat" where
  "level k t l = (case map_of (lm_buckets l) k of
     None \<Rightarrow> lm_burst l
   | Some b \<Rightarrow> min (lm_burst l) (bu_tokens b + inflow l (t - bu_seen b)))"

definition seen_by :: "gotime \<Rightarrow> limiter \<Rightarrow> bool" where
  "seen_by t l \<longleftrightarrow> (\<forall>b \<in> snd ` set (lm_buckets l). bu_seen b \<le> t)"

lemma map_of_in_snd: "map_of m k = Some b \<Longrightarrow> b \<in> snd ` set m"
  by (force dest: map_of_SomeD)

lemma bucket_facts:
  assumes "limiter_ok l" "seen_by t l" "map_of (lm_buckets l) k = Some b"
  shows "0 \<le> bu_tokens b" "bu_tokens b \<le> lm_burst l" "bu_seen b \<le> t"
  using assms(1,2) map_of_in_snd [OF assms(3)] by (auto simp: limiter_ok_def seen_by_def)

lemma put_bucket:
  assumes "limiter_ok l" "seen_by t l" "0 \<le> bu_tokens c" "bu_tokens c \<le> lm_burst l" "bu_seen c = t"
    and l': "l' = l\<lparr>lm_buckets := AList.update k c (lm_buckets l)\<rparr>"
  shows "limiter_ok l'" "seen_by t l'"
proof -
  have "b \<in> snd ` set (AList.update k c (lm_buckets l)) \<Longrightarrow> b = c \<or> b \<in> snd ` set (lm_buckets l)" for b
    using snd_set_update [of k c "lm_buckets l"] by blast
  note x = this
  have "0 \<le> bu_tokens b \<and> bu_tokens b \<le> lm_burst l \<and> bu_seen b \<le> t" if "b \<in> snd ` set (AList.update k c (lm_buckets l))" for b
    using x [OF that] assms(1-5) unfolding limiter_ok_def seen_by_def by blast
  moreover have "gomap (AList.update k c (lm_buckets l))" "0 < lm_rate l" "1 \<le> lm_burst l"
    using assms(1) by (simp_all add: limiter_ok_def gomap_update)
  ultimately show "limiter_ok l'" "seen_by t l'" unfolding l' limiter_ok_def seen_by_def by simp_all
qed

lemma level_later:
  assumes "limiter_ok l" "t0 \<le> t"
  shows "level k t l \<le> level k t0 l + inflow l (t - t0)"
proof -
  have r: "0 \<le> inflow l (t - t0)" using assms by (intro inflow_nonneg) auto
  show ?thesis
  proof (cases "map_of (lm_buckets l) k")
    case (Some b)
    have "inflow l (t - bu_seen b) = inflow l (t0 - bu_seen b) + inflow l (t - t0)"
      using inflow_add [of l "t0 - bu_seen b" "t - t0"] by simp
    then show ?thesis using r by (auto simp: level_def Some min_def)
  qed (use r in \<open>simp add: level_def\<close>)
qed

lemma level_nonneg:
  assumes "limiter_ok l" "seen_by t l"
  shows "0 \<le> level k t l"
proof (cases "map_of (lm_buckets l) k")
  case (Some b)
  note f = bucket_facts [OF assms Some]
  have "0 \<le> inflow l (t - bu_seen b)" using f(3) by (intro inflow_nonneg [OF assms(1)]) simp
  then show ?thesis using f assms(1) by (simp add: level_def Some limiter_ok_def)
qed (use assms in \<open>simp add: level_def limiter_ok_def\<close>)

lemma refill_bounds:
  assumes "limiter_ok l" "0 \<le> bu_tokens b" "bu_tokens b \<le> lm_burst l" "bu_seen b \<le> t"
  shows "0 \<le> bu_tokens (refill t l b)" "bu_tokens (refill t l b) \<le> lm_burst l" "bu_seen (refill t l b) = t"
    "bu_tokens (refill t l b) \<le> min (lm_burst l) (bu_tokens b + inflow l (t - bu_seen b))"
proof -
  define el where "el = tsub t (bu_seen b)"
  have d: "el \<le> t - bu_seen b" "0 < el \<longleftrightarrow> bu_seen b < t" using assms(4) by (auto simp: el_def tsub_def)
  have r: "refill t l b = (if bu_seen b < t then \<lparr>bu_tokens = min (lm_burst l) (bu_tokens b + inflow l el), bu_seen = t\<rparr> else b)"
    using d(2) by (simp add: refill_def el_def [symmetric] inflow_def mult.commute)
  have le: "inflow l el \<le> inflow l (t - bu_seen b)" by (rule inflow_mono [OF assms(1) d(1)])
  have pos: "bu_seen b < t \<Longrightarrow> 0 \<le> inflow l el" using d(2) by (intro inflow_nonneg [OF assms(1)]) simp
  show "0 \<le> bu_tokens (refill t l b)" "bu_tokens (refill t l b) \<le> lm_burst l" "bu_seen (refill t l b) = t"
    using assms pos by (auto simp: r limiter_ok_def)
  show "bu_tokens (refill t l b) \<le> min (lm_burst l) (bu_tokens b + inflow l (t - bu_seen b))"
    using assms(3,4) le by (cases "bu_seen b < t") (auto simp: r)
qed

text \<open>A call that finds its bucket, or room for a new one, drops nobody.\<close>

definition fits :: "string \<Rightarrow> limiter \<Rightarrow> bool" where
  "fits k l \<longleftrightarrow> map_of (lm_buckets l) k \<noteq> None \<or> int (length (lm_buckets l)) < lm_max l"

lemma allow_some:
  assumes "limiter_ok l" "map_of (lm_buckets l) (client_key ip) = Some b0"
  obtains "1 \<le> bu_tokens (refill t l b0)" "allow ord ip t l = ((True, 0), l\<lparr>lm_buckets := AList.update (client_key ip)
        ((refill t l b0)\<lparr>bu_tokens := bu_tokens (refill t l b0) - 1\<rparr>) (lm_buckets l)\<rparr>)"
    | "bu_tokens (refill t l b0) < 1" "allow ord ip t l = ((False, retry_after (bu_tokens (refill t l b0)) (lm_rate l)),
        l\<lparr>lm_buckets := AList.update (client_key ip) (refill t l b0) (lm_buckets l)\<rparr>)"
  using assms by (cases "1 \<le> bu_tokens (refill t l b0)") (auto simp: allow_def Let_def limiter_ok_def)

lemma allow_step:
  assumes "limiter_ok l" "seen_by t l" "fits (client_key ip) l" "allow ord ip t l = ((ok, d), l')"
  shows "limiter_ok l' \<and> seen_by t l' \<and> lm_rate l' = lm_rate l \<and> lm_burst l' = lm_burst l \<and> lm_max l' = lm_max l \<and>
    fst ` set (lm_buckets l') = insert (client_key ip) (fst ` set (lm_buckets l)) \<and>
    (if ok \<and> client_key ip = k then 1 else 0) + level k t l' \<le> level k t l"
proof (cases "map_of (lm_buckets l) (client_key ip)")
  case None
  define b where "b = \<lparr>bu_tokens = lm_burst l - 1, bu_seen = t\<rparr>"
  have l': "ok" "l' = l\<lparr>lm_buckets := AList.update (client_key ip) b (lm_buckets l)\<rparr>"
    using assms None by (auto simp: allow_def Let_def fits_def limiter_ok_def b_def)
  have "limiter_ok l'" "seen_by t l'"
    using put_bucket [OF assms(1,2) _ _ _ l'(2)] assms(1) by (auto simp: b_def limiter_ok_def)
  moreover have "(if ok \<and> client_key ip = k then 1 else 0) + level k t l' \<le> level k t l"
    using None by (auto simp: level_def l' map_of_update b_def split: option.split)
  ultimately show ?thesis by (simp add: l'(2))
next
  case (Some b0)
  have r: "0 \<le> bu_tokens (refill t l b0)" "bu_tokens (refill t l b0) \<le> lm_burst l" "bu_seen (refill t l b0) = t"
    "bu_tokens (refill t l b0) \<le> min (lm_burst l) (bu_tokens b0 + inflow l (t - bu_seen b0))"
    by (rule refill_bounds [OF assms(1) bucket_facts [OF assms(1,2) Some]])+
  have x: ?thesis if "0 \<le> bu_tokens c" "bu_seen c = t" "l' = l\<lparr>lm_buckets := AList.update (client_key ip) c (lm_buckets l)\<rparr>"
      "(if ok then 1 else 0) + bu_tokens c \<le> bu_tokens (refill t l b0)" for c
  proof -
    have cb: "bu_tokens c \<le> lm_burst l" using that(4) r(2) by (auto split: if_splits)
    have "limiter_ok l'" "seen_by t l'"
      by (rule put_bucket [OF assms(1,2) that(1) cb that(2,3)])+
    moreover have "(if ok \<and> client_key ip = k then 1 else 0) + level k t l' \<le> level k t l"
    proof (cases "client_key ip = k")
      case True
      then have "level k t l' = bu_tokens c" "level k t l = min (lm_burst l) (bu_tokens b0 + inflow l (t - bu_seen b0))"
        using Some that(2) cb by (auto simp: level_def that(3) map_of_update)
      then show ?thesis using that(4) r(4) True by (auto split: if_splits)
    next
      case False
      then show ?thesis by (auto simp: level_def that(3) map_of_update split: option.split)
    qed
    ultimately show ?thesis by (simp add: that(3))
  qed
  show ?thesis
  proof (rule allow_some [OF assms(1) Some, of t ord])
    assume a: "1 \<le> bu_tokens (refill t l b0)" "allow ord ip t l = ((True, 0), l\<lparr>lm_buckets := AList.update (client_key ip)
        ((refill t l b0)\<lparr>bu_tokens := bu_tokens (refill t l b0) - 1\<rparr>) (lm_buckets l)\<rparr>)"
    show ?thesis
      by (rule x [of "(refill t l b0)\<lparr>bu_tokens := bu_tokens (refill t l b0) - 1\<rparr>"]) (use a r(3) assms(4) in auto)
  next
    assume a: "bu_tokens (refill t l b0) < 1" "allow ord ip t l = ((False, retry_after (bu_tokens (refill t l b0)) (lm_rate l)),
        l\<lparr>lm_buckets := AList.update (client_key ip) (refill t l b0) (lm_buckets l)\<rparr>)"
    show ?thesis by (rule x [of "refill t l b0"]) (use a r(1,3) assms(4) in auto)
  qed
qed

subsection \<open>A sequence of calls\<close>

type_synonym call = "string \<times> gotime \<times> string list"

fun admitted :: "string \<Rightarrow> call list \<Rightarrow> limiter \<Rightarrow> nat" where
  "admitted k [] l = 0"
| "admitted k ((ip, t, ord) # cs) l = (case allow ord ip t l of
     ((ok, d), l') \<Rightarrow> (if ok \<and> client_key ip = k then 1 else 0) + admitted k cs l')"

definition keys_of :: "call list \<Rightarrow> string set" where
  "keys_of cs = (\<lambda>(ip, t, ord). client_key ip) ` set cs"

lemma keys_of_simps [simp]: "keys_of [] = {}" "keys_of ((ip, t, ord) # cs) = insert (client_key ip) (keys_of cs)"
  by (auto simp: keys_of_def)

lemma finite_keys [simp]: "finite (keys_of cs)"
  by (simp add: keys_of_def)

lemma fits_card:
  assumes "limiter_ok l" "int (card (fst ` set (lm_buckets l) \<union> K)) \<le> lm_max l" "k \<in> K" "finite K"
  shows "fits k l"
proof (cases "k \<in> fst ` set (lm_buckets l)")
  case True
  then show ?thesis by (simp add: fits_def map_of_eq_None_iff)
next
  case False
  have "length (lm_buckets l) = card (fst ` set (lm_buckets l))"
    using assms(1) by (metis distinct_card gomap_def limiter_ok_def length_map list.set_map)
  also have "card (fst ` set (lm_buckets l)) < card (fst ` set (lm_buckets l) \<union> K)"
    using False assms(3,4) by (intro psubset_card_mono) auto
  finally show ?thesis using assms(2) by (simp add: fits_def)
qed

lemma admitted_level:
  "limiter_ok l \<Longrightarrow> seen_by t0 l \<Longrightarrow> sorted (map (\<lambda>c. fst (snd c)) cs) \<Longrightarrow> \<forall>c \<in> set cs. t0 \<le> fst (snd c) \<and> fst (snd c) \<le> t1 \<Longrightarrow>
   t0 \<le> t1 \<Longrightarrow> int (card (fst ` set (lm_buckets l) \<union> keys_of cs)) \<le> lm_max l \<Longrightarrow>
   of_nat (admitted k cs l) \<le> level k t0 l + inflow l (t1 - t0)"
proof (induction cs arbitrary: t0 l)
  case Nil
  have "0 \<le> inflow l (t1 - t0)" using Nil.prems by (intro inflow_nonneg) auto
  with level_nonneg [OF Nil.prems(1,2), of k] show ?case by simp
next
  case (Cons c cs)
  obtain ip t ord where c: "c = (ip, t, ord)" by (cases c)
  obtain ok d l' where a: "allow ord ip t l = ((ok, d), l')" by (metis prod.exhaust)
  have t: "t0 \<le> t" "t \<le> t1" using Cons.prems(4) by (auto simp: c)
  have s: "seen_by t l" using Cons.prems(2) t(1) by (auto simp: seen_by_def)
  have f: "fits (client_key ip) l"
    by (rule fits_card [OF Cons.prems(1), of "keys_of (c # cs)"]) (use Cons.prems(6) in \<open>auto simp: c\<close>)
  note st = allow_step [OF Cons.prems(1) s f a, of k]
  have "of_nat (admitted k cs l') \<le> level k t l' + inflow l' (t1 - t)"
    by (rule Cons.IH) (use st Cons.prems t in \<open>auto simp: c\<close>)
  moreover have "level k t l \<le> level k t0 l + inflow l (t - t0)"
    by (rule level_later [OF Cons.prems(1) t(1)])
  moreover have "inflow l (t1 - t) + inflow l (t - t0) = inflow l (t1 - t0)" "inflow l' (t1 - t) = inflow l (t1 - t)"
    using inflow_add [of l "t1 - t" "t - t0"] st by (simp_all add: inflow_def)
  ultimately show ?case using st by (auto simp: c a split: if_splits)
qed

text \<open>
  C24: the limiter bounds the requests of a client.  Between two instants, whatever the other
  clients send, a client is admitted at most the burst and the sustained rate times the time
  between them, as long as the clients tracked and calling fit the table.
\<close>

theorem limiter_bounds_requests:
  assumes "limiter_ok l" "seen_by t0 l" "sorted (map (\<lambda>c. fst (snd c)) calls)"
    and "\<forall>c \<in> set calls. t0 \<le> fst (snd c) \<and> fst (snd c) \<le> t1" "t0 \<le> t1"
    and "int (card (fst ` set (lm_buckets l) \<union> keys_of calls)) \<le> lm_max l"
  shows "of_nat (admitted k calls l) \<le> lm_burst l + lm_rate l * of_int (t1 - t0) / of_int second"
proof -
  have "level k t0 l \<le> lm_burst l" by (simp add: level_def split: option.split)
  then show ?thesis using admitted_level [OF assms, of k] by (simp add: inflow_def)
qed

text \<open>Three requests in a second at one request per second and a burst of two.\<close>

definition three_calls :: "call list" where
  "three_calls = [(''1.2.3.4:50'', 0, []), (''1.2.3.4:51'', 0, []), (''[::1]:7'', 0, []), (''1.2.3.4:52'', millisecond, [])]"

theorem limiter_bounds_requests_witness:
  "admitted ''1.2.3.4'' three_calls (new_limiter 1 2 10) = 2 \<and>
   (of_nat (admitted ''1.2.3.4'' three_calls (new_limiter 1 2 10)) :: rat) \<le> 2 + of_int second / of_int second"
proof -
  have "client_key ''1.2.3.4:50'' = ''1.2.3.4''" "client_key ''1.2.3.4:51'' = ''1.2.3.4''" "client_key ''[::1]:7'' = ''::1''"
    "client_key ''1.2.3.4:52'' = ''1.2.3.4''" by code_simp+
  then have k: "keys_of three_calls = {''1.2.3.4'', ''::1''}" by (auto simp: three_calls_def)
  have n: "new_limiter 1 2 10 = \<lparr>lm_rate = 1, lm_burst = 2, lm_max = 10, lm_buckets = []\<rparr>"
    by (simp add: new_limiter_def burst_of_def)
  have "of_nat (admitted ''1.2.3.4'' three_calls (new_limiter 1 2 10)) \<le>
      lm_burst (new_limiter 1 2 10) + lm_rate (new_limiter 1 2 10) * of_int (second - 0) / of_int second"
  proof (rule limiter_bounds_requests)
    show "limiter_ok (new_limiter 1 2 10)" by (rule new_limiter_ok) simp
  qed (simp_all add: k, simp_all add: n seen_by_def three_calls_def)
  moreover have "admitted ''1.2.3.4'' three_calls (new_limiter 1 2 10) = 2" by code_simp
  ultimately show ?thesis by (simp add: n)
qed

end
