(* ===== verification/ServerEngine.thy ===== *)
theory ServerEngine
  imports PoolAdmission RateLimiter SessionReply
begin

text \<open>
  The completion engine of \<open>internal/server/engine.go\<close>: \<open>chatCore\<close>, which every completion
  endpoint runs, and \<open>chatAttempt\<close>, its retry-once recovery.

  The hooks that \<open>chatAttempt\<close> is handed (acquire, chat, invalidate, cool down) are the
  environment; each use is an event of the log, in order.  \<open>renorm\<close> is \<open>convert.NormalizeRequest\<close>
  of a body for a model; nothing is assumed of it.  A lease is the one the pool returns; the
  run behind it gives its upstream id and trace id and counts its steps.  Log records, phase
  timings and the trace line are left out, but for the attempts and statuses they show.
\<close>

record chat_options =
  co_model :: string
  co_run :: string
  co_instance :: string
  co_trace :: string
  co_step :: int

datatype 'b eevent =
    EvAcquire string "pool_lease option"
  | EvClearQueued
  | EvChat pool_lease chat_options 'b
  | EvRelease pool_lease
  | EvAbandon pool_lease
  | EvInvalidateSession pool_lease
  | EvSuperseded pool_lease
  | EvInvalidateRun pool_lease string
  | EvCoolAuth pool_lease
  | EvCoolBan pool_lease ban
  | EvCoolRate pool_lease rate_limit
  | EvCoolIp pool_lease ip_capped
  | EvCoolCountry pool_lease country_blocked
  | EvRunFailed "pool_lease option"
  | EvStep pool_lease
  | EvSpend pool_lease int

text \<open>
  \<open>en_leased\<close> and \<open>en_released\<close> are the variables \<open>lease\<close> and \<open>released\<close> of \<open>chatAttempt\<close>, which its
  closure \<open>release\<close> and the deferred call share.
\<close>

record 'b engine =
  en_log :: "'b eevent list"
  en_unfit :: unfit_registry
  en_steps :: "nat \<Rightarrow> int"
  en_leased :: "pool_lease option"
  en_released :: bool
  en_attempts :: nat
  en_statuses :: "int list"
  en_retried :: bool

text \<open>What one round of the loop finds: the reply, the context at its end, the next acquire.\<close>

record round =
  rd_reply :: "string + gerr"
  rd_gone :: bool
  rd_now :: gotime
  rd_acquire :: "bool \<times> (pool_lease + gerr)"

record runs_view =
  rv_id :: "nat \<Rightarrow> string"
  rv_trace :: "nat \<Rightarrow> string"

definition note_event :: "'b eevent \<Rightarrow> 'b engine \<Rightarrow> 'b engine" where
  "note_event v m = m\<lparr>en_log := en_log m @ [v]\<rparr>"

text \<open>A call of the acquire hook; it is marked when it cleared the queued session caches on its way.\<close>

definition note_acquire :: "string \<Rightarrow> bool \<times> (pool_lease + gerr) \<Rightarrow> 'b engine \<Rightarrow> 'b engine" where
  "note_acquire model acq m = note_event (EvAcquire model (case snd acq of Inl l \<Rightarrow> Some l | Inr err \<Rightarrow> None))
     (if fst acq then note_event EvClearQueued m else m)"

text \<open>\<open>release\<close>: a lease whose client is gone is abandoned.\<close>

definition chat_release :: "bool \<Rightarrow> 'b engine \<Rightarrow> 'b engine" where
  "chat_release gone m = (if en_released m then m else
     case en_leased m of
       None \<Rightarrow> m\<lparr>en_released := True\<rparr>
     | Some l \<Rightarrow> note_event (if gone then EvAbandon l else EvRelease l) (m\<lparr>en_released := True\<rparr>))"

definition next_step :: "nat \<Rightarrow> 'b engine \<Rightarrow> int \<times> 'b engine" where
  "next_step r m = (let n = en_steps m r + 1 in (n, m\<lparr>en_steps := (en_steps m)(r := n)\<rparr>))"

definition served_model :: "string \<Rightarrow> pool_lease \<Rightarrow> string" where
  "served_model model l = (if le_model l = [] then model else le_model l)"

definition renormalized :: "('b \<Rightarrow> string \<Rightarrow> 'b option) \<Rightarrow> string \<Rightarrow> string \<Rightarrow> 'b \<Rightarrow> 'b" where
  "renormalized renorm model eff b = (if eff \<noteq> model then (case renorm b eff of Some b' \<Rightarrow> b' | None \<Rightarrow> b) else b)"

subsection \<open>The recovery of a failed chat\<close>

text \<open>\<open>attemptStatus\<close>; 0 is no status.\<close>

definition attempt_status :: "gerr \<Rightarrow> int" where
  "attempt_status err = (case err of
     EUpstream e \<Rightarrow> ue_status e
   | ECredits e \<Rightarrow> sb_status e
   | ECapacity e \<Rightarrow> cd_status e
   | ESuperseded e \<Rightarrow> sb_status e
   | ESessionLimit e \<Rightarrow> sb_status e
   | EWaitingRequired e \<Rightarrow> 428
   | ERate e \<Rightarrow> (case go_atoi (rl_status e) of Some n \<Rightarrow> n | None \<Rightarrow> 429)
   | _ \<Rightarrow> 0)"

definition chat_err_class :: "gerr \<Rightarrow> string" where
  "chat_err_class err = (case err of
     ERate _ \<Rightarrow> ''rate_limited''
   | EBan _ \<Rightarrow> ''banned''
   | EIpCapped _ \<Rightarrow> ''ip_capped''
   | ELimitedIp _ \<Rightarrow> ''model_ip_limited''
   | ESessionLimit _ \<Rightarrow> ''session_limit_reached''
   | EWaiting _ \<Rightarrow> ''waiting_room'' | ESessWaiting _ \<Rightarrow> ''waiting_room'' | EWaitingRequired _ \<Rightarrow> ''waiting_room''
   | ESuperseded _ \<Rightarrow> ''session_superseded''
   | EUpstream _ \<Rightarrow> ''upstream''
   | _ \<Rightarrow> ''error'')"

text \<open>
  The \<open>switch\<close> on the error: whether the loop goes on to a new acquire, and the state.  \<open>l\<close> is the
  lease of the round.
\<close>

definition recover :: "round \<Rightarrow> string \<Rightarrow> pool_lease \<Rightarrow> gerr \<Rightarrow> 'b engine \<Rightarrow> bool \<times> 'b engine" where
  "recover rd eff l err m = (let rel = chat_release (rd_gone rd); again = \<not> 1 < en_attempts m in
     if err_is err ErrModelIPLimited then
       (again, rel (m\<lparr>en_unfit := mark_model_unfit eff (as_limited_ip err) (rd_now rd) (en_unfit m)\<rparr>))
     else if err_is err ErrSessionInvalid then (again, note_event (EvInvalidateSession l) (rel m))
     else if err_is err ErrWaitingRoomRequired then (again, note_event (EvInvalidateSession l) (rel m))
     else if err_is err ErrSessionSuperseded then (False, note_event (EvSuperseded l) (rel m))
     else if err_is err ErrRunInvalid then (again, note_event (EvInvalidateRun l (le_agent l)) (rel m))
     else if err_is err ErrAuthRejected then (False, rel (note_event (EvCoolAuth l) m))
     else if err_is err ErrBanned then
       (False, rel (case as_ban err of Some e \<Rightarrow> note_event (EvCoolBan l e) m | None \<Rightarrow> m))
     else if err_is err ErrRateLimited then
       (False, rel (case as_rate_limit err of Some e \<Rightarrow> note_event (EvCoolRate l e) m | None \<Rightarrow> m))
     else if err_is err ErrIpCapped then
       (False, rel (case as_ip_capped err of Some e \<Rightarrow> note_event (EvCoolIp l e) m | None \<Rightarrow> m))
     else if err_is err ErrCountryBlocked then
       (False, rel (case as_country err of Some e \<Rightarrow> note_event (EvCoolCountry l e) m | None \<Rightarrow> m))
     else if err_is err ErrCredits then (False, rel m)
     else if (case as_upstream err of Some e \<Rightarrow> ue_retryable e | None \<Rightarrow> False) then (False, rel m)
     else (again \<and> \<not> rd_gone rd, rel m))"

subsection \<open>The loop\<close>

definition chat_done :: "string \<Rightarrow> pool_lease \<Rightarrow> 'b engine \<Rightarrow> 'b engine" where
  "chat_done eff l m = (let m = (if is_zero (le_at l) then m
       else m\<lparr>en_unfit := clear_model_unfit_before eff (le_at l) (en_unfit m)\<rparr>)
     in m\<lparr>en_statuses := en_statuses m @ [200], en_released := True\<rparr>)"

text \<open>After a new acquire: the model, the body and the options of the next round.\<close>

definition fresh_options :: "runs_view \<Rightarrow> string \<Rightarrow> pool_lease \<Rightarrow> chat_options \<Rightarrow> 'b engine \<Rightarrow> chat_options \<times> 'b engine" where
  "fresh_options rv eff l opts m = (let rid = rv_id rv (le_run l);
       (st, m) = (if rid \<noteq> co_run opts then next_step (le_run l) m else (co_step opts, m))
     in (opts\<lparr>co_model := eff, co_step := st, co_run := rid, co_instance := le_instance l\<rparr>, m))"

lemma note_event_simps [simp]:
  "en_attempts (note_event v m) = en_attempts m" "en_leased (note_event v m) = en_leased m"
  "en_released (note_event v m) = en_released m" "en_log (note_event v m) = en_log m @ [v]"
  "en_unfit (note_event v m) = en_unfit m" "en_steps (note_event v m) = en_steps m"
  by (simp_all add: note_event_def)

lemma note_acquire_simps [simp]:
  "en_attempts (note_acquire md a m) = en_attempts m" "en_leased (note_acquire md a m) = en_leased m"
  "en_released (note_acquire md a m) = en_released m" "en_unfit (note_acquire md a m) = en_unfit m"
  "en_steps (note_acquire md a m) = en_steps m"
  by (simp_all add: note_acquire_def)

lemma chat_release_attempts [simp]: "en_attempts (chat_release g m) = en_attempts m"
  by (simp add: chat_release_def split: option.split)

lemma recover_attempts:
  assumes "recover rd eff l err m = (again, m')"
  shows "en_attempts m' = en_attempts m \<and> (again \<longrightarrow> en_attempts m \<le> 1)"
  using assms by (auto simp: recover_def Let_def split: if_splits option.splits)

lemma fresh_options_attempts: "fresh_options rv eff l opts m = (opts', m') \<Longrightarrow> en_attempts m' = en_attempts m"
  by (auto simp: fresh_options_def next_step_def Let_def split: if_splits)

text \<open>What \<open>chatAttempt\<close> returns: the body and the lease, or a lease or nil and the error.\<close>

type_synonym chat_result = "string \<times> pool_lease + pool_lease option \<times> gerr"

text \<open>A round is over with a result, or goes on to the next with the values it needs.\<close>

datatype 'b round_end =
    Over chat_result
  | Again string pool_lease chat_options 'b

definition chat_called :: "pool_lease \<Rightarrow> chat_options \<Rightarrow> 'b \<Rightarrow> 'b engine \<Rightarrow> 'b engine" where
  "chat_called l opts b m = (note_event (EvChat l opts b) m)\<lparr>en_attempts := en_attempts m + 1\<rparr>"

definition chat_failed :: "gerr \<Rightarrow> 'b engine \<Rightarrow> 'b engine" where
  "chat_failed err m = (if attempt_status err \<noteq> 0 then m\<lparr>en_statuses := en_statuses m @ [attempt_status err]\<rparr> else m)"

lemma chat_called_simps [simp]:
  "en_attempts (chat_called l opts b m) = en_attempts m + 1" "en_leased (chat_called l opts b m) = en_leased m"
  "en_released (chat_called l opts b m) = en_released m" "en_log (chat_called l opts b m) = en_log m @ [EvChat l opts b]"
  by (simp_all add: chat_called_def)

lemma chat_failed_simps [simp]:
  "en_attempts (chat_failed err m) = en_attempts m" "en_leased (chat_failed err m) = en_leased m"
  "en_released (chat_failed err m) = en_released m" "en_log (chat_failed err m) = en_log m"
  by (simp_all add: chat_failed_def)

definition chat_round :: "('b \<Rightarrow> string \<Rightarrow> 'b option) \<Rightarrow> runs_view \<Rightarrow> string \<Rightarrow> round \<Rightarrow> string \<Rightarrow>
    pool_lease \<Rightarrow> chat_options \<Rightarrow> 'b \<Rightarrow> 'b engine \<Rightarrow> 'b round_end \<times> 'b engine" where
  "chat_round renorm rv model rd eff l opts b m0 =
     (let m1 = chat_called l opts b m0
      in case rd_reply rd of
        Inl up \<Rightarrow> (Over (Inl (up, l)), chat_done eff l m1)
      | Inr err \<Rightarrow>
          let (again, m3) = recover rd eff l err (chat_failed err m1)
          in if \<not> again then (Over (Inr (None, err)), chat_release (rd_gone rd) m3)
             else case snd (rd_acquire rd) of
                 Inr aerr \<Rightarrow> (Over (Inr (None, aerr)),
                   chat_release (rd_gone rd) (note_acquire eff (rd_acquire rd) (m3\<lparr>en_leased := None\<rparr>)))
               | Inl l' \<Rightarrow>
                   let eff' = served_model model l';
                       (opts', m4) = fresh_options rv eff' l' opts (note_acquire eff (rd_acquire rd)
                         (m3\<lparr>en_leased := Some l', en_released := False, en_retried := True\<rparr>))
                   in (Again eff' l' opts' (renormalized renorm model eff' b), m4))"

lemma chat_round_attempts:
  assumes "chat_round renorm rv model rd eff l opts b m = (r, m')"
  shows "en_attempts m' = en_attempts m + 1" "r = Again eff' l' opts' b' \<longrightarrow> en_attempts m = 0"
proof -
  have "en_attempts m' = en_attempts m + 1 \<and> (\<forall>eff' l' opts' b'. r = Again eff' l' opts' b' \<longrightarrow> en_attempts m = 0)"
    using assms
    by (auto simp: chat_round_def chat_done_def Let_def split: sum.splits prod.splits if_splits
      dest!: recover_attempts fresh_options_attempts)
  then show "en_attempts m' = en_attempts m + 1" "r = Again eff' l' opts' b' \<longrightarrow> en_attempts m = 0" by blast+
qed

lemma chat_round_again:
  "chat_round renorm rv model rd eff l opts b m = (Again eff' l' opts' b', m') \<Longrightarrow>
    en_attempts m = 0 \<and> en_attempts m' = 1"
  using chat_round_attempts by fastforce

function chat_loop :: "('b \<Rightarrow> string \<Rightarrow> 'b option) \<Rightarrow> runs_view \<Rightarrow> string \<Rightarrow> (nat \<Rightarrow> round) \<Rightarrow> string \<Rightarrow>
    pool_lease \<Rightarrow> chat_options \<Rightarrow> 'b \<Rightarrow> 'b engine \<Rightarrow> chat_result \<times> 'b engine" where
  "chat_loop renorm rv model env eff l opts b m =
     (case chat_round renorm rv model (env (en_attempts m)) eff l opts b m of
        (Over r, m') \<Rightarrow> (r, m')
      | (Again eff' l' opts' b', m') \<Rightarrow> chat_loop renorm rv model env eff' l' opts' b' m')"
  by pat_completeness auto
termination
  by (relation "measure (\<lambda>(renorm, rv, model, env, eff, l, opts, b, m). 2 - en_attempts m)")
    (auto dest!: chat_round_again [OF sym])

definition first_options :: "runs_view \<Rightarrow> string \<Rightarrow> pool_lease \<Rightarrow> int \<Rightarrow> chat_options" where
  "first_options rv eff l st = \<lparr>co_model = eff, co_run = rv_id rv (le_run l), co_instance = le_instance l,
     co_trace = rv_trace rv (le_run l), co_step = st\<rparr>"

definition chat_attempt :: "('b \<Rightarrow> string \<Rightarrow> 'b option) \<Rightarrow> runs_view \<Rightarrow> string \<Rightarrow> bool \<times> (pool_lease + gerr) \<Rightarrow> (nat \<Rightarrow> round) \<Rightarrow>
    'b \<Rightarrow> 'b engine \<Rightarrow> chat_result \<times> 'b engine" where
  "chat_attempt renorm rv model acq env b m = (case snd acq of
     Inr err \<Rightarrow> (Inr (None, err), note_acquire model acq m)
   | Inl l \<Rightarrow>
       let eff = served_model model l;
           (st, m) = next_step (le_run l) (note_acquire model acq m)
       in chat_loop renorm rv model env eff l (first_options rv eff l st) (renormalized renorm model eff b)
            (m\<lparr>en_leased := Some l, en_released := False\<rparr>))"

definition new_engine :: "unfit_registry \<Rightarrow> (nat \<Rightarrow> int) \<Rightarrow> 'b engine" where
  "new_engine u steps = \<lparr>en_log = [], en_unfit = u, en_steps = steps, en_leased = None, en_released = False,
     en_attempts = 0, en_statuses = [], en_retried = False\<rparr>"

lemma en_log_new [simp]: "en_log (new_engine u st) = []"
  by (simp add: new_engine_def)

subsection \<open>A completion request\<close>

record core_config =
  cc_bridge :: bool
  cc_fallback_after :: duration
  cc_fallbacks :: "(string \<times> string) list"

record chat_request =
  cq_remote :: string
  cq_token :: string
  cq_model :: string

text \<open>
  \<open>cv_acquire n\<close> is what the \<open>n\<close>-th acquire of the request returns, for the model asked and, if the
  queue-time fallback fires, for the fallback model.
\<close>

record core_env =
  cv_now :: gotime
  cv_order :: "string list"
  cv_unfit_now :: gotime
  cv_acquire :: "nat \<Rightarrow> (pool_lease + gerr) \<times> (pool_lease + gerr)"
  cv_round :: "nat \<Rightarrow> round"
  cv_usage :: int
  cv_gone :: bool

record reply_headers =
  rh_served :: string
  rh_fallback_model :: "string option"
  rh_fallback :: string

datatype chat_response =
    RLimited int
  | RUnfit "limited_ip option"
  | RNoToken
  | RError gerr
  | RServed reply_headers

definition fallback_for :: "core_config \<Rightarrow> string \<Rightarrow> string" where
  "fallback_for cfg model = (case map_of (cc_fallbacks cfg) model of Some f \<Rightarrow> f | None \<Rightarrow> [])"

text \<open>
  The queue-time fallback: whether it fires on an error, and the acquire with it.  An unknown
  model is no waiting room, so the test for it changes nothing.
\<close>

definition queue_fallback :: "core_config \<Rightarrow> string \<Rightarrow> gerr \<Rightarrow> bool" where
  "queue_fallback cfg model err \<longleftrightarrow> 0 < cc_fallback_after cfg \<and> fallback_for cfg model \<noteq> [] \<and> fallback_for cfg model \<noteq> model \<and>
     (case as_sess_waiting err of Some w \<Rightarrow> cc_fallback_after cfg \<le> sw_retry_after w | None \<Rightarrow> False)"

definition queue_acquire :: "core_config \<Rightarrow> string \<Rightarrow> (pool_lease + gerr) \<times> (pool_lease + gerr) \<Rightarrow>
    bool \<times> (pool_lease + gerr)" where
  "queue_acquire cfg model r = (case fst r of
     Inl l \<Rightarrow> (False, Inl l)
   | Inr err \<Rightarrow> if queue_fallback cfg model err then (True, snd r) else (False, Inr err))"

definition fallback_used :: "core_config \<Rightarrow> string \<Rightarrow> (pool_lease + gerr) \<times> (pool_lease + gerr) \<Rightarrow> bool" where
  "fallback_used cfg model r \<longleftrightarrow> (case fst r of Inl l \<Rightarrow> False | Inr err \<Rightarrow> queue_fallback cfg model err \<and> isl (snd r))"

definition core_attempt :: "core_config \<Rightarrow> ('b \<Rightarrow> string \<Rightarrow> 'b option) \<Rightarrow> runs_view \<Rightarrow> chat_request \<Rightarrow> core_env \<Rightarrow> 'b \<Rightarrow>
    'b engine \<Rightarrow> chat_result \<times> 'b engine" where
  "core_attempt cfg renorm rv rq v b m = (let acq = (\<lambda>n. if cc_bridge cfg then (False, fst (cv_acquire v n))
         else queue_acquire cfg (cq_model rq) (cv_acquire v n))
     in chat_attempt renorm rv (cq_model rq) (acq 0) (\<lambda>k. (cv_round v k)\<lparr>rd_acquire := acq (k + 1)\<rparr>) b m)"

definition core_headers :: "core_config \<Rightarrow> chat_request \<Rightarrow> core_env \<Rightarrow> bool \<Rightarrow> pool_lease \<Rightarrow> reply_headers" where
  "core_headers cfg rq v retried l = (let used = (\<not> cc_bridge cfg \<and> (fallback_used cfg (cq_model rq) (cv_acquire v 0) \<or>
         retried \<and> fallback_used cfg (cq_model rq) (cv_acquire v 1))) in
     \<lparr>rh_served = served_model (cq_model rq) l,
      rh_fallback_model = (if used then Some (fallback_for cfg (cq_model rq)) else None),
      rh_fallback = (if used then ''queue_timeout'' else le_fallback l)\<rparr>)"

text \<open>After the relay: the step, the spend, the deferred release.\<close>

definition core_served :: "core_env \<Rightarrow> pool_lease \<Rightarrow> 'b engine \<Rightarrow> 'b engine" where
  "core_served v l m = note_event (if cv_gone v then EvAbandon l else EvRelease l)
     (note_event (EvSpend l (cv_usage v)) (note_event (EvStep l) m))"

definition chat_core :: "core_config \<Rightarrow> ('b \<Rightarrow> string \<Rightarrow> 'b option) \<Rightarrow> runs_view \<Rightarrow> chat_request \<Rightarrow> core_env \<Rightarrow> 'b \<Rightarrow>
    limiter \<times> 'b engine \<Rightarrow> chat_response \<times> limiter \<times> 'b engine" where
  "chat_core cfg renorm rv rq v b s = (case allow (cv_order v) (cq_remote rq) (cv_now v) (fst s) of
     ((False, d), lm) \<Rightarrow> (RLimited (let sec = - ((- d) div second) in if sec < 1 then 1 else sec), lm, snd s)
   | ((True, _), lm) \<Rightarrow>
       let ((until, lie), u) = (if cc_bridge cfg then ((zero_time, None), en_unfit (snd s))
              else model_unfit (cq_model rq) (cv_unfit_now v) (en_unfit (snd s)));
           m = (snd s)\<lparr>en_unfit := u\<rparr>
       in if \<not> is_zero until \<and> cv_unfit_now v < until then
            (RUnfit (map_option (\<lambda>l. l\<lparr>li_retry_after := tsub until (cv_unfit_now v)\<rparr>) lie), lm, m)
          else if cc_bridge cfg \<and> cq_token rq = [] then (RNoToken, lm, m)
          else (case core_attempt cfg renorm rv rq v b m of
              (Inr (failed, err), m') \<Rightarrow> (RError err, lm, note_event (EvRunFailed failed) m')
            | (Inl (up, l), m') \<Rightarrow> (RServed (core_headers cfg rq v (en_retried m') l), lm, core_served v l m')))"

subsection \<open>Leases\<close>

text \<open>The leases granted and given back, in order.\<close>

fun granted :: "'b eevent list \<Rightarrow> pool_lease list" where
  "granted [] = []"
| "granted (EvAcquire m (Some l) # vs) = l # granted vs"
| "granted (v # vs) = granted vs"

fun given_back :: "'b eevent list \<Rightarrow> pool_lease list" where
  "given_back [] = []"
| "given_back (EvRelease l # vs) = l # given_back vs"
| "given_back (EvAbandon l # vs) = l # given_back vs"
| "given_back (v # vs) = given_back vs"

fun chats :: "'b eevent list \<Rightarrow> (pool_lease \<times> chat_options \<times> 'b) list" where
  "chats [] = []"
| "chats (EvChat l opts b # vs) = (l, opts, b) # chats vs"
| "chats (v # vs) = chats vs"

fun failed_runs :: "'b eevent list \<Rightarrow> pool_lease list" where
  "failed_runs [] = []"
| "failed_runs (EvRunFailed (Some l) # vs) = l # failed_runs vs"
| "failed_runs (v # vs) = failed_runs vs"

lemma granted_append [simp]: "granted (xs @ ys) = granted xs @ granted ys"
  by (induction xs rule: granted.induct) auto

lemma given_back_append [simp]: "given_back (xs @ ys) = given_back xs @ given_back ys"
  by (induction xs rule: given_back.induct) auto

lemma chats_append [simp]: "chats (xs @ ys) = chats xs @ chats ys"
  by (induction xs rule: chats.induct) auto

lemma failed_runs_append [simp]: "failed_runs (xs @ ys) = failed_runs xs @ failed_runs ys"
  by (induction xs rule: failed_runs.induct) auto

text \<open>What is leased and not yet given back.\<close>

definition outstanding :: "'b engine \<Rightarrow> pool_lease list" where
  "outstanding m = (if en_released m then [] else case en_leased m of None \<Rightarrow> [] | Some l \<Rightarrow> [l])"

definition balanced :: "'b engine \<Rightarrow> pool_lease list \<Rightarrow> bool" where
  "balanced m out \<longleftrightarrow> granted (en_log m) = given_back (en_log m) @ out"

lemma release_log:
  "given_back (en_log (chat_release g m)) = given_back (en_log m) @ outstanding m"
  "granted (en_log (chat_release g m)) = granted (en_log m)" "chats (en_log (chat_release g m)) = chats (en_log m)"
  "failed_runs (en_log (chat_release g m)) = failed_runs (en_log m)"
  "en_released (chat_release g m)"
  by (auto simp: chat_release_def outstanding_def split: option.split)

lemma released_out: "en_released m \<Longrightarrow> outstanding m = []"
  by (simp add: outstanding_def)

text \<open>The recovery gives the lease of the round back.\<close>

lemma recover_log:
  assumes "recover rd eff l err m = (again, m')"
  shows "given_back (en_log m') = given_back (en_log m) @ outstanding m \<and> granted (en_log m') = granted (en_log m) \<and>
    chats (en_log m') = chats (en_log m) \<and> failed_runs (en_log m') = failed_runs (en_log m) \<and> en_released m'"
  using assms
  by (auto simp: recover_def Let_def release_log outstanding_def split: if_splits option.splits)


lemma note_acquire_log [simp]:
  "given_back (en_log (note_acquire md a m)) = given_back (en_log m)" "chats (en_log (note_acquire md a m)) = chats (en_log m)"
  "failed_runs (en_log (note_acquire md a m)) = failed_runs (en_log m)"
  "granted (en_log (note_acquire md a m)) = granted (en_log m) @ (case snd a of Inl l \<Rightarrow> [l] | Inr e \<Rightarrow> [])"
  by (auto simp: note_acquire_def split: sum.split)

lemma chat_done_simps [simp]:
  "en_log (chat_done eff l m) = en_log m" "en_released (chat_done eff l m)" "en_leased (chat_done eff l m) = en_leased m"
  by (simp_all add: chat_done_def Let_def)

lemma fresh_options_simps:
  assumes "fresh_options rv eff l opts m = (opts', m')"
  shows "en_log m' = en_log m" "en_released m' = en_released m" "en_leased m' = en_leased m"
    "co_model opts' = eff" "co_run opts' = rv_id rv (le_run l)" "co_instance opts' = le_instance l"
    "co_trace opts' = co_trace opts"
  using assms by (auto simp: fresh_options_def next_step_def Let_def split: if_splits)

lemmas fresh_options_state = fresh_options_simps(1-3)

text \<open>
  Which errors are retried once: those of the session, the run or the egress always, an unknown
  one while the client is there; the errors of the account and of the quota never.
\<close>

definition recoverable :: "gerr \<Rightarrow> bool" where
  "recoverable err \<longleftrightarrow> err_is err ErrModelIPLimited \<or> err_is err ErrSessionInvalid \<or> err_is err ErrWaitingRoomRequired \<or> err_is err ErrRunInvalid"

definition surfaced :: "gerr \<Rightarrow> bool" where
  "surfaced err \<longleftrightarrow> err_is err ErrSessionSuperseded \<or> err_is err ErrAuthRejected \<or> err_is err ErrBanned \<or> err_is err ErrRateLimited \<or>
     err_is err ErrIpCapped \<or> err_is err ErrCountryBlocked \<or> err_is err ErrCredits \<or>
     (case as_upstream err of Some e \<Rightarrow> ue_retryable e | None \<Rightarrow> False)"

definition retry_once :: "gerr \<Rightarrow> bool \<Rightarrow> bool" where
  "retry_once err gone \<longleftrightarrow> recoverable err \<or> \<not> surfaced err \<and> \<not> gone"

lemma recoverable_not_sentinel:
  "recoverable err \<Longrightarrow> s \<notin> {ErrModelIPLimited, ErrSessionInvalid, ErrWaitingRoomRequired, ErrRunInvalid} \<Longrightarrow> \<not> err_is err s"
  unfolding recoverable_def using err_is_unique by blast

lemma recover_again:
  assumes "recover rd eff l err m = (again, m')"
  shows "again \<longleftrightarrow> en_attempts m \<le> 1 \<and> retry_once err (rd_gone rd)"
proof (cases "recoverable err")
  case True
  then have "\<not> err_is err ErrSessionSuperseded" by (rule recoverable_not_sentinel) simp
  then show ?thesis using assms True
    by (auto simp: recover_def Let_def retry_once_def recoverable_def split: if_splits)
next
  case False
  then show ?thesis using assms
    by (auto simp: recover_def Let_def retry_once_def recoverable_def surfaced_def split: if_splits option.splits)
qed

text \<open>What a round adds to the log, and how it ends.\<close>

definition opts_for :: "runs_view \<Rightarrow> string \<Rightarrow> string \<Rightarrow> pool_lease \<Rightarrow> chat_options \<Rightarrow> bool" where
  "opts_for rv model trace l opts \<longleftrightarrow> co_model opts = served_model model l \<and> co_run opts = rv_id rv (le_run l) \<and>
     co_instance opts = le_instance l \<and> co_trace opts = trace"

definition round_result :: "('b \<Rightarrow> string \<Rightarrow> 'b option) \<Rightarrow> runs_view \<Rightarrow> string \<Rightarrow> round \<Rightarrow> pool_lease \<Rightarrow> chat_options \<Rightarrow> 'b \<Rightarrow> bool \<Rightarrow>
    'b round_end \<Rightarrow> bool" where
  "round_result renorm rv model rd l opts b first r = (case rd_reply rd of
     Inl up \<Rightarrow> r = Over (Inl (up, l))
   | Inr err \<Rightarrow> if first \<and> retry_once err (rd_gone rd) then
         (case snd (rd_acquire rd) of
            Inr aerr \<Rightarrow> r = Over (Inr (None, aerr))
          | Inl l' \<Rightarrow> (case r of
                Again eff' l'' opts' b' \<Rightarrow> l'' = l' \<and> eff' = served_model model l' \<and>
                  opts_for rv model (co_trace opts) l' opts' \<and> b' = renormalized renorm model eff' b
              | Over x \<Rightarrow> False))
       else r = Over (Inr (None, err)))"

lemma chat_round_result:
  assumes "chat_round renorm rv model rd eff l opts b m = (r, m')"
  shows "round_result renorm rv model rd l opts b (en_attempts m = 0) r"
proof (cases "rd_reply rd")
  case (Inl up)
  then show ?thesis using assms by (simp add: chat_round_def round_result_def Let_def)
next
  case (Inr err)
  obtain again m3 where rec: "recover rd eff l err (chat_failed err (chat_called l opts b m)) = (again, m3)" by fastforce
  have "again \<longleftrightarrow> en_attempts m = 0 \<and> retry_once err (rd_gone rd)" using recover_again [OF rec] by auto
  then show ?thesis using assms Inr rec
    by (auto simp: chat_round_def round_result_def Let_def opts_for_def fresh_options_simps(4-7) split: if_splits sum.splits prod.splits)
qed


text \<open>
  The lease of a round: before it the leases granted are those given back and \<open>l\<close>; after it the
  same holds of the lease the round ends with.
\<close>

definition holding :: "pool_lease \<Rightarrow> 'b engine \<Rightarrow> bool" where
  "holding l m \<longleftrightarrow> \<not> en_released m \<and> en_leased m = Some l \<and> balanced m [l]"

definition round_balance :: "'b round_end \<Rightarrow> 'b engine \<Rightarrow> bool" where
  "round_balance r m = (case r of
     Over (Inl (up, l)) \<Rightarrow> balanced m [l]
   | Over (Inr err) \<Rightarrow> balanced m []
   | Again eff l opts b \<Rightarrow> holding l m)"

lemma chat_round_log:
  assumes "chat_round renorm rv model rd eff l opts b m = (r, m')" "holding l m"
  shows "round_balance r m' \<and> failed_runs (en_log m') = failed_runs (en_log m) \<and>
    chats (en_log m') = chats (en_log m) @ [(l, opts, b)]"
proof (cases "rd_reply rd")
  case (Inl up)
  then show ?thesis using assms
    by (auto simp: chat_round_def round_balance_def holding_def balanced_def)
next
  case (Inr err)
  obtain again m3 where rec: "recover rd eff l err (chat_failed err (chat_called l opts b m)) = (again, m3)" by fastforce
  note logs = recover_log [OF rec]
  have out: "outstanding (chat_failed err (chat_called l opts b m)) = [l]"
    using assms(2) by (simp add: outstanding_def holding_def)
  have m3: "balanced m3 []" "en_released m3" "chats (en_log m3) = chats (en_log m) @ [(l, opts, b)]"
    "failed_runs (en_log m3) = failed_runs (en_log m)"
    using logs out assms(2) by (auto simp: balanced_def holding_def)
  show ?thesis
  proof (cases "again")
    case False
    then show ?thesis using assms(1) Inr rec m3
      by (auto simp: chat_round_def round_balance_def balanced_def release_log released_out)
  next
    case True
    then show ?thesis using assms(1) Inr rec m3
      by (auto simp: chat_round_def round_balance_def balanced_def release_log outstanding_def holding_def Let_def
        fresh_options_state split: sum.splits prod.splits)
  qed
qed


text \<open>The result of the loop, and what it leaves leased.\<close>

definition owed :: "chat_result \<Rightarrow> pool_lease list" where
  "owed res = (case res of Inl (up, l) \<Rightarrow> [l] | Inr err \<Rightarrow> [])"

lemma owed_simps [simp]: "owed (Inl (up, l)) = [l]" "owed (Inr err) = []"
  by (simp_all add: owed_def)

declare chat_loop.simps [simp del]

lemma chat_loop_log:
  assumes "chat_loop renorm rv model env eff l opts b m = (res, m')" "holding l m"
  shows "balanced m' (owed res) \<and> failed_runs (en_log m') = failed_runs (en_log m)"
  using assms
proof (induction renorm rv model env eff l opts b m arbitrary: res m' rule: chat_loop.induct)
  case (1 renorm rv model env eff l opts b m)
  obtain r m1 where rnd: "chat_round renorm rv model (env (en_attempts m)) eff l opts b m = (r, m1)" by fastforce
  note log = chat_round_log [OF rnd 1(3)]
  show ?case
  proof (cases r)
    case (Over x)
    then show ?thesis using 1(2) log rnd
      by (auto simp: chat_loop.simps [of renorm rv model env eff l opts b m] round_balance_def split: sum.splits)
  next
    case (Again eff' l' opts' b')
    have "chat_loop renorm rv model env eff' l' opts' b' m1 = (res, m')"
      using 1(2) rnd Again by (simp add: chat_loop.simps [of renorm rv model env eff l opts b m])
    then show ?thesis using 1(1) [OF rnd [symmetric] Again] log Again by (simp add: round_balance_def)
  qed
qed

lemma chat_attempt_log:
  assumes "chat_attempt renorm rv model acq env b m = (res, m')" "balanced m []"
  shows "balanced m' (owed res) \<and> failed_runs (en_log m') = failed_runs (en_log m)"
proof (cases "snd acq")
  case (Inr err)
  then show ?thesis using assms by (auto simp: chat_attempt_def balanced_def)
next
  case (Inl l)
  obtain st m1 where st: "next_step (le_run l) (note_acquire model acq m) = (st, m1)" by fastforce
  then have "en_log m1 = en_log (note_acquire model acq m)" by (auto simp: next_step_def Let_def)
  then have "holding l (m1\<lparr>en_leased := Some l, en_released := False\<rparr>)" "failed_runs (en_log m1) = failed_runs (en_log m)"
    using assms(2) Inl by (auto simp: holding_def balanced_def)
  then show ?thesis using assms(1) Inl st
    by (auto simp: chat_attempt_def Let_def dest!: chat_loop_log)
qed


subsection \<open>The loop as a straight line\<close>

text \<open>
  What \<open>chatAttempt\<close> is meant to do, without the loop: its result and the chats it sends, each with
  its lease and body.
\<close>

definition attempt_spec :: "('b \<Rightarrow> string \<Rightarrow> 'b option) \<Rightarrow> string \<Rightarrow> pool_lease + gerr \<Rightarrow> round \<Rightarrow> round \<Rightarrow> 'b \<Rightarrow>
    chat_result \<times> (pool_lease \<times> 'b) list" where
  "attempt_spec renorm model acq rd1 rd2 b = (case acq of
     Inr err \<Rightarrow> (Inr (None, err), [])
   | Inl l \<Rightarrow>
       let b1 = renormalized renorm model (served_model model l) b
       in case rd_reply rd1 of
            Inl up \<Rightarrow> (Inl (up, l), [(l, b1)])
          | Inr err \<Rightarrow>
              if \<not> retry_once err (rd_gone rd1) then (Inr (None, err), [(l, b1)])
              else case snd (rd_acquire rd1) of
                  Inr aerr \<Rightarrow> (Inr (None, aerr), [(l, b1)])
                | Inl l' \<Rightarrow>
                    let b2 = renormalized renorm model (served_model model l') b1
                    in (case rd_reply rd2 of Inl up \<Rightarrow> Inl (up, l') | Inr err' \<Rightarrow> Inr (None, err'), [(l, b1), (l', b2)]))"

definition bodies :: "(pool_lease \<times> chat_options \<times> 'b) list \<Rightarrow> (pool_lease \<times> 'b) list" where
  "bodies cs = map (\<lambda>(l, opts, b). (l, b)) cs"

definition options_ok :: "runs_view \<Rightarrow> string \<Rightarrow> string \<Rightarrow> (pool_lease \<times> chat_options \<times> 'b) list \<Rightarrow> bool" where
  "options_ok rv model trace cs = list_all (\<lambda>(l, opts, b). opts_for rv model trace l opts) cs"

lemma chat_loop_second:
  assumes "chat_loop renorm rv model env eff l opts b m = (res, m')" "holding l m" "en_attempts m = 1"
  shows "res = (case rd_reply (env 1) of Inl up \<Rightarrow> Inl (up, l) | Inr err \<Rightarrow> Inr (None, err)) \<and>
    chats (en_log m') = chats (en_log m) @ [(l, opts, b)]"
proof -
  obtain r m1 where rnd: "chat_round renorm rv model (env (en_attempts m)) eff l opts b m = (r, m1)" by fastforce
  show ?thesis
    using assms rnd chat_round_result [OF rnd] chat_round_log [OF rnd assms(2)]
    by (auto simp: chat_loop.simps [of renorm rv model env eff l opts b m] round_result_def split: sum.splits)
qed

lemma chat_loop_first:
  assumes "chat_loop renorm rv model env eff l opts b m = (res, m')" "holding l m" "en_attempts m = 0"
    "chats (en_log m) = []" "opts_for rv model trace l opts" "snd acq = Inl l"
    "b = renormalized renorm model (served_model model l) b0"
  shows "(res, bodies (chats (en_log m'))) = attempt_spec renorm model (snd acq) (env 0) (env 1) b0 \<and>
    options_ok rv model trace (chats (en_log m'))"
proof -
  obtain r m1 where rnd: "chat_round renorm rv model (env (en_attempts m)) eff l opts b m = (r, m1)" by fastforce
  note res = chat_round_result [OF rnd] and log = chat_round_log [OF rnd assms(2)]
  show ?thesis
  proof (cases r)
    case (Over x)
    then have "res = x" "m' = m1"
      using assms(1) rnd by (simp_all add: chat_loop.simps [of renorm rv model env eff l opts b m])
    then show ?thesis using assms(3-) res log Over
      by (auto simp: round_result_def attempt_spec_def bodies_def options_ok_def Let_def split: sum.splits if_splits)
  next
    case (Again eff' l' opts' b')
    then have "chat_loop renorm rv model env eff' l' opts' b' m1 = (res, m')"
      using assms(1) rnd by (simp add: chat_loop.simps [of renorm rv model env eff l opts b m])
    moreover have "holding l' m1" "en_attempts m1 = 1"
      using log chat_round_again [OF rnd [unfolded Again]] Again by (auto simp: round_balance_def)
    ultimately have "res = (case rd_reply (env 1) of Inl up \<Rightarrow> Inl (up, l') | Inr err \<Rightarrow> Inr (None, err)) \<and>
        chats (en_log m') = chats (en_log m1) @ [(l', opts', b')]"
      by (rule chat_loop_second)
    then show ?thesis using assms(3-) res log Again
      by (auto simp: round_result_def attempt_spec_def bodies_def options_ok_def opts_for_def Let_def split: sum.splits if_splits)
  qed
qed


lemma chat_attempt_result:
  fixes b :: 'b
  assumes "chat_attempt renorm rv model acq env b (new_engine u st) = (res, m')"
  shows "(res, bodies (chats (en_log m'))) = attempt_spec renorm model (snd acq) (env 0) (env 1) b \<and>
    options_ok rv model (case snd acq of Inl l \<Rightarrow> rv_trace rv (le_run l) | Inr err \<Rightarrow> []) (chats (en_log m'))"
proof (cases "snd acq")
  case (Inr err)
  then show ?thesis using assms
    by (auto simp: chat_attempt_def attempt_spec_def bodies_def options_ok_def new_engine_def)
next
  case (Inl l)
  let ?eff = "served_model model l"
  obtain n m1 where st: "next_step (le_run l) (note_acquire model acq (new_engine u st :: 'b engine)) = (n, m1)" by fastforce
  then have log: "en_log m1 = en_log (note_acquire model acq (new_engine u st :: 'b engine))" "en_attempts m1 = 0"
    by (auto simp: next_step_def Let_def new_engine_def)
  let ?m = "m1\<lparr>en_leased := Some l, en_released := False\<rparr>"
  have "holding l ?m" "chats (en_log ?m) = []" "en_attempts ?m = 0"
    using log Inl by (auto simp: holding_def balanced_def new_engine_def)
  moreover have "chat_loop renorm rv model env ?eff l (first_options rv ?eff l n) (renormalized renorm model ?eff b) ?m = (res, m')"
    using assms Inl st by (simp add: chat_attempt_def Let_def)
  moreover have "opts_for rv model (rv_trace rv (le_run l)) l (first_options rv ?eff l n)"
    by (simp add: opts_for_def first_options_def)
  ultimately show ?thesis using chat_loop_first Inl by fastforce
qed

lemma attempt_spec_error: "fst (attempt_spec renorm model acq rd1 rd2 b) = Inr (failed, err) \<Longrightarrow> failed = None"
  by (auto simp: attempt_spec_def Let_def split: sum.splits if_splits)

lemma attempt_spec_length: "length (snd (attempt_spec renorm model acq rd1 rd2 b)) \<le> 2"
  by (auto simp: attempt_spec_def Let_def split: sum.splits if_splits)

lemma chat_attempt_summary:
  assumes "chat_attempt renorm rv model acq env b (new_engine u st) = (res, m)"
  shows "balanced m (owed res) \<and> failed_runs (en_log m) = [] \<and> length (chats (en_log m)) \<le> 2 \<and>
    (\<forall>failed err. res = Inr (failed, err) \<longrightarrow> failed = None)"
proof -
  have "balanced (new_engine u st :: 'a engine) []" by (simp add: balanced_def new_engine_def)
  then have "balanced m (owed res) \<and> failed_runs (en_log m) = failed_runs (en_log (new_engine u st :: 'a engine))"
    using chat_attempt_log [OF assms] by simp
  moreover have eq: "(res, bodies (chats (en_log m))) = attempt_spec renorm model (snd acq) (env 0) (env 1) b"
    using chat_attempt_result [OF assms] by simp
  have "fst (attempt_spec renorm model (snd acq) (env 0) (env 1) b) = res"
    "snd (attempt_spec renorm model (snd acq) (env 0) (env 1) b) = bodies (chats (en_log m))"
    by (simp_all add: eq [symmetric] del: One_nat_def)
  moreover have "length (bodies (chats (en_log m))) = length (chats (en_log m))" by (simp add: bodies_def)
  ultimately show ?thesis using attempt_spec_error attempt_spec_length by (metis en_log_new failed_runs.simps(1))
qed

text \<open>The engine as \<open>chatCore\<close> hands it to \<open>chatAttempt\<close>: only the unfit marks may have changed.\<close>

lemma chat_core_log:
  assumes "chat_core cfg renorm rv rq v b (lm, new_engine u st) = (resp, lm', m)"
  shows "balanced m [] \<and> failed_runs (en_log m) = [] \<and> length (chats (en_log m)) \<le> 2"
proof -
  have same: "(new_engine u st :: 'a engine)\<lparr>en_unfit := u'\<rparr> = new_engine u' st" for u' :: unfit_registry
    by (simp add: new_engine_def)
  have start: "balanced (new_engine u' st :: 'a engine) []" "failed_runs (en_log (new_engine u' st :: 'a engine)) = []"
    "chats (en_log (new_engine u' st :: 'a engine)) = []" for u' by (simp_all add: balanced_def new_engine_def)
  consider u' where "m = new_engine u' st"
    | u' up l m' where "core_attempt cfg renorm rv rq v b (new_engine u' st) = (Inl (up, l), m')" "m = core_served v l m'"
    | u' failed err m' where "core_attempt cfg renorm rv rq v b (new_engine u' st) = (Inr (failed, err), m')"
        "m = note_event (EvRunFailed failed) m'"
    using assms by (auto simp: chat_core_def same Let_def split: prod.splits bool.splits if_splits sum.splits)
  then show ?thesis
  proof cases
    case 1
    then show ?thesis using start by simp
  next
    case 2
    then show ?thesis
      by (auto simp: core_attempt_def Let_def core_served_def balanced_def dest!: chat_attempt_summary)
  next
    case 3
    then show ?thesis by (auto simp: core_attempt_def Let_def balanced_def dest!: chat_attempt_summary)
  qed
qed


subsection \<open>Properties\<close>

text \<open>
  C25: every lease a completion request acquires is given back, once and in the order acquired:
  released, or abandoned when the client is gone.  It holds whatever the acquires, the chats and the
  client do, on every return of the handler.
\<close>

theorem every_lease_given_back:
  "granted (en_log (snd (snd (chat_core cfg renorm rv rq v b (lm, new_engine u st))))) =
   given_back (en_log (snd (snd (chat_core cfg renorm rv rq v b (lm, new_engine u st)))))"
proof -
  obtain resp lm' m where c: "chat_core cfg renorm rv rq v b (lm, new_engine u st) = (resp, lm', m)" by (metis prod.exhaust)
  show ?thesis using chat_core_log [OF c] by (simp add: c balanced_def)
qed

text \<open>
  C26: \<open>chatAttempt\<close> chats at most twice and returns what the straight-line description says: the
  second chat only after a first error that is worth a retry and with a new lease, the error of the
  last chat or of the acquire otherwise.  The first chat carries the caller's body, rewritten when its
  lease is for another model than the one requested; the second carries the body of the first,
  rewritten only when the new lease is for another model than the one requested, so that after a
  fallback it can keep the fallback body (\<open>retry_keeps_fallback_body\<close>).
\<close>

theorem chat_attempt_meets_spec:
  "(fst (chat_attempt renorm rv model acq env b (new_engine u st)),
    bodies (chats (en_log (snd (chat_attempt renorm rv model acq env b (new_engine u st)))))) =
   attempt_spec renorm model (snd acq) (env 0) (env 1) b"
proof -
  obtain res m where c: "chat_attempt renorm rv model acq env b (new_engine u st) = (res, m)" by fastforce
  show ?thesis using chat_attempt_result [OF c] by (simp add: c del: One_nat_def)
qed

text \<open>
  C27: every chat of a request carries the model, the run and the session instance of the lease it
  is sent with, but all of them the trace id of the run of the first lease: a retry on a fresh run
  goes upstream under the trace of the run it replaced.
\<close>

theorem chat_options_follow_lease:
  "options_ok rv model (case snd acq of Inl l \<Rightarrow> rv_trace rv (le_run l) | Inr err \<Rightarrow> [])
     (chats (en_log (snd (chat_attempt renorm rv model acq env b (new_engine u st)))))"
proof -
  obtain res m where c: "chat_attempt renorm rv model acq env b (new_engine u st) = (res, m)" by fastforce
  show ?thesis using chat_attempt_result [OF c] by (simp add: c)
qed

text \<open>
  No completion request marks a run failed.  \<open>chatAttempt\<close> returns no lease with an error, so
  the call of \<open>MarkRunFailed\<close> after a failed chat never finds one, and the run whose chat died on a
  terminal error is finished as completed.
\<close>

theorem failed_chat_marks_no_run:
  "failed_runs (en_log (snd (snd (chat_core cfg renorm rv rq v b (lm, new_engine u st))))) = []"
proof -
  obtain resp lm' m where c: "chat_core cfg renorm rv rq v b (lm, new_engine u st) = (resp, lm', m)" by (metis prod.exhaust)
  show ?thesis using chat_core_log [OF c] by (simp add: c)
qed

text \<open>
  C28: a request whose first lease was for a fallback model and whose retry gets a lease for the
  model it asked for sends the body of the fallback model with the lease and options of the model
  asked for: the body is rewritten for a model other than the requested one only.
\<close>

theorem retry_keeps_fallback_body:
  assumes "snd acq = Inl l" "served_model model l \<noteq> model" "renorm b (served_model model l) = Some bf"
    and "rd_reply (env 0) = Inr err" "retry_once err (rd_gone (env 0))"
    and "snd (rd_acquire (env 0)) = Inl l'" "served_model model l' = model"
  shows "bodies (chats (en_log (snd (chat_attempt renorm rv model acq env b (new_engine u st))))) = [(l, bf), (l', bf)]"
proof -
  obtain res m where c: "chat_attempt renorm rv model acq env b (new_engine u st) = (res, m)" by fastforce
  have "(res, bodies (chats (en_log m))) = attempt_spec renorm model (snd acq) (env 0) (env 1) b"
    using chat_attempt_result [OF c] by simp
  then show ?thesis using assms by (auto simp: c attempt_spec_def renormalized_def Let_def)
qed

text \<open>A request for \<open>m\<close> served by its fallback \<open>f\<close>, whose session ends; the bodies are model names.\<close>

definition lease_for :: "string \<Rightarrow> nat \<Rightarrow> pool_lease" where
  "lease_for model r = \<lparr>le_token = 0, le_model = model, le_agent = ''base'', le_run = r, le_instance = ''i'',
     le_fallback = [], le_entry = 0, le_at = 0\<rparr>"

definition fallback_then_model :: "nat \<Rightarrow> round" where
  "fallback_then_model k = \<lparr>rd_reply = (if k = 0 then Inr (EWrap ErrSessionInvalid ''gone'') else Inl ''ok''), rd_gone = False,
     rd_now = 0, rd_acquire = (False, Inl (lease_for ''m'' 1))\<rparr>"

theorem retry_keeps_fallback_body_witness:
  "bodies (chats (en_log (snd (chat_attempt (\<lambda>b m. Some m) \<lparr>rv_id = (\<lambda>r. ''r''), rv_trace = (\<lambda>r. ''t'')\<rparr> ''m''
     (True, Inl (lease_for ''f'' 0)) fallback_then_model ''m'' (new_engine [] (\<lambda>r. 0)))))) =
   [(lease_for ''f'' 0, ''f''), (lease_for ''m'' 1, ''f'')]"
  by (rule retry_keeps_fallback_body [where err = "EWrap ErrSessionInvalid ''gone''"])
    (simp_all add: lease_for_def served_model_def fallback_then_model_def retry_once_def recoverable_def)

end
