(* ===== verification/ReasoningCache.thy ===== *)
theory ReasoningCache
  imports Prelude GoTime GoText
begin

text \<open>
  \<open>internal/reasoningcache/cache.go\<close>: the reasoning text of earlier completions, by tool-call id and
  by a hash of content and tool calls, bounded in number and age.

  An \<open>*Entry\<close> is a pointer into \<open>rc_heap\<close>; a node of the list is the pointer of its entry with the
  keys it was stored under, so \<open>node.element\<close> is not nil exactly when the list holds the node.  The
  list has its front first.  A lookup that finds an expired entry gives the read lock up and takes
  the write lock: these are two sections, between which other goroutines may run.
\<close>

record centry =
  ce_reasoning :: string
  ce_signature :: string
  ce_model :: string
  ce_created :: gotime

record cache_node =
  cn_ids :: "string list"
  cn_hash :: string

record rcache =
  rc_heap :: "ptr \<Rightarrow> centry"
  rc_next :: ptr
  rc_by_id :: "(string \<times> ptr) list"
  rc_by_hash :: "(string \<times> ptr) list"
  rc_nodes :: "(ptr \<times> cache_node) list"
  rc_lru :: "(ptr \<times> cache_node) list"
  rc_max :: int
  rc_ttl :: duration

definition default_max_entries :: int where "default_max_entries = 10000"
definition default_ttl :: duration where "default_ttl = 2 * hour"

definition no_entry :: centry where
  "no_entry = \<lparr>ce_reasoning = [], ce_signature = [], ce_model = [], ce_created = zero_time\<rparr>"

definition new_cache :: "int \<Rightarrow> duration \<Rightarrow> rcache" where
  "new_cache maxe ttl = \<lparr>rc_heap = (\<lambda>p. no_entry), rc_next = 0, rc_by_id = [], rc_by_hash = [], rc_nodes = [], rc_lru = [],
     rc_max = (if maxe \<le> 0 then default_max_entries else maxe), rc_ttl = (if ttl \<le> 0 then default_ttl else ttl)\<rparr>"

definition hash_key :: "string \<Rightarrow> string \<Rightarrow> string" where
  "hash_key content json = (if content = [] \<and> json = [] then [] else hex_encode (sha256 (content @ json)))"

subsection \<open>Eviction\<close>

text \<open>A key is deleted only while it leads to the entry of the node.\<close>

definition drop_keys :: "ptr \<Rightarrow> string list \<Rightarrow> (string \<times> ptr) list \<Rightarrow> (string \<times> ptr) list" where
  "drop_keys p ks m = foldl (\<lambda>m k. if map_of m k = Some p then AList.delete k m else m) m ks"

definition hash_keys :: "cache_node \<Rightarrow> string list" where
  "hash_keys n = (if cn_hash n \<noteq> [] then [cn_hash n] else [])"

definition evict_node :: "ptr \<times> cache_node \<Rightarrow> rcache \<Rightarrow> rcache" where
  "evict_node pn c = (case pn of (p, n) \<Rightarrow>
     c\<lparr>rc_lru := filter (\<lambda>q. fst q \<noteq> p) (rc_lru c),
       rc_by_id := drop_keys p (cn_ids n) (rc_by_id c), rc_by_hash := drop_keys p (hash_keys n) (rc_by_hash c),
       rc_nodes := AList.delete p (rc_nodes c)\<rparr>)"

definition expired :: "gotime \<Rightarrow> rcache \<Rightarrow> ptr \<Rightarrow> bool" where
  "expired now c p \<longleftrightarrow> 0 < rc_ttl c \<and> rc_ttl c < tsub now (ce_created (rc_heap c p))"

text \<open>The sweep from the back of the list, which stops at the first entry that is not too old.\<close>

fun evict_expired :: "gotime \<Rightarrow> (ptr \<times> cache_node) list \<Rightarrow> rcache \<Rightarrow> rcache" where
  "evict_expired now [] c = c"
| "evict_expired now (n # ns) c = (if expired now c (fst n) then evict_expired now ns (evict_node n c) else c)"

function evict_over :: "rcache \<Rightarrow> rcache" where
  "evict_over c = (if rc_max c \<le> int (length (rc_lru c)) \<and> 0 < length (rc_lru c)
     then evict_over (evict_node (last (rc_lru c)) c) else c)"
  by pat_completeness auto
termination
  by (relation "measure (\<lambda>c. length (rc_lru c))")
    (auto simp: evict_node_def split: prod.split intro!: length_filter_less dest: last_in_set)

declare evict_over.simps [simp del]

subsection \<open>Operations\<close>

fun valid_ids :: "string list \<Rightarrow> string list \<Rightarrow> string list" where
  "valid_ids seen [] = []"
| "valid_ids seen (tid # ids) = (let tid = strings_trim tid in
     if tid \<noteq> [] \<and> tid \<notin> set seen then tid # valid_ids (tid # seen) ids else valid_ids seen ids)"

definition bind_keys :: "ptr \<Rightarrow> string list \<Rightarrow> (string \<times> ptr) list \<Rightarrow> (string \<times> ptr) list" where
  "bind_keys p ks m = foldl (\<lambda>m k. AList.update k p m) m ks"

definition push_entry :: "cache_node \<Rightarrow> centry \<Rightarrow> rcache \<Rightarrow> rcache" where
  "push_entry n e c = (let p = rc_next c in
     c\<lparr>rc_heap := (rc_heap c)(p := e), rc_next := p + 1, rc_lru := (p, n) # rc_lru c,
       rc_nodes := AList.update p n (rc_nodes c),
       rc_by_id := bind_keys p (cn_ids n) (rc_by_id c), rc_by_hash := bind_keys p (hash_keys n) (rc_by_hash c)\<rparr>)"

definition sweep :: "gotime \<Rightarrow> rcache \<Rightarrow> rcache" where
  "sweep now c = (if 0 < rc_ttl c then evict_expired now (rev (rc_lru c)) c else c)"

definition cache_put :: "gotime \<Rightarrow> string list \<Rightarrow> string \<Rightarrow> string \<Rightarrow> string \<Rightarrow> string \<Rightarrow> string \<Rightarrow> rcache \<Rightarrow> rcache" where
  "cache_put now ids content json reasoning sig model c = (if reasoning = [] \<and> sig = [] then c
     else push_entry \<lparr>cn_ids = valid_ids [] ids, cn_hash = hash_key content json\<rparr>
       \<lparr>ce_reasoning = reasoning, ce_signature = sig, ce_model = model, ce_created = now\<rparr> (evict_over (sweep now c)))"

definition cache_prune :: "gotime \<Rightarrow> rcache \<Rightarrow> rcache" where
  "cache_prune now c = (if rc_ttl c \<le> 0 then c else evict_expired now (rev (rc_lru c)) c)"

definition cache_len :: "rcache \<Rightarrow> nat" where "cache_len c = length (rc_lru c)"

text \<open>The section of a lookup under the read lock.\<close>

datatype peeked = Miss | TooOld | Hit centry

definition peek :: "gotime \<Rightarrow> (string \<times> ptr) list \<Rightarrow> string \<Rightarrow> rcache \<Rightarrow> peeked" where
  "peek now ix key c = (case map_of ix key of None \<Rightarrow> Miss | Some p \<Rightarrow> if expired now c p then TooOld else Hit (rc_heap c p))"

text \<open>The sections under the write lock.\<close>

definition evict_id :: "gotime \<Rightarrow> string \<Rightarrow> rcache \<Rightarrow> rcache" where
  "evict_id now tid c = (case map_of (rc_by_id c) tid of None \<Rightarrow> c | Some p \<Rightarrow>
     if expired now c p then
       (case map_of (rc_nodes c) p of Some n \<Rightarrow> evict_node (p, n) c | None \<Rightarrow> c\<lparr>rc_by_id := AList.delete tid (rc_by_id c)\<rparr>)
     else c)"

definition evict_hash :: "gotime \<Rightarrow> string \<Rightarrow> rcache \<Rightarrow> rcache" where
  "evict_hash now h c = (case map_of (rc_by_hash c) h of None \<Rightarrow> c | Some p \<Rightarrow>
     if expired now c p then
       (case map_of (rc_nodes c) p of Some n \<Rightarrow> evict_node (p, n) c | None \<Rightarrow> c\<lparr>rc_by_hash := AList.delete h (rc_by_hash c)\<rparr>)
     else c)"

text \<open>\<open>GetEntryByToolID\<close> and \<open>GetEntryByHash\<close>, with the instants of their two sections.\<close>

definition get_entry_by_id :: "gotime \<Rightarrow> gotime \<Rightarrow> string \<Rightarrow> rcache \<Rightarrow> centry option \<times> rcache" where
  "get_entry_by_id t1 t2 tool c = (let tid = strings_trim tool in if tid = [] then (None, c) else
     (case peek t1 (rc_by_id c) tid c of Miss \<Rightarrow> (None, c) | TooOld \<Rightarrow> (None, evict_id t2 tid c) | Hit e \<Rightarrow> (Some e, c)))"

definition get_entry_by_hash :: "gotime \<Rightarrow> gotime \<Rightarrow> string \<Rightarrow> string \<Rightarrow> rcache \<Rightarrow> centry option \<times> rcache" where
  "get_entry_by_hash t1 t2 content json c = (let h = hash_key content json in if h = [] then (None, c) else
     (case peek t1 (rc_by_hash c) h c of Miss \<Rightarrow> (None, c) | TooOld \<Rightarrow> (None, evict_hash t2 h c) | Hit e \<Rightarrow> (Some e, c)))"

text \<open>\<open>GetByToolID\<close> and \<open>GetByHash\<close> return two fields of the entry.\<close>

definition texts_of :: "centry option \<Rightarrow> (string \<times> string) option" where
  "texts_of e = map_option (\<lambda>e. (ce_reasoning e, ce_signature e)) e"

definition get_by_tool_id :: "gotime \<Rightarrow> gotime \<Rightarrow> string \<Rightarrow> rcache \<Rightarrow> (string \<times> string) option \<times> rcache" where
  "get_by_tool_id t1 t2 tool c = (let (e, c') = get_entry_by_id t1 t2 tool c in (texts_of e, c'))"

definition get_by_hash :: "gotime \<Rightarrow> gotime \<Rightarrow> string \<Rightarrow> string \<Rightarrow> rcache \<Rightarrow> (string \<times> string) option \<times> rcache" where
  "get_by_hash t1 t2 content json c = (let (e, c') = get_entry_by_hash t1 t2 content json c in (texts_of e, c'))"

definition cache_get :: "gotime \<Rightarrow> gotime \<Rightarrow> string \<Rightarrow> string \<Rightarrow> string \<Rightarrow> rcache \<Rightarrow> (string \<times> string) option \<times> rcache" where
  "cache_get t1 t2 tool content json c = (let (r, c) = (if strings_trim tool \<noteq> [] then get_by_tool_id t1 t2 tool c else (None, c)) in
     case r of Some x \<Rightarrow> (Some x, c)
     | None \<Rightarrow> if content \<noteq> [] \<or> json \<noteq> [] then get_by_hash t1 t2 content json c else (None, c))"


subsection \<open>Well-formed caches\<close>

lemma map_of_drop_keys [gomap_simps]:
  "map_of (drop_keys p ks m) k = (if k \<in> set ks \<and> map_of m k = Some p then None else map_of m k)"
  unfolding drop_keys_def by (induction ks arbitrary: m) (auto simp: gomap_simps)

lemma map_of_bind_keys [gomap_simps]:
  "map_of (bind_keys p ks m) k = (if k \<in> set ks then Some p else map_of m k)"
  unfolding bind_keys_def by (induction ks arbitrary: m) (auto simp: gomap_simps)

lemma gomap_drop_keys [gomap_intros]: "gomap m \<Longrightarrow> gomap (drop_keys p ks m)"
  unfolding drop_keys_def by (induction ks arbitrary: m) (auto intro: gomap_intros)

lemma gomap_bind_keys [gomap_intros]: "gomap m \<Longrightarrow> gomap (bind_keys p ks m)"
  unfolding bind_keys_def by (induction ks arbitrary: m) (auto intro: gomap_intros)

text \<open>
  The list has the newer entries first, the map of nodes is the list, a key of an index leads to
  an entry stored under it, and no more entries are kept than allowed.
\<close>

definition keys_lead :: "(cache_node \<Rightarrow> string list) \<Rightarrow> (string \<times> ptr) list \<Rightarrow> (ptr \<times> cache_node) list \<Rightarrow> bool" where
  "keys_lead keys m ns \<longleftrightarrow> gomap m \<and> (\<forall>k p. map_of m k = Some p \<longrightarrow> (\<exists>n. (p, n) \<in> set ns \<and> k \<in> set (keys n)))"

definition cache_wf :: "rcache \<Rightarrow> bool" where
  "cache_wf c \<longleftrightarrow> sorted_wrt (\<lambda>a b. fst b < fst a) (rc_lru c) \<and> (\<forall>n \<in> set (rc_lru c). fst n < rc_next c) \<and>
     gomap (rc_nodes c) \<and> set (rc_nodes c) = set (rc_lru c) \<and>
     keys_lead cn_ids (rc_by_id c) (rc_lru c) \<and> keys_lead hash_keys (rc_by_hash c) (rc_lru c) \<and>
     0 < rc_max c \<and> 0 < rc_ttl c \<and> int (length (rc_lru c)) \<le> rc_max c"

lemma keys_lead_drop:
  assumes "keys_lead keys m ns" "\<forall>n'. (p, n') \<in> set ns \<longrightarrow> n' = n"
  shows "keys_lead keys (drop_keys p (keys n) m) (filter (\<lambda>q. fst q \<noteq> p) ns)"
proof -
  have "\<exists>n'. (q, n') \<in> set (filter (\<lambda>q. fst q \<noteq> p) ns) \<and> k \<in> set (keys n')"
    if kq: "map_of (drop_keys p (keys n) m) k = Some q" for k q
  proof -
    have m: "map_of m k = Some q" "k \<in> set (keys n) \<Longrightarrow> q \<noteq> p" using kq by (auto simp: map_of_drop_keys split: if_splits)
    then obtain n' where n': "(q, n') \<in> set ns" "k \<in> set (keys n')" using assms(1) unfolding keys_lead_def by blast
    have "q \<noteq> p" using n' m(2) assms(2) by auto
    then show ?thesis using n' by auto
  qed
  then show ?thesis using assms(1) by (auto simp: keys_lead_def intro: gomap_intros)
qed

lemma keys_lead_bind:
  assumes "keys_lead keys m ns"
  shows "keys_lead keys (bind_keys p (keys n) m) ((p, n) # ns)"
  using assms unfolding keys_lead_def map_of_bind_keys
  by (auto intro: gomap_intros split: if_splits)

lemma lru_node_unique:
  "sorted_wrt (\<lambda>a b. fst b < fst a) ns \<Longrightarrow> (p, n) \<in> set ns \<Longrightarrow> (p, n') \<in> set ns \<Longrightarrow> n = (n' :: 'a)" for ns :: "(nat \<times> 'a) list"
  by (induction ns) auto

lemma evict_node_simps [simp]:
  "rc_lru (evict_node pn c) = filter (\<lambda>q. fst q \<noteq> fst pn) (rc_lru c)" "rc_heap (evict_node pn c) = rc_heap c"
  "rc_next (evict_node pn c) = rc_next c" "rc_max (evict_node pn c) = rc_max c" "rc_ttl (evict_node pn c) = rc_ttl c"
  "rc_by_id (evict_node pn c) = drop_keys (fst pn) (cn_ids (snd pn)) (rc_by_id c)"
  "rc_by_hash (evict_node pn c) = drop_keys (fst pn) (hash_keys (snd pn)) (rc_by_hash c)"
  "rc_nodes (evict_node pn c) = AList.delete (fst pn) (rc_nodes c)"
  by (simp_all add: evict_node_def split: prod.split)

lemma evict_node_wf:
  assumes "cache_wf c" "pn \<in> set (rc_lru c)"
  shows "cache_wf (evict_node pn c)"
proof -
  have uniq: "\<forall>n'. (fst pn, n') \<in> set (rc_lru c) \<longrightarrow> n' = snd pn"
    using assms lru_node_unique [of "rc_lru c" "fst pn"] by (auto simp: cache_wf_def)
  have "int (length (rc_lru (evict_node pn c))) \<le> int (length (rc_lru c))" by simp
  then have "int (length (rc_lru (evict_node pn c))) \<le> rc_max c" using assms(1) unfolding cache_wf_def by linarith
  moreover have "set (rc_nodes (evict_node pn c)) = set (rc_lru (evict_node pn c))" "gomap (rc_nodes (evict_node pn c))"
    using assms(1) by (auto simp: cache_wf_def set_delete intro: gomap_intros)
  moreover have "keys_lead cn_ids (rc_by_id (evict_node pn c)) (rc_lru (evict_node pn c))"
    "keys_lead hash_keys (rc_by_hash (evict_node pn c)) (rc_lru (evict_node pn c))"
    using assms(1) uniq unfolding cache_wf_def evict_node_simps by (auto intro: keys_lead_drop)
  ultimately show ?thesis using assms(1) unfolding cache_wf_def by (simp add: sorted_wrt_filter)
qed

lemma evict_expired_wf:
  "cache_wf c \<Longrightarrow> set ns \<subseteq> set (rc_lru c) \<Longrightarrow> distinct (map fst ns) \<Longrightarrow> cache_wf (evict_expired now ns c)"
proof (induction ns arbitrary: c)
  case (Cons n ns)
  have "cache_wf (evict_node n c)" using Cons.prems by (auto intro: evict_node_wf)
  moreover have "set ns \<subseteq> set (rc_lru (evict_node n c))"
  proof
    fix x assume x: "x \<in> set ns"
    then have "fst x \<in> fst ` set ns" by simp
    moreover have "fst n \<notin> fst ` set ns" using Cons.prems(3) by simp
    ultimately have "fst x \<noteq> fst n" by metis
    then show "x \<in> set (rc_lru (evict_node n c))" using Cons.prems(2) x by auto
  qed
  ultimately show ?case using Cons by simp
qed simp

lemma desc_distinct: "sorted_wrt (\<lambda>a b. fst b < fst a) ns \<Longrightarrow> distinct (map fst ns)" for ns :: "(nat \<times> 'a) list"
  by (induction ns) fastforce+

lemma lru_distinct: "cache_wf c \<Longrightarrow> distinct (map fst (rc_lru c))"
  unfolding cache_wf_def by (rule desc_distinct) blast

lemma sweep_wf: "cache_wf c \<Longrightarrow> cache_wf (sweep now c)"
  unfolding sweep_def using lru_distinct by (auto intro!: evict_expired_wf simp: rev_map [symmetric])

lemma evict_over_induct:
  assumes "P c" "\<And>c. P c \<Longrightarrow> rc_lru c \<noteq> [] \<Longrightarrow> P (evict_node (last (rc_lru c)) c)"
  shows "P (evict_over c)"
  using assms(1)
proof (induction c rule: evict_over.induct)
  case (1 c)
  then show ?case using assms(2) by (subst evict_over.simps) auto
qed

lemma evict_over_wf: "cache_wf c \<Longrightarrow> cache_wf (evict_over c)"
  by (rule evict_over_induct) (auto intro: evict_node_wf)

lemma evict_over_room:
  "0 < rc_max c \<Longrightarrow> int (length (rc_lru (evict_over c))) < rc_max c"
proof (induction c rule: evict_over.induct)
  case (1 c)
  then show ?case by (subst evict_over.simps) auto
qed

lemma push_entry_wf:
  assumes "cache_wf c" "int (length (rc_lru c)) < rc_max c"
  shows "cache_wf (push_entry n e c)"
proof -
  have "gomap (AList.update (rc_next c) n (rc_nodes c))" using assms(1) by (auto simp: cache_wf_def intro: gomap_intros)
  moreover have "map_of (rc_nodes c) (rc_next c) = None"
    using assms(1) by (force simp: cache_wf_def map_of_eq_None_iff)
  then have "set (AList.update (rc_next c) n (rc_nodes c)) = insert (rc_next c, n) (set (rc_nodes c))"
    by (simp add: update_absent_append)
  ultimately show ?thesis using assms unfolding cache_wf_def push_entry_def Let_def
    by (auto intro: keys_lead_bind)
qed

lemma key_has_node:
  assumes "cache_wf c" "map_of (rc_by_id c) k = Some p \<or> map_of (rc_by_hash c) k = Some p"
  shows "\<exists>n. map_of (rc_nodes c) p = Some n \<and> (p, n) \<in> set (rc_lru c)"
proof -
  obtain n where "(p, n) \<in> set (rc_lru c)" using assms unfolding cache_wf_def keys_lead_def by blast
  then show ?thesis using assms(1) by (auto simp: cache_wf_def gomap_map_of)
qed

lemma evict_key_cases:
  assumes "cache_wf c"
  shows "evict_id now k c = c \<or> (\<exists>pn \<in> set (rc_lru c). expired now c (fst pn) \<and> evict_id now k c = evict_node pn c)"
    "evict_hash now k c = c \<or> (\<exists>pn \<in> set (rc_lru c). expired now c (fst pn) \<and> evict_hash now k c = evict_node pn c)"
  using key_has_node [OF assms, of k] by (fastforce simp: evict_id_def evict_hash_def split: option.split)+

lemma evict_key_wf:
  "cache_wf c \<Longrightarrow> cache_wf (evict_id now k c)" "cache_wf c \<Longrightarrow> cache_wf (evict_hash now k c)"
  using evict_key_cases [of c now k] evict_node_wf [of c] by auto

text \<open>The sections that write, in any order.\<close>

datatype cache_op =
    CPut "string list" string string string string string
  | CEvictId string
  | CEvictHash string
  | CPrune

fun cache_step :: "gotime \<times> cache_op \<Rightarrow> rcache \<Rightarrow> rcache" where
  "cache_step (t, CPut ids content json reasoning sig model) c = cache_put t ids content json reasoning sig model c"
| "cache_step (t, CEvictId k) c = evict_id t k c"
| "cache_step (t, CEvictHash k) c = evict_hash t k c"
| "cache_step (t, CPrune) c = cache_prune t c"

lemma push_after_evict_wf: "cache_wf c \<Longrightarrow> cache_wf (push_entry n e (evict_over (sweep now c)))"
proof (rule push_entry_wf)
  assume "cache_wf c"
  then have "cache_wf (sweep now c)" by (rule sweep_wf)
  then show "cache_wf (evict_over (sweep now c))" by (rule evict_over_wf)
  have "rc_max (evict_over c') = rc_max c'" for c'
    by (rule evict_over_induct [where P = "\<lambda>c. rc_max c = rc_max c'"]) simp_all
  then show "int (length (rc_lru (evict_over (sweep now c)))) < rc_max (evict_over (sweep now c))"
    using evict_over_room [of "sweep now c"] \<open>cache_wf (sweep now c)\<close> by (simp add: cache_wf_def)
qed

lemma prune_sweep: "cache_prune now c = sweep now c"
  by (simp add: cache_prune_def sweep_def)

lemma cache_step_wf: "cache_wf c \<Longrightarrow> cache_wf (cache_step op c)"
  by (cases "(op, c)" rule: cache_step.cases)
    (auto simp: cache_put_def prune_sweep push_after_evict_wf sweep_wf evict_key_wf)

lemma new_cache_wf: "cache_wf (new_cache maxe ttl)"
  by (simp add: cache_wf_def new_cache_def keys_lead_def default_max_entries_def default_ttl_def)

definition cache_run :: "(gotime \<times> cache_op) list \<Rightarrow> rcache \<Rightarrow> rcache" where
  "cache_run ops c = fold cache_step ops c"

lemma cache_run_wf: "cache_wf c \<Longrightarrow> cache_wf (cache_run ops c)"
  unfolding cache_run_def by (induction ops arbitrary: c) (auto simp: cache_step_wf)


subsection \<open>What a lookup returns\<close>

text \<open>
  The promise of the cache: the log of the completions stored, newest first; a lookup at \<open>now\<close>
  finds the newest of the last \<open>maxe\<close> that has the key and is not too old.
\<close>

type_synonym stored = "cache_node \<times> centry"

definition fresh :: "duration \<Rightarrow> gotime \<Rightarrow> stored \<Rightarrow> bool" where
  "fresh ttl now q \<longleftrightarrow> tsub now (ce_created (snd q)) \<le> ttl"

definition recalled :: "(cache_node \<Rightarrow> string list) \<Rightarrow> int \<Rightarrow> duration \<Rightarrow> gotime \<Rightarrow> stored list \<Rightarrow> string \<Rightarrow> centry option" where
  "recalled keys maxe ttl now st k = map_option snd (find (\<lambda>q. k \<in> set (keys (fst q)) \<and> fresh ttl now q) (take (nat maxe) st))"

fun stored_by :: "gotime \<times> cache_op \<Rightarrow> stored list" where
  "stored_by (t, CPut ids content json reasoning sig model) = (if reasoning = [] \<and> sig = [] then []
     else [(\<lparr>cn_ids = valid_ids [] ids, cn_hash = hash_key content json\<rparr>,
       \<lparr>ce_reasoning = reasoning, ce_signature = sig, ce_model = model, ce_created = t\<rparr>)])"
| "stored_by (t, v) = []"

definition stored_log :: "(gotime \<times> cache_op) list \<Rightarrow> stored list" where
  "stored_log ops = rev (concat (map stored_by ops))"

text \<open>The list of a cache as stored completions, and the relation to the log at \<open>now\<close>.\<close>

definition entries :: "rcache \<Rightarrow> stored list" where
  "entries c = map (\<lambda>(p, n). (n, rc_heap c p)) (rc_lru c)"

definition newest_key :: "gotime \<Rightarrow> (cache_node \<Rightarrow> string list) \<Rightarrow> (string \<times> ptr) list \<Rightarrow> rcache \<Rightarrow> bool" where
  "newest_key now keys m c \<longleftrightarrow> (\<forall>k. case map_of m k of
     Some p \<Rightarrow> \<forall>(q, n) \<in> set (rc_lru c). k \<in> set (keys n) \<longrightarrow> q \<le> p
   | None \<Rightarrow> \<forall>(q, n) \<in> set (rc_lru c). k \<in> set (keys n) \<longrightarrow> expired now c q)"

definition by_age :: "gotime \<Rightarrow> rcache \<Rightarrow> bool" where
  "by_age now c \<longleftrightarrow> (\<forall>a \<in> fst ` set (rc_lru c). ce_created (rc_heap c a) \<le> now \<and>
     (\<forall>b \<in> fst ` set (rc_lru c). a \<le> b \<longrightarrow> ce_created (rc_heap c a) \<le> ce_created (rc_heap c b)))"

definition newest_first :: "stored list \<Rightarrow> bool" where
  "newest_first st \<longleftrightarrow> sorted_wrt (\<lambda>a b. ce_created (snd b) \<le> ce_created (snd a)) st"

definition cache_refines :: "gotime \<Rightarrow> rcache \<Rightarrow> stored list \<Rightarrow> bool" where
  "cache_refines now c st \<longleftrightarrow> cache_wf c \<and> by_age now c \<and> newest_key now cn_ids (rc_by_id c) c \<and> newest_key now hash_keys (rc_by_hash c) c \<and>
     newest_first st \<and> (\<forall>q \<in> set st. ce_created (snd q) \<le> now) \<and>
     filter (fresh (rc_ttl c) now) (entries c) = filter (fresh (rc_ttl c) now) (take (nat (rc_max c)) st)"

lemma expired_mono:
  "expired now c p \<Longrightarrow> now \<le> now' \<Longrightarrow> ce_created (rc_heap c q) \<le> ce_created (rc_heap c p) \<Longrightarrow> expired now' c q"
  by (auto simp: expired_def tsub_def)

lemma fresh_mono:
  "fresh ttl now' q \<Longrightarrow> now \<le> now' \<Longrightarrow> ce_created (snd q) \<le> ce_created (snd r) \<Longrightarrow> fresh ttl now r"
  by (auto simp: fresh_def tsub_def)

lemma fresh_expired: "0 < rc_ttl c \<Longrightarrow> fresh (rc_ttl c) now (n, rc_heap c p) \<longleftrightarrow> \<not> expired now c p"
  by (auto simp: fresh_def expired_def)

lemma newest_key_later:
  assumes "newest_key now keys m c" "now \<le> now'"
  shows "newest_key now' keys m c"
  using assms expired_mono [of now c _ now'] by (fastforce simp: newest_key_def split: option.splits)

lemma refines_later:
  assumes "cache_refines now c st" "now \<le> now'"
  shows "cache_refines now' c st"
proof -
  have f: "filter (fresh ttl now') xs = filter (fresh ttl now') (filter (fresh ttl now) xs)" for ttl xs
    using fresh_mono [of ttl now' _ now] assms(2) by (auto intro!: filter_cong)
  have "filter (fresh (rc_ttl c) now') (entries c) = filter (fresh (rc_ttl c) now') (take (nat (rc_max c)) st)"
    using assms(1) by (subst (1 2) f) (simp add: cache_refines_def)
  then show ?thesis using assms newest_key_later [OF _ assms(2)]
    by (auto simp: cache_refines_def by_age_def)
qed


definition keys_ok :: "gotime \<Rightarrow> rcache \<Rightarrow> bool" where
  "keys_ok now c \<longleftrightarrow> cache_wf c \<and> by_age now c \<and> newest_key now cn_ids (rc_by_id c) c \<and> newest_key now hash_keys (rc_by_hash c) c"

lemma newest_key_drop:
  assumes "newest_key now keys m c" "\<forall>(q, n') \<in> set (rc_lru c). q < p \<longrightarrow> expired now c q"
  shows "newest_key now keys (drop_keys p (keys n) m) (evict_node (p, n) c)"
  unfolding newest_key_def
proof
  fix k
  have same: "expired now (evict_node (p, n) c) q = expired now c q" for q by (simp add: expired_def)
  show "case map_of (drop_keys p (keys n) m) k of
      Some r \<Rightarrow> \<forall>(q, n') \<in> set (rc_lru (evict_node (p, n) c)). k \<in> set (keys n') \<longrightarrow> q \<le> r
    | None \<Rightarrow> \<forall>(q, n') \<in> set (rc_lru (evict_node (p, n) c)). k \<in> set (keys n') \<longrightarrow> expired now (evict_node (p, n) c) q"
  proof (cases "map_of m k")
    case None
    then show ?thesis using assms(1) by (fastforce simp: newest_key_def map_of_drop_keys same split: option.splits)
  next
    case (Some r)
    then have "\<forall>(q, n') \<in> set (rc_lru c). k \<in> set (keys n') \<longrightarrow> q \<le> r"
      using assms(1) by (auto simp: newest_key_def split: option.splits)
    then show ?thesis using Some assms(2) by (fastforce simp: map_of_drop_keys same)
  qed
qed

lemma by_age_le:
  "by_age now c \<Longrightarrow> (a, m) \<in> set (rc_lru c) \<Longrightarrow> (b, n) \<in> set (rc_lru c) \<Longrightarrow> a \<le> b \<Longrightarrow>
    ce_created (rc_heap c a) \<le> ce_created (rc_heap c b)"
  unfolding by_age_def by (metis fst_conv image_eqI)

lemma by_age_subset:
  "by_age now c \<Longrightarrow> set (rc_lru c') \<subseteq> set (rc_lru c) \<Longrightarrow> rc_heap c' = rc_heap c \<Longrightarrow> by_age now c'"
  unfolding by_age_def by (metis image_mono subsetD)

lemma evict_keys_ok:
  assumes "keys_ok now c" "pn \<in> set (rc_lru c)" "\<forall>(q, n') \<in> set (rc_lru c). q < fst pn \<longrightarrow> expired now c q"
  shows "keys_ok now (evict_node pn c)"
proof -
  obtain p n where pn: "pn = (p, n)" by fastforce
  have "newest_key now cn_ids (rc_by_id (evict_node pn c)) (evict_node pn c)"
    "newest_key now hash_keys (rc_by_hash (evict_node pn c)) (evict_node pn c)"
    using assms newest_key_drop [of now _ _ c p n] by (auto simp: pn keys_ok_def)
  moreover have "by_age now (evict_node pn c)" using assms(1) by (auto simp: keys_ok_def elim!: by_age_subset)
  ultimately show ?thesis using assms evict_node_wf by (simp add: keys_ok_def)
qed

lemma older_expired:
  assumes "keys_ok now c" "pn \<in> set (rc_lru c)" "expired now c (fst pn)"
  shows "\<forall>(q, n') \<in> set (rc_lru c). q < fst pn \<longrightarrow> expired now c q"
  using assms expired_mono [of now c "fst pn" now] by (fastforce simp: keys_ok_def by_age_def)

lemma evict_expired_entries:
  assumes "keys_ok now c" "pn \<in> set (rc_lru c)" "expired now c (fst pn)"
  shows "filter (fresh (rc_ttl c) now) (entries (evict_node pn c)) = filter (fresh (rc_ttl c) now) (entries c)"
proof -
  have "0 < rc_ttl c" using assms(1) by (simp add: keys_ok_def cache_wf_def)
  then have "\<not> fresh (rc_ttl c) now (n, rc_heap c (fst pn))" for n using assms(3) fresh_expired by blast
  then show ?thesis
    by (auto simp: entries_def filter_map comp_def split_def intro!: arg_cong [where f = "map _"] filter_cong)
qed

lemma sweep_keeps:
  assumes "keys_ok now c"
  shows "keys_ok now (sweep now c) \<and> rc_lru (sweep now c) = filter (\<lambda>n. \<not> expired now c (fst n)) (rc_lru c)"
proof -
  have "keys_ok now (evict_expired now ns c) \<and> rc_lru (evict_expired now ns c) = filter (\<lambda>n. \<not> expired now c (fst n)) (rc_lru c)"
    if "rev (rc_lru c) = ns" "keys_ok now c" for ns c
    using that
  proof (induction ns arbitrary: c)
    case Nil
    then show ?case by simp
  next
    case (Cons n ns)
    have lru: "rc_lru c = rev ns @ [n]" using Cons.prems(1) by (metis rev.simps(2) rev_rev_ident)
    have d: "fst n \<notin> fst ` set ns" using lru_distinct [of c] Cons.prems(2) by (simp add: lru keys_ok_def)
    have same: "expired now (evict_node n c) = expired now c" by (simp add: expired_def fun_eq_iff)
    show ?case
    proof (cases "expired now c (fst n)")
      case True
      have "rc_lru (evict_node n c) = rev ns" using d by (auto simp: lru filter_id_conv image_iff)
      moreover have "keys_ok now (evict_node n c)"
        using evict_keys_ok [OF Cons.prems(2)] older_expired [OF Cons.prems(2)] True by (simp add: lru)
      ultimately show ?thesis using Cons.IH [of "evict_node n c"] True by (simp add: lru same)
    next
      case False
      have "\<not> expired now c (fst q)" if "q \<in> set (rc_lru c)" for q
      proof
        assume "expired now c (fst q)"
        moreover have "fst n \<le> fst q" using that Cons.prems(2) lru
          by (auto simp: keys_ok_def cache_wf_def sorted_wrt_append dest: bspec)
        ultimately have "expired now c (fst n)"
          using that Cons.prems(2) lru expired_mono [of now c "fst q" now] by (auto simp: keys_ok_def by_age_def)
        with False show False by simp
      qed
      then show ?thesis using False Cons.prems(2) by (auto simp: filter_id_conv)
    qed
  qed
  moreover have "0 < rc_ttl c" using assms by (simp add: keys_ok_def cache_wf_def)
  ultimately show ?thesis using assms by (simp add: sweep_def)
qed


lemma evict_last:
  assumes "cache_wf c" "rc_lru c \<noteq> []"
  shows "entries (evict_node (last (rc_lru c)) c) = butlast (entries c)"
    and "(q, n) \<in> set (rc_lru c) \<Longrightarrow> \<not> q < fst (last (rc_lru c))"
proof -
  obtain xs x where lru: "rc_lru c = xs @ [x]" using assms(2) by (metis rev_exhaust)
  have d: "fst x \<notin> fst ` set xs" using lru_distinct [OF assms(1)] by (simp add: lru)
  then have "filter (\<lambda>q. fst q \<noteq> fst x) xs = xs" by (auto simp: filter_id_conv image_iff)
  then show "entries (evict_node (last (rc_lru c)) c) = butlast (entries c)" by (simp add: entries_def lru)
  have "sorted_wrt (\<lambda>a b. fst b < fst a) (xs @ [x])" using assms by (simp add: cache_wf_def lru)
  then have "\<forall>y \<in> set xs. fst x < fst y" by (simp add: sorted_wrt_append)
  then show "(q, n) \<in> set (rc_lru c) \<Longrightarrow> \<not> q < fst (last (rc_lru c))" by (auto simp: lru)
qed

lemma evict_over_entries:
  assumes "cache_wf c"
  shows "entries (evict_over c) = take (nat (rc_max c) - 1) (entries c)"
  using assms
proof (induction c rule: evict_over.induct)
  case (1 c)
  have len: "length (entries c) = length (rc_lru c)" by (simp add: entries_def)
  have pos: "0 < rc_max c" using 1(2) by (simp add: cache_wf_def)
  show ?case
  proof (cases "rc_max c \<le> int (length (rc_lru c)) \<and> 0 < length (rc_lru c)")
    case True
    then have ne: "rc_lru c \<noteq> []" by auto
    have "cache_wf (evict_node (last (rc_lru c)) c)" using ne by (intro evict_node_wf 1(2)) simp
    then have "entries (evict_over (evict_node (last (rc_lru c)) c)) = take (nat (rc_max c) - 1) (butlast (entries c))"
      using 1(1) [OF True] evict_last(1) [OF 1(2) ne] by simp
    also have "\<dots> = take (nat (rc_max c) - 1) (entries c)"
      using True pos by (intro take_butlast) (simp add: len, linarith)
    finally show ?thesis using True by (simp add: evict_over.simps [of c])
  next
    case False
    then have "length (entries c) \<le> nat (rc_max c) - 1" using pos len by auto
    then show ?thesis using False by (subst evict_over.simps) auto
  qed
qed

lemma evict_over_keys_ok: "keys_ok now c \<Longrightarrow> keys_ok now (evict_over c)"
proof (rule evict_over_induct)
  fix c assume c: "keys_ok now c" "rc_lru c \<noteq> []"
  then have "\<not> q < fst (last (rc_lru c))" if "(q, n) \<in> set (rc_lru c)" for q n
    using evict_last(2) that by (auto simp: keys_ok_def)
  then show "keys_ok now (evict_node (last (rc_lru c)) c)" using c by (intro evict_keys_ok) auto
qed

lemma push_keys_ok:
  assumes "keys_ok now c" "int (length (rc_lru c)) < rc_max c" "ce_created e = now"
  shows "keys_ok now (push_entry n e c)" "entries (push_entry n e c) = (n, e) # entries c"
proof -
  have below: "\<forall>x \<in> set (rc_lru c). fst x < rc_next c" using assms(1) by (simp add: keys_ok_def cache_wf_def)
  have nxt: "newest_key now keys (bind_keys (rc_next c) (keys n) m) (push_entry n e c)"
    if "newest_key now keys m c" for keys m
  proof -
    have "expired now (push_entry n e c) q = expired now c q" if "q < rc_next c" for q
      using that by (simp add: expired_def push_entry_def Let_def)
    then show ?thesis using that below
      by (fastforce simp: newest_key_def map_of_bind_keys push_entry_def Let_def split: option.splits)
  qed
  have "by_age now (push_entry n e c)"
    using assms(1,3) below by (fastforce simp: keys_ok_def by_age_def push_entry_def Let_def)
  moreover have "rc_by_id (push_entry n e c) = bind_keys (rc_next c) (cn_ids n) (rc_by_id c)"
    "rc_by_hash (push_entry n e c) = bind_keys (rc_next c) (hash_keys n) (rc_by_hash c)"
    by (simp_all add: push_entry_def Let_def)
  ultimately show "keys_ok now (push_entry n e c)"
    using assms nxt push_entry_wf by (simp add: keys_ok_def)
  show "entries (push_entry n e c) = (n, e) # entries c"
    using below by (force simp: entries_def push_entry_def Let_def)
qed


text \<open>In a log with the newest first, what is not too old comes first.\<close>

lemma fresh_prefix:
  assumes "newest_first st"
  shows "filter (fresh ttl now) st = takeWhile (fresh ttl now) st"
  using assms
proof (induction st)
  case (Cons q st)
  show ?case
  proof (cases "fresh ttl now q")
    case False
    then have "\<not> fresh ttl now r" if "r \<in> set st" for r
      using that Cons.prems fresh_mono [of ttl now r now q] by (auto simp: newest_first_def)
    then show ?thesis using False by (auto simp: filter_empty_conv)
  qed (use Cons in \<open>simp add: newest_first_def\<close>)
qed simp

lemma takeWhile_take: "takeWhile P (take k xs) = take k (takeWhile P xs)"
  by (induction xs arbitrary: k) (auto simp: take_Cons split: nat.split)

lemma newest_first_take: "newest_first st \<Longrightarrow> newest_first (take k st)"
  unfolding newest_first_def by (rule sorted_wrt_take)

lemma fresh_take:
  "newest_first st \<Longrightarrow> filter (fresh ttl now) (take k st) = take k (filter (fresh ttl now) st)"
  using fresh_prefix [of "take k st"] fresh_prefix [of st] by (simp add: newest_first_take takeWhile_take)

lemma cache_refines_keys: "cache_refines now c st \<Longrightarrow> keys_ok now c"
  by (simp add: cache_refines_def keys_ok_def)

lemma sweep_const: "rc_max (sweep now c) = rc_max c" "rc_ttl (sweep now c) = rc_ttl c" "rc_heap (sweep now c) = rc_heap c"
proof -
  have "rc_max (evict_expired now ns c) = rc_max c \<and> rc_ttl (evict_expired now ns c) = rc_ttl c \<and>
      rc_heap (evict_expired now ns c) = rc_heap c" for ns
    by (induction now ns c rule: evict_expired.induct) auto
  then show "rc_max (sweep now c) = rc_max c" "rc_ttl (sweep now c) = rc_ttl c" "rc_heap (sweep now c) = rc_heap c"
    by (auto simp: sweep_def)
qed

lemma evict_over_const: "rc_max (evict_over c) = rc_max c" "rc_ttl (evict_over c) = rc_ttl c" "rc_heap (evict_over c) = rc_heap c"
  by (rule evict_over_induct [where P = "\<lambda>d. rc_max d = rc_max c"], simp_all)
    (rule evict_over_induct [where P = "\<lambda>d. rc_ttl d = rc_ttl c"], simp_all,
     rule evict_over_induct [where P = "\<lambda>d. rc_heap d = rc_heap c"], simp_all)

lemma push_const: "rc_max (push_entry n e c) = rc_max c" "rc_ttl (push_entry n e c) = rc_ttl c"
  by (simp_all add: push_entry_def Let_def)

lemma sweep_entries:
  assumes "keys_ok now c"
  shows "entries (sweep now c) = filter (fresh (rc_ttl c) now) (entries c)"
proof -
  have "0 < rc_ttl c" using assms by (simp add: keys_ok_def cache_wf_def)
  then have "fresh (rc_ttl c) now (n, rc_heap c p) = (\<not> expired now c p)" for n p by (rule fresh_expired)
  then show ?thesis using sweep_keeps [OF assms]
    by (simp add: entries_def sweep_const filter_map comp_def split_def)
qed

lemma sweep_refines:
  assumes "cache_refines now c st"
  shows "cache_refines now (sweep now c) st"
  using assms sweep_keeps [OF cache_refines_keys [OF assms]] sweep_entries [OF cache_refines_keys [OF assms]]
  by (auto simp: cache_refines_def keys_ok_def sweep_const)

lemma evict_refines:
  assumes "cache_refines now c st" "pn \<in> set (rc_lru c)" "expired now c (fst pn)"
  shows "cache_refines now (evict_node pn c) st"
  using assms evict_keys_ok [OF cache_refines_keys [OF assms(1)] assms(2)] older_expired [OF cache_refines_keys [OF assms(1)] assms(2,3)]
    evict_expired_entries [OF cache_refines_keys [OF assms(1)] assms(2,3)]
  by (auto simp: cache_refines_def keys_ok_def)

lemma push_refines:
  assumes "cache_refines now c st" "ce_created e = now"
  shows "cache_refines now (push_entry n e (evict_over (sweep now c))) ((n, e) # st)"
proof -
  let ?f = "fresh (rc_ttl c) now"
  let ?d = "evict_over (sweep now c)"
  have wf: "cache_wf c" using assms(1) by (simp add: cache_refines_def)
  have ttl: "0 \<le> rc_ttl c" "0 < nat (rc_max c)" using wf by (auto simp: cache_wf_def)
  then obtain k where k: "nat (rc_max c) = Suc k" using gr0_implies_Suc by blast
  have ks: "keys_ok now (sweep now c)" using sweep_keeps cache_refines_keys assms(1) by blast
  have room: "int (length (rc_lru ?d)) < rc_max ?d"
    using evict_over_room [of "sweep now c"] wf by (simp add: evict_over_const sweep_const cache_wf_def)
  have new: "keys_ok now (push_entry n e ?d)" "entries (push_entry n e ?d) = (n, e) # entries ?d"
    using push_keys_ok [OF evict_over_keys_ok [OF ks] room assms(2)] by auto
  have "entries ?d = take k (entries (sweep now c))"
    using evict_over_entries ks by (simp add: keys_ok_def sweep_const k)
  also have "entries (sweep now c) = filter ?f (take (nat (rc_max c)) st)"
    using sweep_entries [OF cache_refines_keys [OF assms(1)]] assms(1) by (simp add: cache_refines_def)
  also have "take k \<dots> = filter ?f (take k st)"
    using assms(1) by (simp add: cache_refines_def fresh_take k min_def)
  finally have "filter ?f (entries ?d) = filter ?f (take k st)" by simp
  moreover have "?f (n, e)" using assms(2) ttl by (simp add: fresh_def tsub_def)
  moreover have "newest_first ((n, e) # st)" "\<forall>q \<in> set ((n, e) # st). ce_created (snd q) \<le> now"
    using assms by (auto simp: cache_refines_def newest_first_def)
  ultimately show ?thesis using new
    by (simp add: cache_refines_def keys_ok_def push_const evict_over_const sweep_const k)
qed


lemma cache_step_refines:
  assumes "cache_refines t c st"
  shows "cache_refines t (cache_step (t, v) c) (rev (stored_by (t, v)) @ st)"
proof (cases v)
  case CPut
  then show ?thesis using assms by (auto simp: cache_put_def intro!: push_refines)
next
  case (CEvictId k)
  then show ?thesis using assms evict_key_cases(1) [of c t k] evict_refines by (fastforce simp: cache_refines_def)
next
  case (CEvictHash k)
  then show ?thesis using assms evict_key_cases(2) [of c t k] evict_refines by (fastforce simp: cache_refines_def)
next
  case CPrune
  then show ?thesis using assms by (simp add: prune_sweep sweep_refines)
qed

lemma cache_run_refines:
  assumes "cache_refines t0 c st" "sorted (map fst ops)" "\<forall>x \<in> set ops. t0 \<le> fst x \<and> fst x \<le> now" "t0 \<le> now"
  shows "cache_refines now (cache_run ops c) (stored_log ops @ st)"
  using assms
proof (induction ops arbitrary: c st t0)
  case Nil
  then show ?case using refines_later by (simp add: cache_run_def stored_log_def)
next
  case (Cons x ops)
  obtain t v where x: "x = (t, v)" by fastforce
  have "cache_refines t (cache_step x c) (rev (stored_by x) @ st)"
    using refines_later [OF Cons.prems(1), of t] Cons.prems(3) by (auto simp: x intro!: cache_step_refines)
  then have "cache_refines now (cache_run ops (cache_step x c)) (stored_log ops @ rev (stored_by x) @ st)"
    by (rule Cons.IH) (use Cons.prems in \<open>auto simp: x\<close>)
  then show ?case by (simp add: cache_run_def stored_log_def)
qed

lemma new_cache_refines: "cache_refines t (new_cache maxe ttl) []"
  using new_cache_wf [of maxe ttl]
  by (simp add: cache_refines_def by_age_def newest_key_def newest_first_def entries_def new_cache_def)

lemma find_filter: "find (\<lambda>q. P q \<and> Q q) xs = find P (filter Q xs)"
  by (induction xs) auto

lemma find_map_fun: "find P (map f xs) = map_option f (find (P \<circ> f) xs)"
  by (induction xs) auto

lemma find_desc:
  "sorted_wrt (\<lambda>a b. fst b < fst a) ns \<Longrightarrow> x \<in> set ns \<Longrightarrow> P x \<Longrightarrow> (\<And>y. y \<in> set ns \<Longrightarrow> P y \<Longrightarrow> fst y \<le> fst x) \<Longrightarrow> find P ns = Some x"
  for ns :: "(nat \<times> 'a) list"
proof (induction ns)
  case (Cons y ns)
  show ?case
  proof (cases "P y")
    case True
    then have "fst y \<le> fst x" using Cons.prems(4) by simp
    then have "x = y" using Cons.prems(1,2) by fastforce
    then show ?thesis using True by simp
  qed (use Cons in auto)
qed simp

lemma recalled_entries:
  assumes "cache_refines now c st"
  shows "recalled keys (rc_max c) (rc_ttl c) now st k =
    map_option (rc_heap c \<circ> fst) (find (\<lambda>q. k \<in> set (keys (snd q)) \<and> \<not> expired now c (fst q)) (rc_lru c))"
proof -
  have ttl: "0 < rc_ttl c" using assms by (simp add: cache_refines_def cache_wf_def)
  have "filter (fresh (rc_ttl c) now) (take (nat (rc_max c)) st) = filter (fresh (rc_ttl c) now) (entries c)"
    using assms by (simp add: cache_refines_def)
  then have "recalled keys (rc_max c) (rc_ttl c) now st k =
      map_option snd (find (\<lambda>q. k \<in> set (keys (fst q)) \<and> fresh (rc_ttl c) now q) (entries c))"
    by (simp add: recalled_def find_filter)
  also have "\<dots> = map_option (rc_heap c \<circ> fst) (find (\<lambda>q. k \<in> set (keys (snd q)) \<and> \<not> expired now c (fst q)) (rc_lru c))"
    using fresh_expired [OF ttl] by (simp add: entries_def find_map_fun comp_def split_def option.map_comp)
  finally show ?thesis .
qed

definition hit :: "peeked \<Rightarrow> centry option" where
  "hit r = (case r of Hit e \<Rightarrow> Some e | _ \<Rightarrow> None)"

lemma peek_recalled:
  assumes "cache_refines now c st" "newest_key now keys m c" "keys_lead keys m (rc_lru c)"
  shows "hit (peek now m k c) = recalled keys (rc_max c) (rc_ttl c) now st k"
proof (cases "map_of m k")
  case None
  then have "\<forall>q \<in> set (rc_lru c). k \<in> set (keys (snd q)) \<longrightarrow> expired now c (fst q)"
    using assms(2) by (fastforce simp: newest_key_def split: option.splits)
  then show ?thesis using None
    by (auto simp: recalled_entries [OF assms(1)] peek_def hit_def find_None_iff)
next
  case (Some p)
  then obtain n where n: "(p, n) \<in> set (rc_lru c)" "k \<in> set (keys n)" using assms(3) by (auto simp: keys_lead_def)
  have newest: "\<forall>q \<in> set (rc_lru c). k \<in> set (keys (snd q)) \<longrightarrow> fst q \<le> p"
    using assms(2) Some by (fastforce simp: newest_key_def split: option.splits)
  show ?thesis
  proof (cases "expired now c p")
    case True
    have "expired now c (fst q)" if q: "q \<in> set (rc_lru c)" "k \<in> set (keys (snd q))" for q
      using assms(1) q n newest by (intro expired_mono [OF True order_refl] by_age_le [of now c "fst q" "snd q"])
        (auto simp: cache_refines_def)
    then show ?thesis using Some True
      by (auto simp: recalled_entries [OF assms(1)] peek_def hit_def find_None_iff)
  next
    case False
    have "find (\<lambda>q. k \<in> set (keys (snd q)) \<and> \<not> expired now c (fst q)) (rc_lru c) = Some (p, n)"
      using assms(1) n newest False by (intro find_desc) (auto simp: cache_refines_def cache_wf_def)
    then show ?thesis using Some False by (simp add: recalled_entries [OF assms(1)] peek_def hit_def)
  qed
qed

lemma cache_lookup:
  assumes "cache_refines now c st"
  shows "hit (peek now (rc_by_id c) k c) = recalled cn_ids (rc_max c) (rc_ttl c) now st k"
    and "hit (peek now (rc_by_hash c) k c) = recalled hash_keys (rc_max c) (rc_ttl c) now st k"
  using assms by (auto intro!: peek_recalled [OF assms] simp: cache_refines_def cache_wf_def)

lemma cache_run_const: "rc_max (cache_run ops c) = rc_max c" "rc_ttl (cache_run ops c) = rc_ttl c"
proof -
  have "rc_max (evict_id t k c) = rc_max c \<and> rc_ttl (evict_id t k c) = rc_ttl c"
    "rc_max (evict_hash t k c) = rc_max c \<and> rc_ttl (evict_hash t k c) = rc_ttl c" for t k c
    by (simp_all add: evict_id_def evict_hash_def split: option.split)
  then have "rc_max (cache_step x c) = rc_max c \<and> rc_ttl (cache_step x c) = rc_ttl c" for x c
    by (cases "(x, c)" rule: cache_step.cases) (auto simp: cache_put_def prune_sweep push_const evict_over_const sweep_const)
  then have "rc_max (cache_run ops c) = rc_max c \<and> rc_ttl (cache_run ops c) = rc_ttl c" for c
    unfolding cache_run_def by (induction ops arbitrary: c) auto
  then show "rc_max (cache_run ops c) = rc_max c" "rc_ttl (cache_run ops c) = rc_ttl c" by auto
qed

subsection \<open>Properties\<close>

text \<open>
  C29: in every reachable cache the two indexes, the map of nodes and the list agree: each key leads
  to an entry of the list that was stored under it, each entry is in the list once, and the list
  never holds more than the maximum.
\<close>

theorem cache_stays_well_formed: "cache_wf (cache_run ops (new_cache maxe ttl))"
  by (intro cache_run_wf new_cache_wf)

text \<open>
  C30: a lookup by tool-call id or by hash returns what the log of the stored completions promises: the
  newest of the last \<open>maxEntries\<close> stored under the key, if it is at most \<open>ttl\<close> old, and nothing
  otherwise, whatever lookups, evictions and sweeps other goroutines do in between.  A lookup
  does not renew an entry.
\<close>

theorem lookup_is_newest_stored:
  assumes "sorted (map fst ops)" "\<forall>x \<in> set ops. fst x \<le> now"
    and "c = cache_run ops (new_cache maxe ttl)"
  shows "fst (get_entry_by_id now t2 tool c) = (if strings_trim tool = [] then None
      else recalled cn_ids (rc_max (new_cache maxe ttl)) (rc_ttl (new_cache maxe ttl)) now (stored_log ops) (strings_trim tool)) \<and>
    fst (get_entry_by_hash now t2 content json c) = (if hash_key content json = [] then None
      else recalled hash_keys (rc_max (new_cache maxe ttl)) (rc_ttl (new_cache maxe ttl)) now (stored_log ops) (hash_key content json))"
proof -
  define t0 where "t0 = min now (Min (insert now (fst ` set ops)))"
  have t0: "t0 \<le> now" "\<forall>x \<in> set ops. t0 \<le> fst x \<and> fst x \<le> now" using assms(2) by (auto simp: t0_def min_le_iff_disj)
  then have "cache_refines now c (stored_log ops)"
    using cache_run_refines [OF new_cache_refines assms(1) t0(2,1)] assms(3) by simp
  note look = cache_lookup [OF this]
  have const: "rc_max c = rc_max (new_cache maxe ttl)" "rc_ttl c = rc_ttl (new_cache maxe ttl)"
    by (simp_all add: assms(3) cache_run_const)
  have "fst (get_entry_by_id now t2 tool c) = (if strings_trim tool = [] then None else hit (peek now (rc_by_id c) (strings_trim tool) c))"
    "fst (get_entry_by_hash now t2 content json c) = (if hash_key content json = [] then None else hit (peek now (rc_by_hash c) (hash_key content json) c))"
    by (simp_all add: get_entry_by_id_def get_entry_by_hash_def Let_def hit_def split: peeked.split)
  then show ?thesis by (simp add: look const)
qed

text \<open>Two completions of one tool call, and a lookup with spaces around the id.\<close>

definition two_puts :: "(gotime \<times> cache_op) list" where
  "two_puts = [(0, CPut [''a''] [] [] ''r1'' [] ''m''), (5, CPut ['' a'', ''b''] [] [] ''r2'' [] ''m'')]"

theorem lookup_is_newest_stored_witness:
  "map_option ce_reasoning (fst (get_entry_by_id 12 12 ''a '' (cache_run two_puts (new_cache 2 10)))) = Some ''r2''"
proof -
  have "sorted (map fst two_puts)" "\<forall>x \<in> set two_puts. fst x \<le> 12" by (simp_all add: two_puts_def)
  note look = conjunct1 [OF lookup_is_newest_stored [OF this refl, where maxe = 2 and ttl = 10 and tool = "''a ''" and content = "[]" and json = "[]"]]
  have trims: "strings_trim ''a '' = ''a''" "strings_trim ''a'' = ''a''" "strings_trim '' a'' = ''a''" "strings_trim ''b'' = ''b''"
    by code_simp+
  then have "stored_log two_puts = [(\<lparr>cn_ids = [''a'', ''b''], cn_hash = []\<rparr>,
        \<lparr>ce_reasoning = ''r2'', ce_signature = [], ce_model = ''m'', ce_created = 5\<rparr>),
      (\<lparr>cn_ids = [''a''], cn_hash = []\<rparr>, \<lparr>ce_reasoning = ''r1'', ce_signature = [], ce_model = ''m'', ce_created = 0\<rparr>)]"
    by (simp add: stored_log_def two_puts_def hash_key_def)
  then show ?thesis unfolding look
    by (simp add: trims recalled_def new_cache_def fresh_def tsub_def)
qed

end
