(* ===== verification/ConvertEffort.thy ===== *)
theory ConvertEffort
  imports Prelude GoText
begin

text \<open>
  \<open>internal/convert/effort.go\<close>: the reasoning effort a request asks for, and what of it is sent to
  the model that serves the request.

  A \<open>map[string]any\<close> of decoded JSON is the Go map of \<open>JObj\<close>; \<open>jstr\<close>, \<open>jobj\<close>, \<open>jarr\<close> and \<open>jbool\<close> are the
  type assertions on a value that may be absent.
\<close>

type_synonym jmap = "(string \<times> json) list"

definition jstr :: "json option \<Rightarrow> string option" where
  "jstr v = (case v of Some (JStr s) \<Rightarrow> Some s | _ \<Rightarrow> None)"

definition jobj :: "json option \<Rightarrow> jmap option" where
  "jobj v = (case v of Some (JObj m) \<Rightarrow> Some m | _ \<Rightarrow> None)"

definition jarr :: "json option \<Rightarrow> json list option" where
  "jarr v = (case v of Some (JArr vs) \<Rightarrow> Some vs | _ \<Rightarrow> None)"

definition jbool :: "json option \<Rightarrow> bool option" where
  "jbool v = (case v of Some (JBool b) \<Rightarrow> Some b | _ \<Rightarrow> None)"

text \<open>\<open>s, _ := m[k].(string)\<close>.\<close>

definition str_at :: "jmap \<Rightarrow> string \<Rightarrow> string" where
  "str_at m k = (case jstr (map_of m k) of Some s \<Rightarrow> s | None \<Rightarrow> [])"

definition lower_trim :: "string \<Rightarrow> string" where
  "lower_trim s = to_lower (strings_trim s)"

text \<open>
  \<open>int64\<close> of a number: the fraction is dropped; a number that does not fit becomes the least one,
  as on amd64.
\<close>

definition float_int64 :: "rat \<Rightarrow> int" where
  "float_int64 q = (let n = (if 0 \<le> q then \<lfloor>q\<rfloor> else \<lceil>q\<rceil>) in if - (2 ^ 63) \<le> n \<and> n < 2 ^ 63 then n else - (2 ^ 63))"

definition num_int64 :: "json option \<Rightarrow> int option" where
  "num_int64 v = (case v of Some (JNum q) \<Rightarrow> Some (float_int64 q) | _ \<Rightarrow> None)"

subsection \<open>The effort asked for\<close>

definition budget_effort :: "int \<Rightarrow> string" where
  "budget_effort n = (if n \<le> 512 then ''minimal'' else if n \<le> 1024 then ''low'' else if n \<le> 8192 then ''medium''
     else if n \<le> 24576 then ''high'' else ''xhigh'')"

definition effort_tags :: "string list" where
  "effort_tags = [''max'', ''high'', ''medium'', ''low'', ''minimal'', ''xhigh'', ''ultra'']"

text \<open>\<open>strings.LastIndex\<close> of a character.\<close>

definition last_index :: "char \<Rightarrow> string \<Rightarrow> nat option" where
  "last_index c s = (case filter (\<lambda>i. s ! i = c) (rev [0..<length s]) of [] \<Rightarrow> None | i # _ \<Rightarrow> Some i)"

definition effort_suffix :: "string \<Rightarrow> string" where
  "effort_suffix model = (let m = strings_trim model;
       tag = (\<lambda>t. let t = lower_trim t in if t \<in> set effort_tags then t else [])
     in if ends [CHR 0x29] m then
          (case last_index (CHR 0x28) m of
             Some i \<Rightarrow> if 0 < i then tag (take (length m - 1 - (i + 1)) (drop (i + 1) m)) else []
           | None \<Rightarrow> [])
        else (case last_index (CHR 0x3A) m of Some i \<Rightarrow> if 0 < i then tag (drop (i + 1) m) else [] | None \<Rightarrow> []))"

definition extract_effort :: "jmap \<Rightarrow> string" where
  "extract_effort payload = (
     if str_at payload ''reasoning_effort'' \<noteq> [] then lower_trim (str_at payload ''reasoning_effort'')
     else let r = (case jobj (map_of payload ''reasoning'') of Some m \<Rightarrow> str_at m ''effort'' | None \<Rightarrow> []) in
       if r \<noteq> [] then lower_trim r
       else let suffix = (if str_at payload ''model'' \<noteq> [] then effort_suffix (str_at payload ''model'') else []) in
         case jobj (map_of payload ''thinking'') of
           None \<Rightarrow> suffix
         | Some t \<Rightarrow>
             (case num_int64 (map_of t ''budget_tokens'') of
                Some n \<Rightarrow> if 0 < n then budget_effort n
                  else (case jstr (map_of t ''type'') of Some ty \<Rightarrow> lower_trim ty | None \<Rightarrow> suffix)
              | None \<Rightarrow> (case jstr (map_of t ''type'') of Some ty \<Rightarrow> lower_trim ty | None \<Rightarrow> suffix)))"

subsection \<open>The ladder\<close>

definition reasoning_ladder :: "string list" where
  "reasoning_ladder = [''minimal'', ''low'', ''medium'', ''high'', ''xhigh'', ''max'', ''ultra'']"

definition default_effort :: string where "default_effort = ''high''"

definition model_efforts :: "(string \<times> string list) list" where
  "model_efforts = [
     (''deepseek/deepseek-v4-flash'', [''low'', ''high'', ''max'']),
     (''deepseek/deepseek-v4-pro'', [''low'', ''high'', ''max'']),
     (''mimo/mimo-v2.5'', [''high'']),
     (''minimax/minimax-m3'', [''high'']),
     (''anthropic/claude-fable-5'', [''low'', ''medium'', ''high'', ''xhigh'', ''max'']),
     (''openai/gpt-5.6-luna'', [''low'', ''medium'', ''high'', ''xhigh'', ''max'']),
     (''meta/muse-spark-1.2-contributor'', [''minimal'', ''low'', ''medium'', ''high'', ''xhigh''])]"

definition efforts_for :: "string \<Rightarrow> string list" where
  "efforts_for model = (case map_of model_efforts model of Some es \<Rightarrow> es | None \<Rightarrow> reasoning_ladder)"

fun rank_in :: "int \<Rightarrow> string list \<Rightarrow> string \<Rightarrow> int" where
  "rank_in i [] e = -1"
| "rank_in i (r # rs) e = (if r = e then i else rank_in (i + 1) rs e)"

definition reasoning_rank :: "string \<Rightarrow> int" where
  "reasoning_rank e = rank_in 0 reasoning_ladder e"

definition clamp_effort :: "string \<Rightarrow> string list \<Rightarrow> string \<Rightarrow> string" where
  "clamp_effort requested allowed fallback = (if allowed = [] then fallback else
     let wanted = reasoning_rank requested in
     if wanted < 0 then fallback else
     let best = foldl (\<lambda>b c. let r = reasoning_rank c in if r < 0 \<or> wanted < r then b else if b < r then r else b) (-1) allowed in
     if 0 \<le> best then reasoning_ladder ! nat best
     else foldl (\<lambda>l c. if reasoning_rank c < reasoning_rank l then c else l) (hd allowed) (tl allowed))"

definition is_deepseek :: "string \<Rightarrow> bool" where
  "is_deepseek model \<longleftrightarrow> ends ''deepseek-v4-flash'' (to_lower model) \<or> ends ''deepseek-v4-pro'' (to_lower model)"

definition is_strict_reasoning :: "string \<Rightarrow> bool" where
  "is_strict_reasoning model \<longleftrightarrow> has_part ''mimo'' (to_lower model) \<or> has_part ''deepseek-v4'' (to_lower model) \<or>
     has_part ''kimi'' (to_lower model)"

text \<open>\<open>strings.EqualFold\<close> with an ASCII text.\<close>

definition equal_fold :: "string \<Rightarrow> string \<Rightarrow> bool" where
  "equal_fold s t \<longleftrightarrow> fold_name s = fold_name t"

definition effort_disabled :: "jmap \<Rightarrow> bool" where
  "effort_disabled payload \<longleftrightarrow>
     (case jobj (map_of payload ''reasoning'') of Some m \<Rightarrow> jbool (map_of m ''enabled'') = Some False | None \<Rightarrow> False) \<or>
     (case jobj (map_of payload ''thinking'') of Some m \<Rightarrow>
        (case jstr (map_of m ''type'') of Some ty \<Rightarrow> equal_fold (strings_trim ty) ''disabled'' | None \<Rightarrow> False) | None \<Rightarrow> False)"

definition requested_effort :: "jmap \<Rightarrow> jmap \<Rightarrow> string" where
  "requested_effort payload out = (let e = lower_trim (str_at out ''reasoning_effort'') in
     if e = [] then extract_effort payload else e)"

definition served_effort :: "string \<Rightarrow> string \<Rightarrow> string" where
  "served_effort model e = (if is_deepseek model \<and> e = ''medium'' then ''high'' else clamp_effort e (efforts_for model) default_effort)"

definition normalize_reasoning :: "jmap \<Rightarrow> jmap \<Rightarrow> jmap" where
  "normalize_reasoning payload out = (let e = requested_effort payload out in
     if effort_disabled payload then AList.delete ''reasoning_effort'' out
     else if e = [] \<or> e = ''none'' \<or> e = ''disabled'' then out
     else AList.update ''reasoning_effort'' (JStr (served_effort (str_at out ''model'') e)) out)"

subsection \<open>Think tags in the text\<close>

text \<open>A text at the front in any case; the rest after it.\<close>

fun match_fold :: "string \<Rightarrow> string \<Rightarrow> string option" where
  "match_fold [] s = Some s"
| "match_fold (p # ps) [] = None"
| "match_fold (p # ps) (c # cs) = (if lower_char c = p then match_fold ps cs
     else if p = CHR ''k'' \<and> c # take 2 cs = [CHR 0xE2, CHR 0x84, CHR 0xAA] then match_fold ps (drop 2 cs)
     else if p = CHR ''s'' \<and> c # take 1 cs = [CHR 0xC5, CHR 0xBF] then match_fold ps (drop 1 cs)
     else None)"

definition think_tags :: "string list" where
  "think_tags = [''think'', ''thinking'', ''reasoning'', ''antml'' @ [CHR 0x3A] @ ''thinking'']"

text \<open>The text before the first close tag and the rest after it.\<close>

fun until_close :: "string \<Rightarrow> string \<Rightarrow> (string \<times> string) option" where
  "until_close close s = (case match_fold close s of Some r \<Rightarrow> Some ([], r)
     | None \<Rightarrow> (case s of [] \<Rightarrow> None | c # cs \<Rightarrow> map_option (\<lambda>(a, r). (c # a, r)) (until_close close cs)))"

declare until_close.simps [simp del]

definition tag_at :: "string \<Rightarrow> string \<Rightarrow> (string \<times> string) option" where
  "tag_at t s = (case match_fold (''<'' @ t @ ''>'') s of None \<Rightarrow> None | Some r \<Rightarrow> until_close (''</'' @ t @ ''>'') r)"

fun first_tag :: "string list \<Rightarrow> string \<Rightarrow> (string \<times> string) option" where
  "first_tag [] s = None"
| "first_tag (t # ts) s = (case tag_at t s of Some x \<Rightarrow> Some x | None \<Rightarrow> first_tag ts s)"

lemma match_fold_length: "match_fold p s = Some r \<Longrightarrow> length r + length p \<le> length s"
  by (induction p s rule: match_fold.induct) (auto split: if_splits)

lemma until_close_length: "until_close t s = Some (a, r) \<Longrightarrow> length r + length t \<le> length s"
proof (induction t s arbitrary: a r rule: until_close.induct)
  case (1 t s)
  then show ?case
    by (subst (asm) (2) until_close.simps) (fastforce split: option.splits list.splits dest: match_fold_length)
qed

lemma first_tag_length: "first_tag ts s = Some (a, r) \<Longrightarrow> length r < length s"
  by (induction ts) (auto simp: tag_at_def split: option.splits dest!: match_fold_length until_close_length)

text \<open>All complete tags from left to right: their texts, and the text without them.\<close>

function scan_tags :: "string \<Rightarrow> string list \<times> string" where
  "scan_tags s = (case first_tag think_tags s of
     Some (a, r) \<Rightarrow> (let (ps, c) = scan_tags r in (if a \<noteq> [] then a # ps else ps, c))
   | None \<Rightarrow> (case s of [] \<Rightarrow> ([], []) | c # cs \<Rightarrow> (let (ps, t) = scan_tags cs in (ps, c # t))))"
  by pat_completeness auto
termination
  by (relation "measure length") (auto dest: first_tag_length)

declare scan_tags.simps [simp del]

text \<open>The first open tag that is never closed: the text before it and after it.\<close>

fun open_tag :: "string list \<Rightarrow> string \<Rightarrow> string option" where
  "open_tag [] s = None"
| "open_tag (t # ts) s = (case match_fold (''<'' @ t @ ''>'') s of Some r \<Rightarrow> Some r | None \<Rightarrow> open_tag ts s)"

fun unclosed_tag :: "string \<Rightarrow> (string \<times> string) option" where
  "unclosed_tag s = (case open_tag think_tags s of Some r \<Rightarrow> Some ([], r)
     | None \<Rightarrow> (case s of [] \<Rightarrow> None | c # cs \<Rightarrow> map_option (\<lambda>(a, r). (c # a, r)) (unclosed_tag cs)))"

declare unclosed_tag.simps [simp del]

fun join_with :: "string \<Rightarrow> string list \<Rightarrow> string" where
  "join_with sep [] = []"
| "join_with sep [s] = s"
| "join_with sep (s # t # ss) = s @ sep @ join_with sep (t # ss)"

definition extract_think :: "string \<Rightarrow> string \<times> string" where
  "extract_think content = (let (parts, cleaned) = scan_tags content;
       (parts, cleaned) = (case unclosed_tag cleaned of
           None \<Rightarrow> (parts, cleaned)
         | Some (before, after) \<Rightarrow> (if strings_trim after \<noteq> [] then parts @ [strings_trim after] else parts, before))
     in if parts = [] then ([], content) else (join_with [CHR 0x0A] parts, strings_trim cleaned))"

subsection \<open>Reasoning folded into the content\<close>

definition fold_mode :: "string \<Rightarrow> string" where
  "fold_mode env = (let v = lower_trim env in
     if v \<in> {[], ''0'', ''false'', ''off'', ''no'', ''disabled''} then []
     else if v \<in> {''1'', ''true'', ''yes'', ''on''} then ''think'' else v)"

definition fold_reasoning :: "string \<Rightarrow> string \<Rightarrow> jmap \<Rightarrow> jmap" where
  "fold_reasoning env reasoning delta = (let t = fold_mode env; folded = ''<'' @ t @ ''>'' @ reasoning @ ''</'' @ t @ ''>'' in
     if t = [] \<or> reasoning = [] then delta
     else case map_of delta ''content'' of
         Some (JStr c) \<Rightarrow> AList.update ''content'' (JStr (folded @ c)) delta
       | None \<Rightarrow> AList.update ''content'' (JStr folded) delta
       | Some JNull \<Rightarrow> AList.update ''content'' (JStr folded) delta
       | _ \<Rightarrow> delta)"


subsection \<open>The clamp\<close>

text \<open>The highest rung on offer that is not above \<open>e\<close>, or the least one when all are above.\<close>

definition nearest_rung :: "string \<Rightarrow> string list \<Rightarrow> string \<Rightarrow> bool" where
  "nearest_rung e allowed r \<longleftrightarrow> r \<in> set allowed \<and>
     (if list_ex (\<lambda>a. reasoning_rank a \<le> reasoning_rank e) allowed
      then reasoning_rank r \<le> reasoning_rank e \<and>
        list_all (\<lambda>a. reasoning_rank a \<le> reasoning_rank e \<longrightarrow> reasoning_rank a \<le> reasoning_rank r) allowed
      else list_all (\<lambda>a. reasoning_rank r \<le> reasoning_rank a) allowed)"

lemma best_rank:
  fixes w b :: int
  defines "f \<equiv> \<lambda>b c. let r = reasoning_rank c in if r < 0 \<or> w < r then b else if b < r then r else b"
  shows "(foldl f b cs = b \<or> (\<exists>c \<in> set cs. 0 \<le> reasoning_rank c \<and> reasoning_rank c \<le> w \<and> foldl f b cs = reasoning_rank c)) \<and>
    b \<le> foldl f b cs \<and> (\<forall>c \<in> set cs. 0 \<le> reasoning_rank c \<and> reasoning_rank c \<le> w \<longrightarrow> reasoning_rank c \<le> foldl f b cs)"
proof (induction cs arbitrary: b)
  case (Cons c cs)
  have b: "b \<le> f b c" "f b c = b \<or> 0 \<le> reasoning_rank c \<and> reasoning_rank c \<le> w \<and> f b c = reasoning_rank c"
    "0 \<le> reasoning_rank c \<and> reasoning_rank c \<le> w \<longrightarrow> reasoning_rank c \<le> f b c"
    by (auto simp: f_def Let_def)
  define B where "B = foldl f (f b c) cs"
  have IH: "B = f b c \<or> (\<exists>c \<in> set cs. 0 \<le> reasoning_rank c \<and> reasoning_rank c \<le> w \<and> B = reasoning_rank c)" "f b c \<le> B"
    "\<forall>c \<in> set cs. 0 \<le> reasoning_rank c \<and> reasoning_rank c \<le> w \<longrightarrow> reasoning_rank c \<le> B"
    using Cons.IH [of "f b c"] unfolding B_def by blast+
  have "B = b \<or> (\<exists>c \<in> set (c # cs). 0 \<le> reasoning_rank c \<and> reasoning_rank c \<le> w \<and> B = reasoning_rank c)"
    using IH(1) b(2) by auto
  moreover have "b \<le> B" "\<forall>c \<in> set (c # cs). 0 \<le> reasoning_rank c \<and> reasoning_rank c \<le> w \<longrightarrow> reasoning_rank c \<le> B"
    using IH(2,3) b by auto
  ultimately show ?case by (simp add: B_def)
qed simp

lemma least_rank:
  fixes l :: string
  defines "g \<equiv> \<lambda>l c. if reasoning_rank c < reasoning_rank l then c else l"
  shows "foldl g l cs \<in> set (l # cs) \<and> (\<forall>c \<in> set (l # cs). reasoning_rank (foldl g l cs) \<le> reasoning_rank c)"
proof (induction cs arbitrary: l)
  case (Cons c cs)
  have g: "g l c = l \<or> g l c = c" "reasoning_rank (g l c) \<le> reasoning_rank l" "reasoning_rank (g l c) \<le> reasoning_rank c"
    by (auto simp: g_def)
  define L where "L = foldl g (g l c) cs"
  have IH: "L \<in> set (g l c # cs)" "\<forall>c \<in> set (g l c # cs). reasoning_rank L \<le> reasoning_rank c"
    using Cons.IH [of "g l c"] unfolding L_def by blast+
  have "L \<in> set (l # c # cs)" using IH(1) g(1) by auto
  moreover have "\<forall>d \<in> set (l # c # cs). reasoning_rank L \<le> reasoning_rank d" using IH(2) g(2,3) by auto
  ultimately show ?case by (simp add: L_def)
qed simp

lemma rank_nth: "0 \<le> reasoning_rank e \<Longrightarrow> reasoning_ladder ! nat (reasoning_rank e) = e"
  by (auto simp: reasoning_rank_def reasoning_ladder_def split: if_splits)

lemma clamp_nearest:
  assumes "0 \<le> reasoning_rank e" "allowed \<noteq> []" "\<forall>a \<in> set allowed. 0 \<le> reasoning_rank a"
  shows "nearest_rung e allowed (clamp_effort e allowed fb)"
proof -
  define w where "w = reasoning_rank e"
  define f where "f = (\<lambda>b c. let r = reasoning_rank c in if r < 0 \<or> w < r then b else if b < r then r else b)"
  note best = best_rank [of w "-1" allowed, folded f_def]
  have clamp: "clamp_effort e allowed fb = (if 0 \<le> foldl f (-1) allowed then reasoning_ladder ! nat (foldl f (-1) allowed)
      else foldl (\<lambda>l c. if reasoning_rank c < reasoning_rank l then c else l) (hd allowed) (tl allowed))"
    using assms by (simp add: clamp_effort_def w_def [symmetric] f_def Let_def)
  show ?thesis
  proof (cases "0 \<le> foldl f (-1) allowed")
    case True
    then obtain c where c: "c \<in> set allowed" "reasoning_rank c \<le> w" "foldl f (-1) allowed = reasoning_rank c"
      using best by auto
    then have "clamp_effort e allowed fb = c" using True clamp assms(3) by (simp add: rank_nth)
    then show ?thesis using c best assms(3) by (auto simp: nearest_rung_def list_ex_iff list_all_iff w_def)
  next
    case False
    then have none: "\<forall>a \<in> set allowed. \<not> reasoning_rank a \<le> reasoning_rank e" using best assms(3) by (force simp: w_def)
    have "hd allowed # tl allowed = allowed" using assms(2) by simp
    then show ?thesis using none False clamp least_rank [of "hd allowed" "tl allowed"]
      by (auto simp: nearest_rung_def list_ex_iff list_all_iff)
  qed
qed

text \<open>Every row of the table is made of rungs and offers the default.\<close>

lemma efforts_rows:
  "efforts_for model \<noteq> []" "a \<in> set (efforts_for model) \<Longrightarrow> 0 \<le> reasoning_rank a" "default_effort \<in> set (efforts_for model)"
proof -
  have "list_all (\<lambda>es. es \<noteq> [] \<and> list_all (\<lambda>a. 0 \<le> reasoning_rank a) es \<and> default_effort \<in> set es) (reasoning_ladder # map snd model_efforts)"
    by (simp add: reasoning_rank_def reasoning_ladder_def model_efforts_def default_effort_def)
  moreover have "efforts_for model \<in> set (reasoning_ladder # map snd model_efforts)"
    by (auto simp: efforts_for_def split: option.split dest: map_of_SomeD intro: rev_image_eqI)
  ultimately have "efforts_for model \<noteq> [] \<and> list_all (\<lambda>a. 0 \<le> reasoning_rank a) (efforts_for model) \<and> default_effort \<in> set (efforts_for model)"
    unfolding list_all_iff by blast
  then show "efforts_for model \<noteq> []" "a \<in> set (efforts_for model) \<Longrightarrow> 0 \<le> reasoning_rank a" "default_effort \<in> set (efforts_for model)"
    by (auto simp: list_all_iff)
qed

lemma served_unknown: "reasoning_rank e < 0 \<Longrightarrow> served_effort model e = default_effort"
  using efforts_rows(1) [of model] by (auto simp: served_effort_def clamp_effort_def default_effort_def Let_def)

lemma served_default:
  "reasoning_rank e < 0 \<or> is_deepseek model \<and> e = ''medium'' \<Longrightarrow> served_effort model e = default_effort"
  using served_unknown [of e model] by (auto simp: served_effort_def default_effort_def)

lemma served_allowed: "served_effort model e \<in> set (efforts_for model)"
proof (cases "reasoning_rank e < 0 \<or> is_deepseek model \<and> e = ''medium''")
  case True
  then have "served_effort model e = default_effort" by (rule served_default)
  then show ?thesis using efforts_rows(3) by simp
next
  case False
  then have "nearest_rung e (efforts_for model) (served_effort model e)"
    using clamp_nearest efforts_rows by (auto simp: served_effort_def not_less)
  then show ?thesis by (simp add: nearest_rung_def)
qed

text \<open>
  C31: the effort sent to a model is one of the rungs the model offers: the highest that is not above the
  one asked for, the least when all are above, \<open>high\<close> for an unknown effort, and \<open>high\<close> for \<open>medium\<close> on
  a DeepSeek model.
\<close>

theorem served_effort_nearest:
  "served_effort model e \<in> set (efforts_for model) \<and>
   (if reasoning_rank e < 0 \<or> is_deepseek model \<and> e = ''medium'' then served_effort model e = ''high''
    else nearest_rung e (efforts_for model) (served_effort model e))"
proof (cases "reasoning_rank e < 0 \<or> is_deepseek model \<and> e = ''medium''")
  case True
  then have "served_effort model e = ''high''" using served_default by (simp add: default_effort_def)
  then show ?thesis using True served_allowed [of model e] by simp
next
  case False
  then have "nearest_rung e (efforts_for model) (served_effort model e)"
    using clamp_nearest efforts_rows by (auto simp: served_effort_def not_less)
  then show ?thesis using False served_allowed [of model e] by auto
qed

end
