(* ===== verification/SchemaNormal.thy ===== *)
theory SchemaNormal
  imports ConvertEffort SessionReply
begin

text \<open>
  \<open>internal/convert/schemacache.go\<close>: the normalisation of the JSON schemas of tools and the cache of
  its results.

  A Go map is visited in the order of its list.  The total-node budget is threaded through the
  recursion; \<open>repr\<close> is the text \<open>json.Marshal\<close> gives a value, whose number format is left to it.
  Cloning a value changes nothing here, as values are never changed in place.
\<close>

definition max_schema_depth :: nat where "max_schema_depth = 12"
definition max_schema_nodes :: int where "max_schema_nodes = 100000"

subsection \<open>Definitions and references\<close>

definition merge_maps :: "jmap \<Rightarrow> jmap \<Rightarrow> jmap" where
  "merge_maps base over = foldl (\<lambda>m (k, v). AList.update k v m) base over"

definition map_at :: "jmap \<Rightarrow> string \<Rightarrow> jmap" where
  "map_at m k = (case jobj (map_of m k) of Some d \<Rightarrow> d | None \<Rightarrow> [])"

definition extract_defs :: "jmap \<Rightarrow> jmap" where
  "extract_defs node = merge_maps (map_at node ''definitions'') (map_at node ''$defs'')"

definition split_at :: "char \<Rightarrow> string \<Rightarrow> string list" where
  "split_at c s = foldr (\<lambda>x acc. if x = c then [] # acc else (case acc of w # ws \<Rightarrow> (x # w) # ws | [] \<Rightarrow> [[x]])) s [[]]"

fun unescape :: "char \<Rightarrow> char \<Rightarrow> string \<Rightarrow> string" where
  "unescape d r [] = []"
| "unescape d r [c] = [c]"
| "unescape d r (c # e # cs) = (if c = CHR 0x7E \<and> e = d then r # unescape d r cs else c # unescape d r (e # cs))"

fun pointer_walk :: "string list \<Rightarrow> json \<Rightarrow> json option" where
  "pointer_walk [] v = Some v"
| "pointer_walk (s # ss) v = (let s = unescape (CHR 0x30) (CHR 0x7E) (unescape (CHR 0x31) (CHR 0x2F) s) in
     case v of
       JObj m \<Rightarrow> (case map_of m s of Some w \<Rightarrow> pointer_walk ss w | None \<Rightarrow> None)
     | JArr vs \<Rightarrow> (case go_atoi s of Some i \<Rightarrow> if i < 0 \<or> int (length vs) \<le> i then None else pointer_walk ss (vs ! nat i)
         | None \<Rightarrow> None)
     | _ \<Rightarrow> None)"

definition lookup_pointer :: "jmap \<Rightarrow> string \<Rightarrow> json option" where
  "lookup_pointer rt p = (if starts ''#/'' p then pointer_walk (split_at (CHR 0x2F) (drop 2 p)) (JObj rt) else None)"

definition try_resolve :: "jmap \<Rightarrow> jmap \<Rightarrow> json option" where
  "try_resolve node defs = (let r = str_at node ''$ref'' in
     if r = [] \<or> length node \<noteq> 1 then None
     else let name = (if starts ''#/definitions/'' r then drop 14 r else if starts ''#/$defs/'' r then drop 8 r else [])
       in if name = [] then None else map_of defs name)"

definition without_ref :: "jmap \<Rightarrow> jmap" where
  "without_ref node = (case map_of node ''$ref'' of None \<Rightarrow> [] | Some r \<Rightarrow> filter (\<lambda>(k, v). k \<noteq> ''$ref'') node)"

subsection \<open>The fields of one node\<close>

definition is_null_schema :: "jmap \<Rightarrow> bool" where
  "is_null_schema s \<longleftrightarrow> str_at s ''type'' = ''null'' \<or> map_of s ''const'' = Some JNull \<or> map_of s ''enum'' = Some (JArr [JNull])"

definition simplify_combinator :: "string \<Rightarrow> jmap \<Rightarrow> jmap" where
  "simplify_combinator key s = (case jarr (map_of s key) of
     None \<Rightarrow> s
   | Some raw \<Rightarrow> (case filter (\<lambda>v. \<not> (case v of JObj m \<Rightarrow> is_null_schema m | _ \<Rightarrow> False)) raw of
       [] \<Rightarrow> AList.delete key s
     | [JObj m] \<Rightarrow> merge_maps (filter (\<lambda>(k, v). k \<noteq> key) s) m
     | vs \<Rightarrow> AList.update key (JArr vs) s))"

definition normalize_type :: "jmap \<Rightarrow> jmap" where
  "normalize_type s = (case jarr (map_of s ''type'') of
     None \<Rightarrow> s
   | Some raw \<Rightarrow> (case filter (\<lambda>v. case v of JStr t \<Rightarrow> strings_trim t \<noteq> [] \<and> t \<noteq> ''null'' | _ \<Rightarrow> False) raw of
       [] \<Rightarrow> AList.delete ''type'' s
     | v # _ \<Rightarrow> AList.update ''type'' v s))"

fun go_kind :: "json \<Rightarrow> string" where
  "go_kind JNull = ''<nil>''"
| "go_kind (JBool b) = ''bool''"
| "go_kind (JNum q) = ''float64''"
| "go_kind (JStr s) = ''string''"
| "go_kind (JArr vs) = ''[]interface {}''"
| "go_kind (JObj m) = ''map[string]interface {}''"

fun dedupe :: "(json \<Rightarrow> string) \<Rightarrow> string list \<Rightarrow> json list \<Rightarrow> json list" where
  "dedupe repr seen [] = []"
| "dedupe repr seen (v # vs) = (let key = go_kind v @ [CHR 0x3A] @ repr v in
     if v = JNull \<or> key \<in> set seen then dedupe repr seen vs else v # dedupe repr (key # seen) vs)"

definition normalize_enum :: "(json \<Rightarrow> string) \<Rightarrow> jmap \<Rightarrow> jmap" where
  "normalize_enum repr s = (case jarr (map_of s ''enum'') of
     None \<Rightarrow> s
   | Some raw \<Rightarrow> (let vs = dedupe repr [] raw in if vs = [] then AList.delete ''enum'' s else AList.update ''enum'' (JArr vs) s))"

definition normalize_const :: "jmap \<Rightarrow> jmap" where
  "normalize_const s = (if map_of s ''const'' = Some JNull then AList.delete ''const'' s else s)"

definition clean_node :: "(json \<Rightarrow> string) \<Rightarrow> jmap \<Rightarrow> jmap" where
  "clean_node repr s = normalize_const (normalize_enum repr (normalize_type
     (simplify_combinator ''oneOf'' (simplify_combinator ''anyOf''
        (AList.delete ''nullable'' (AList.delete ''$defs'' (AList.delete ''definitions'' s)))))))"

subsection \<open>The recursion\<close>

text \<open>
  \<open>schema_map\<close> is \<open>normalizeSchemaMap\<close> and \<open>schema_value\<close> \<open>normalizeSchemaValue\<close>; \<open>st\<close> is the stack of
  references of the descent.  \<open>schema_list\<close> and \<open>schema_fields\<close> are their loops.
\<close>

function (sequential) schema_map :: "(json \<Rightarrow> string) \<Rightarrow> jmap \<Rightarrow> nat \<Rightarrow> jmap \<Rightarrow> string list \<Rightarrow> jmap \<Rightarrow> int \<Rightarrow> jmap \<times> int"
  and schema_value :: "(json \<Rightarrow> string) \<Rightarrow> jmap \<Rightarrow> nat \<Rightarrow> jmap \<Rightarrow> string list \<Rightarrow> json \<Rightarrow> int \<Rightarrow> json \<times> int"
  and schema_list :: "(json \<Rightarrow> string) \<Rightarrow> jmap \<Rightarrow> nat \<Rightarrow> jmap \<Rightarrow> string list \<Rightarrow> json list \<Rightarrow> int \<Rightarrow> json list \<times> int"
  and schema_fields :: "(json \<Rightarrow> string) \<Rightarrow> jmap \<Rightarrow> nat \<Rightarrow> jmap \<Rightarrow> string list \<Rightarrow> jmap \<Rightarrow> int \<Rightarrow> jmap \<times> int" where
  "schema_map repr rt 0 defs st node b = (node, b)"
| "schema_map repr rt (Suc d) defs st node b = (if b \<le> 0 then (node, b) else
     let b = b - 1; defs = merge_maps defs (extract_defs node); r = str_at node ''$ref'' in
     if r \<noteq> [] \<and> starts ''#/'' r then
       (if r \<in> set st then ([], b) else
        case try_resolve node defs of
          Some v \<Rightarrow> (case v of JObj m \<Rightarrow> schema_map repr rt d defs (r # st) m b | _ \<Rightarrow> (node, b))
        | None \<Rightarrow>
            (case lookup_pointer rt r of
               Some target \<Rightarrow>
                 (case schema_value repr rt d defs (r # st) target b of
                    (JObj rm, b) \<Rightarrow> if without_ref node \<noteq> [] then schema_map repr rt d defs st (merge_maps rm (without_ref node)) b
                      else (rm, b)
                  | (_, b) \<Rightarrow> (node, b))
             | None \<Rightarrow> if without_ref node \<noteq> [] then schema_map repr rt d defs st (without_ref node) b else (node, b)))
     else (case schema_fields repr rt d defs st node b of (m, b) \<Rightarrow> (clean_node repr m, b)))"
| "schema_value repr rt d defs st (JArr vs) b = (case schema_list repr rt d defs st vs b of (vs, b) \<Rightarrow> (JArr vs, b))"
| "schema_value repr rt d defs st (JObj m) b = (case schema_map repr rt d defs st m b of (m, b) \<Rightarrow> (JObj m, b))"
| "schema_value repr rt d defs st v b = (v, b)"
| "schema_list repr rt d defs st [] b = ([], b)"
| "schema_list repr rt d defs st (v # vs) b = (case schema_value repr rt d defs st v b of (v, b) \<Rightarrow>
     (case schema_list repr rt d defs st vs b of (vs, b) \<Rightarrow> (v # vs, b)))"
| "schema_fields repr rt d defs st [] b = ([], b)"
| "schema_fields repr rt d defs st ((k, v) # m) b = (case schema_value repr rt d defs st v b of (v, b) \<Rightarrow>
     (case schema_fields repr rt d defs st m b of (m, b) \<Rightarrow> ((k, v) # m, b)))"
  by pat_completeness auto
termination
  by (relation "inv_image (less_than <*lex*> less_than) (case_sum
        (case_sum (\<lambda>(repr, rt, d, defs, st, node, b). (d, 0)) (\<lambda>(repr, rt, d, defs, st, v, b). (d, Suc (size v))))
        (case_sum (\<lambda>(repr, rt, d, defs, st, vs, b). (d, Suc (size_list size vs)))
          (\<lambda>(repr, rt, d, defs, st, m, b). (d, Suc (size_list (\<lambda>x. size (snd x)) m)))))") auto

definition normalize_schema :: "(json \<Rightarrow> string) \<Rightarrow> jmap \<Rightarrow> int \<Rightarrow> jmap \<times> int" where
  "normalize_schema repr params b = schema_map repr params max_schema_depth (extract_defs params) [] params b"

subsection \<open>The cache\<close>

type_synonym schema_key = "int list \<times> int"

record schema_cache =
  sc_entries :: "(schema_key \<times> jmap) list"
  sc_order :: "schema_key list"

definition no_schemas :: schema_cache where "no_schemas = \<lparr>sc_entries = [], sc_order = []\<rparr>"

definition schema_cache_max :: nat where "schema_cache_max = 256"

definition schema_cache_get :: "schema_key \<Rightarrow> schema_cache \<Rightarrow> jmap option \<times> schema_cache" where
  "schema_cache_get k c = (case map_of (sc_entries c) k of
     None \<Rightarrow> (None, c)
   | Some v \<Rightarrow> (Some v, c\<lparr>sc_order := remove1 k (sc_order c) @ [k]\<rparr>))"

text \<open>The oldest key is read from an order that has one while the cache is full.\<close>

definition schema_cache_put :: "schema_key \<Rightarrow> jmap \<Rightarrow> schema_cache \<Rightarrow> schema_cache" where
  "schema_cache_put k v c = (if map_of (sc_entries c) k \<noteq> None then c\<lparr>sc_entries := AList.update k v (sc_entries c)\<rparr>
     else let c = (if schema_cache_max \<le> length (sc_entries c)
         then c\<lparr>sc_entries := AList.delete (hd (sc_order c)) (sc_entries c), sc_order := tl (sc_order c)\<rparr> else c)
     in c\<lparr>sc_entries := AList.update k v (sc_entries c), sc_order := sc_order c @ [k]\<rparr>)"

definition schema_cached :: "(json \<Rightarrow> string) \<Rightarrow> jmap \<Rightarrow> int \<times> schema_cache \<Rightarrow> jmap \<times> int \<times> schema_cache" where
  "schema_cached repr params s = (let k = (sha256 (repr (JObj params)), fst s) in
     case schema_cache_get k (snd s) of
       (Some v, c) \<Rightarrow> (v, fst s, c)
     | (None, c) \<Rightarrow> (let (m, b) = normalize_schema repr params (fst s) in (m, b, schema_cache_put k m c)))"

subsection \<open>The tools of a request\<close>

definition end_turn_tool :: json where
  "end_turn_tool = JObj [(''type'', JStr ''function''), (''function'', JObj [(''name'', JStr ''end_turn''),
     (''description'', JStr ''Signal the end of the current task.''),
     (''parameters'', JObj [(''type'', JStr ''object''), (''properties'', JObj [])])])]"

definition normalize_tool :: "(json \<Rightarrow> string) \<Rightarrow> json \<Rightarrow> int \<times> schema_cache \<Rightarrow> json \<times> int \<times> schema_cache" where
  "normalize_tool repr t s = (case t of
     JObj tool \<Rightarrow> (case jobj (map_of tool ''function'') of
         None \<Rightarrow> (t, s)
       | Some fn \<Rightarrow> (case jobj (map_of fn ''parameters'') of
           None \<Rightarrow> (t, s)
         | Some params \<Rightarrow> (let (m, s) = schema_cached repr params s in
             (JObj (AList.update ''function'' (JObj (AList.update ''parameters'' (JObj m) fn)) tool), s))))
   | _ \<Rightarrow> (t, s))"

fun normalize_tools :: "(json \<Rightarrow> string) \<Rightarrow> json list \<Rightarrow> int \<times> schema_cache \<Rightarrow> json list \<times> int \<times> schema_cache" where
  "normalize_tools repr [] s = ([], s)"
| "normalize_tools repr (t # ts) s = (let (t, s) = normalize_tool repr t s; (ts, s) = normalize_tools repr ts s in (t # ts, s))"

definition is_end_turn :: "json \<Rightarrow> bool" where
  "is_end_turn t = (case t of JObj tool \<Rightarrow> (case jobj (map_of tool ''function'') of
     Some fn \<Rightarrow> str_at fn ''name'' = ''end_turn'' | None \<Rightarrow> False) | _ \<Rightarrow> False)"

definition normalize_tool_schemas :: "(json \<Rightarrow> string) \<Rightarrow> jmap \<Rightarrow> schema_cache \<Rightarrow> jmap \<times> schema_cache" where
  "normalize_tool_schemas repr payload c = (case jarr (map_of payload ''tools'') of
     None \<Rightarrow> (payload, c)
   | Some tools \<Rightarrow> if tools = [] then (payload, c) else
       (let (ts, b, c) = normalize_tools repr tools (max_schema_nodes, c)
        in (AList.update ''tools'' (JArr (if list_ex is_end_turn tools then ts else ts @ [end_turn_tool])) payload, c)))"


subsection \<open>The budget only shrinks\<close>

lemma schema_budget:
  "snd (schema_map repr rt d defs st node b) \<le> b"
  "snd (schema_value repr rt d defs st v b) \<le> b"
  "snd (schema_list repr rt d defs st vs b) \<le> b"
  "snd (schema_fields repr rt d defs st m b) \<le> b"
proof (induction rule: schema_map_schema_value_schema_list_schema_fields.induct
    [where P = "\<lambda>repr rt d defs st node b. snd (schema_map repr rt d defs st node b) \<le> b"
      and Q = "\<lambda>repr rt d defs st v b. snd (schema_value repr rt d defs st v b) \<le> b"
      and R = "\<lambda>repr rt d defs st vs b. snd (schema_list repr rt d defs st vs b) \<le> b"
      and S = "\<lambda>repr rt d defs st m b. snd (schema_fields repr rt d defs st m b) \<le> b"])
  case (2 repr rt d defs st node b)
  define ds r where "ds = merge_maps defs (extract_defs node)" and "r = str_at node ''$ref''"
  note unf = schema_map.simps(2) Let_def ds_def [symmetric] r_def [symmetric]
  note IH = 2 [unfolded Let_def, folded ds_def r_def]
  note fields = IH(5) [OF _ refl refl refl] and resolved = IH(4) [OF _ refl refl refl _ _ _ refl]
    and pointer = IH(2) [OF _ refl refl refl] and merged = IH(3) [OF _ refl refl refl _ _ _ _ _ refl]
    and siblings = IH(1) [OF _ refl refl refl]
  show ?case
  proof (cases "b \<le> 0")
    case b: False
    show ?thesis
    proof (cases "r \<noteq> [] \<and> starts ''#/'' r")
      case ref: True
      show ?thesis
      proof (cases "r \<in> set st")
        case st: False
        show ?thesis
        proof (cases "try_resolve node ds")
          case (Some v)
          then show ?thesis using b ref st resolved by (cases v) (fastforce simp: unf)+
        next
          case none: None
          show ?thesis
          proof (cases "lookup_pointer rt r")
            case None
            then show ?thesis using b ref st none siblings by (fastforce simp: unf)
          next
            case (Some t)
            obtain v b' where v: "schema_value repr rt d ds (r # st) t (b - 1) = (v, b')" by fastforce
            then have "b' \<le> b - 1" using pointer [OF b ref st none Some] by simp
            then show ?thesis using b ref st none Some v merged [OF b ref st none Some]
              by (cases v) (fastforce simp: unf)+
          qed
        qed
      qed (use b ref in \<open>simp add: unf\<close>)
    next
      case ref: False
      then show ?thesis using b fields [OF b ref] by (auto simp: unf split: prod.split)
    qed
  qed simp
qed (auto split: prod.splits)


text \<open>A loop over fields keeps the keys; the value of a key is normalised under some budget in between.\<close>

lemma schema_fields_value:
  assumes "map_of m k = Some v" "gomap m"
  shows "\<exists>b' . b' \<le> b \<and> snd (schema_fields repr rt d defs st m b) \<le> snd (schema_value repr rt d defs st v b') \<and>
    map_of (fst (schema_fields repr rt d defs st m b)) k = Some (fst (schema_value repr rt d defs st v b'))"
  using assms
proof (induction m arbitrary: b)
  case (Cons kv m)
  obtain k' v' where kv: "kv = (k', v')" by fastforce
  obtain w b1 where w: "schema_value repr rt d defs st v' b = (w, b1)" by fastforce
  obtain m' b2 where m': "schema_fields repr rt d defs st m b1 = (m', b2)" by fastforce
  have b: "b1 \<le> b" "b2 \<le> b1" using schema_budget(2) [of repr rt d defs st v' b] schema_budget(4) [of repr rt d defs st m b1]
    by (simp_all add: w m')
  show ?case
  proof (cases "k' = k")
    case True
    then show ?thesis using Cons.prems w m' b by (auto simp: kv intro!: exI [of _ b])
  next
    case False
    then have "map_of m k = Some v" "gomap m" using Cons.prems by (auto simp: kv gomap_def)
    from Cons.IH [OF this, of b1] obtain b' where "b' \<le> b1" "b2 \<le> snd (schema_value repr rt d defs st v b')"
      "map_of m' k = Some (fst (schema_value repr rt d defs st v b'))" by (auto simp: m')
    then show ?thesis using False w m' b by (auto simp: kv intro!: exI [of _ b'])
  qed
qed simp

lemma schema_fields_keys: "map fst (fst (schema_fields repr rt d defs st m b)) = map fst m"
  by (induction m arbitrary: b) (auto split: prod.split, (metis fst_conv)+)

lemma map_of_keys_eq: "map fst m = map fst m' \<Longrightarrow> (map_of m k = None) = (map_of m' k = None)"
  by (metis map_of_eq_None_iff set_map)


lemma schema_value_no_array: "jarr (Some v) = None \<Longrightarrow> jarr (Some (fst (schema_value repr rt d defs st v b))) = None"
  by (cases v) (auto simp: jarr_def split: prod.split)

lemma schema_fields_no_array:
  assumes "jarr (map_of m k) = None" "gomap m"
  shows "jarr (map_of (fst (schema_fields repr rt d defs st m b)) k) = None"
proof (cases "map_of m k")
  case None
  then show ?thesis using map_of_keys_eq [OF schema_fields_keys] by (metis jarr_def option.simps(4))
next
  case (Some v)
  then show ?thesis using schema_fields_value [OF Some assms(2), of b repr rt d defs st] schema_value_no_array assms(1) by auto
qed

lemma schema_strings: "fst (schema_value repr rt d defs st (JArr (map JStr ns)) b) = JArr (map JStr ns)"
proof -
  have "schema_list repr rt d defs st (map JStr ns) b = (map JStr ns, b)" for b by (induction ns) auto
  then show ?thesis by simp
qed

lemma clean_node_key:
  assumes "jarr (map_of m ''anyOf'') = None" "jarr (map_of m ''oneOf'') = None" "k \<notin> {''type'', ''enum'', ''const''}"
  shows "map_of (clean_node repr m) k = (if k \<in> {''definitions'', ''$defs'', ''nullable''} then None else map_of m k)"
proof -
  let ?n = "AList.delete ''nullable'' (AList.delete ''$defs'' (AList.delete ''definitions'' m))"
  have "simplify_combinator ''oneOf'' (simplify_combinator ''anyOf'' ?n) = ?n"
    using assms(1,2) by (simp add: simplify_combinator_def gomap_simps)
  moreover have "map_of (normalize_const s) k = map_of s k" "map_of (normalize_enum repr s) k = map_of s k"
    "map_of (normalize_type s) k = map_of s k" for s
    using assms(3) by (auto simp: normalize_const_def normalize_enum_def normalize_type_def gomap_simps Let_def split: option.split list.split)
  ultimately show ?thesis by (simp add: clean_node_def gomap_simps)
qed

text \<open>One object node with no reference, within the caps.\<close>

lemma schema_map_plain:
  assumes "str_at node ''$ref'' = []" "0 < snd (schema_map repr rt (Suc d) defs st node b)"
  shows "0 < b \<and> schema_map repr rt (Suc d) defs st node b =
    (let (m, b') = schema_fields repr rt d (merge_maps defs (extract_defs node)) st node (b - 1) in (clean_node repr m, b'))"
  using assms by (auto simp: Let_def split: if_splits prod.split)

text \<open>
  C34: a tool parameter named \<open>nullable\<close>, \<open>definitions\<close> or \<open>$defs\<close> is lost: the map of the parameters is
  normalised like a schema, so the names of the parameters are taken for keywords, while the list of the
  required parameters still names it.
\<close>

theorem parameter_taken_for_keyword:
  assumes "str_at s ''$ref'' = []" "jarr (map_of s ''anyOf'') = None" "jarr (map_of s ''oneOf'') = None" "gomap s"
    and "map_of s ''properties'' = Some (JObj ps)" "map_of s ''required'' = Some (JArr (map JStr names))"
    and "str_at ps ''$ref'' = []" "jarr (map_of ps ''anyOf'') = None" "jarr (map_of ps ''oneOf'') = None" "gomap ps"
    and "p \<in> {''nullable'', ''definitions'', ''$defs''}" "0 < snd (normalize_schema repr s b)"
  shows "map_of (map_at (fst (normalize_schema repr s b)) ''properties'') p = None \<and>
    jobj (map_of (fst (normalize_schema repr s b)) ''properties'') \<noteq> None \<and>
    map_of (fst (normalize_schema repr s b)) ''required'' = Some (JArr (map JStr names))"
proof -
  have "\<exists>d. max_schema_depth = Suc (Suc d)" unfolding max_schema_depth_def by presburger
  then obtain d where twelve: "max_schema_depth = Suc (Suc d)" by blast
  define ds where "ds = merge_maps (extract_defs s) (extract_defs s)"
  obtain m b1 where m: "schema_fields repr s (Suc d) ds [] s (b - 1) = (m, b1)" by fastforce
  have norm: "normalize_schema repr s b = (clean_node repr m, b1)"
    using schema_map_plain [OF assms(1) assms(12) [unfolded normalize_schema_def twelve]]
    by (simp add: normalize_schema_def twelve ds_def [symmetric] m del: schema_map.simps)
  have arr: "jarr (map_of m ''anyOf'') = None" "jarr (map_of m ''oneOf'') = None"
    using schema_fields_no_array [OF assms(2,4)] schema_fields_no_array [OF assms(3,4)] m by (metis fst_conv)+
  obtain b2 where b2: "b1 \<le> snd (schema_value repr s (Suc d) ds [] (JObj ps) b2)"
      "map_of m ''properties'' = Some (fst (schema_value repr s (Suc d) ds [] (JObj ps) b2))"
    using schema_fields_value [OF assms(5,4), of "b - 1" repr s "Suc d" ds "[]"] m by auto
  obtain b3 where b3: "map_of m ''required'' = Some (fst (schema_value repr s (Suc d) ds [] (JArr (map JStr names)) b3))"
    using schema_fields_value [OF assms(6,4), of "b - 1" repr s "Suc d" ds "[]"] m by auto
  have "0 < snd (schema_map repr s (Suc d) ds [] ps b2)"
    using b2(1) assms(12) norm by (auto split: prod.splits simp del: schema_map.simps)
  note ps = schema_map_plain [OF assms(7) this]
  obtain m2 b4 where m2: "schema_fields repr s d (merge_maps ds (extract_defs ps)) [] ps (b2 - 1) = (m2, b4)" by fastforce
  have "map_of m ''properties'' = Some (JObj (clean_node repr m2))" using b2(2) ps m2 by (simp del: schema_map.simps)
  moreover have "jarr (map_of m2 ''anyOf'') = None" "jarr (map_of m2 ''oneOf'') = None"
    using schema_fields_no_array [OF assms(8,10)] schema_fields_no_array [OF assms(9,10)] m2 by (metis fst_conv)+
  then have "map_of (clean_node repr m2) p = None" using assms(11) by (auto simp: clean_node_key)
  ultimately show ?thesis
    using b3 by (simp add: norm clean_node_key [OF arr] map_at_def jobj_def schema_strings del: schema_value.simps)
qed

text \<open>A tool with a required parameter \<open>nullable\<close>.\<close>

definition nullable_tool :: jmap where
  "nullable_tool = [(''type'', JStr ''object''),
     (''properties'', JObj [(''column'', JObj [(''type'', JStr ''string'')]), (''nullable'', JObj [(''type'', JStr ''boolean'')])]),
     (''required'', JArr [JStr ''column'', JStr ''nullable''])]"

theorem parameter_taken_for_keyword_witness:
  "map_of (map_at (fst (normalize_schema (\<lambda>v. []) nullable_tool 100000)) ''properties'') ''nullable'' = None \<and>
   jobj (map_of (fst (normalize_schema (\<lambda>v. []) nullable_tool 100000)) ''properties'') \<noteq> None \<and>
   map_of (fst (normalize_schema (\<lambda>v. []) nullable_tool 100000)) ''required'' = Some (JArr (map JStr [''column'', ''nullable'']))"
proof (rule parameter_taken_for_keyword [where ps = "map_at nullable_tool ''properties''"])
  show "0 < snd (normalize_schema (\<lambda>v. []) nullable_tool 100000)" by code_simp
qed (simp_all add: nullable_tool_def map_at_def jobj_def str_at_def jstr_def jarr_def gomap_def)


subsection \<open>The cache is transparent\<close>

definition schema_hash :: "(json \<Rightarrow> string) \<Rightarrow> jmap \<Rightarrow> int list" where
  "schema_hash repr p = sha256 (repr (JObj p))"

text \<open>The order lists the keys of the entries once, and an entry is the result for its key.\<close>

definition schemas_ok :: "(json \<Rightarrow> string) \<Rightarrow> jmap set \<Rightarrow> schema_cache \<Rightarrow> bool" where
  "schemas_ok repr S c \<longleftrightarrow> gomap (sc_entries c) \<and> distinct (sc_order c) \<and> set (sc_order c) = fst ` set (sc_entries c) \<and>
     length (sc_entries c) \<le> schema_cache_max \<and>
     (\<forall>p \<in> S. \<forall>b v. map_of (sc_entries c) (schema_hash repr p, b) = Some v \<longrightarrow> v = fst (normalize_schema repr p b))"

lemma schemas_ok_get:
  assumes "schemas_ok repr S c" "schema_cache_get k c = (r, c')"
  shows "schemas_ok repr S c' \<and> r = map_of (sc_entries c) k \<and> sc_entries c' = sc_entries c"
proof (cases "map_of (sc_entries c) k")
  case (Some v)
  then have "k \<in> fst ` set (sc_entries c)" by (metis map_of_eq_None_iff option.distinct(1))
  then have "set (remove1 k (sc_order c) @ [k]) = set (sc_order c)" "distinct (remove1 k (sc_order c) @ [k])"
    using assms(1) unfolding schemas_ok_def by auto
  moreover have "r = Some v" "c' = c\<lparr>sc_order := remove1 k (sc_order c) @ [k]\<rparr>"
    using assms(2) Some by (simp_all add: schema_cache_get_def)
  ultimately show ?thesis using assms(1) Some unfolding schemas_ok_def by simp
qed (use assms in \<open>auto simp: schema_cache_get_def\<close>)

lemma fst_set_delete: "fst ` set (AList.delete k m) = fst ` set m - {k}"
  by (force simp: set_delete)

definition schema_room :: "schema_cache \<Rightarrow> schema_cache" where
  "schema_room c = (if schema_cache_max \<le> length (sc_entries c)
     then c\<lparr>sc_entries := AList.delete (hd (sc_order c)) (sc_entries c), sc_order := tl (sc_order c)\<rparr> else c)"

lemma schema_room:
  assumes "schemas_ok repr S c"
  shows "gomap (sc_entries (schema_room c)) \<and> distinct (sc_order (schema_room c)) \<and>
    set (sc_order (schema_room c)) = fst ` set (sc_entries (schema_room c)) \<and> length (sc_entries (schema_room c)) < schema_cache_max \<and>
    (\<forall>k v. map_of (sc_entries (schema_room c)) k = Some v \<longrightarrow> map_of (sc_entries c) k = Some v)"
proof (cases "schema_cache_max \<le> length (sc_entries c)")
  case True
  then have "fst ` set (sc_entries c) \<noteq> {}" by (auto simp: schema_cache_max_def)
  then obtain o1 os where os: "sc_order c = o1 # os" using assms by (cases "sc_order c") (auto simp: schemas_ok_def)
  then have "o1 \<in> fst ` set (sc_entries c)" using assms unfolding schemas_ok_def by (metis list.set_intros(1))
  then have "map_of (sc_entries c) o1 \<noteq> None" by (simp add: map_of_eq_None_iff)
  then have "length (AList.delete o1 (sc_entries c)) < length (sc_entries c)" by (rule length_delete_present)
  then have "length (AList.delete o1 (sc_entries c)) < schema_cache_max" using assms unfolding schemas_ok_def by linarith
  moreover have "set os = fst ` set (AList.delete o1 (sc_entries c))" "distinct os" "gomap (AList.delete o1 (sc_entries c))"
    using assms os unfolding schemas_ok_def fst_set_delete by (auto intro: gomap_intros)
  ultimately show ?thesis using True os by (auto simp: schema_room_def gomap_simps split: if_splits)
qed (use assms in \<open>auto simp: schema_room_def schemas_ok_def\<close>)

lemma schemas_ok_put:
  assumes "schemas_ok repr S c" "inj_on (schema_hash repr) S" "p \<in> S" "map_of (sc_entries c) (schema_hash repr p, b) = None"
  shows "schemas_ok repr S (schema_cache_put (schema_hash repr p, b) (fst (normalize_schema repr p b)) c)"
proof -
  let ?k = "(schema_hash repr p, b)" and ?v = "fst (normalize_schema repr p b)"
  define d where "d = schema_room c"
  have d: "gomap (sc_entries d)" "distinct (sc_order d)" "set (sc_order d) = fst ` set (sc_entries d)"
    "length (sc_entries d) < schema_cache_max" "\<And>k v. map_of (sc_entries d) k = Some v \<Longrightarrow> map_of (sc_entries c) k = Some v"
    using schema_room [OF assms(1)] unfolding d_def by blast+
  have none: "map_of (sc_entries d) ?k = None" using d(5) [of ?k] assms(4) by (cases "map_of (sc_entries d) ?k") auto
  have put: "schema_cache_put ?k ?v c = d\<lparr>sc_entries := AList.update ?k ?v (sc_entries d), sc_order := sc_order d @ [?k]\<rparr>"
    using assms(4) by (simp add: schema_cache_put_def d_def schema_room_def Let_def)
  have new: "?k \<notin> set (sc_order d)" unfolding d(3) using none by (simp add: map_of_eq_None_iff)
  have res: "v = fst (normalize_schema repr q b')"
    if "q \<in> S" "map_of (AList.update ?k ?v (sc_entries d)) (schema_hash repr q, b') = Some v" for q b' v
  proof (cases "(schema_hash repr q, b') = ?k")
    case True
    then have "q = p" "b' = b" using assms(2,3) that(1) by (auto dest: inj_onD)
    then show ?thesis using that(2) by (simp add: gomap_simps)
  next
    case False
    then have "map_of (sc_entries d) (schema_hash repr q, b') = Some v" using that(2) by (auto simp: map_of_update split: if_splits)
    then show ?thesis using d(5) assms(1) that(1) unfolding schemas_ok_def by blast
  qed
  have upd: "AList.update ?k ?v (sc_entries d) = sc_entries d @ [(?k, ?v)]" using none by (rule update_absent_append)
  have "gomap (AList.update ?k ?v (sc_entries d))" using d(1) by (rule gomap_intros)
  moreover have "set (sc_order d @ [?k]) = fst ` set (AList.update ?k ?v (sc_entries d))" "distinct (sc_order d @ [?k])"
    "length (AList.update ?k ?v (sc_entries d)) \<le> schema_cache_max"
    using d(2-4) new by (simp_all add: upd)
  ultimately show ?thesis using res unfolding schemas_ok_def put by simp
qed

lemma schema_cached_ok:
  assumes "schemas_ok repr S c" "inj_on (schema_hash repr) S" "p \<in> S" "schema_cached repr p (b, c) = (m, b', c')"
  shows "schemas_ok repr S c' \<and> m = fst (normalize_schema repr p b)"
proof -
  obtain r c1 where g: "schema_cache_get (schema_hash repr p, b) c = (r, c1)" by fastforce
  note get = schemas_ok_get [OF assms(1) g]
  show ?thesis
  proof (cases r)
    case None
    then show ?thesis using assms g get schemas_ok_put [of repr S c1 p b]
      by (auto simp: schema_cached_def schema_hash_def [symmetric] Let_def split: prod.splits)
  next
    case (Some v)
    then have "v = fst (normalize_schema repr p b)" using get assms(1,3) unfolding schemas_ok_def by metis
    moreover have "schema_cached repr p (b, c) = (v, b, c1)"
      by (simp add: schema_cached_def schema_hash_def [symmetric] g Some)
    ultimately show ?thesis using assms(4) get by simp
  qed
qed

fun schema_calls :: "(json \<Rightarrow> string) \<Rightarrow> (jmap \<times> int) list \<Rightarrow> schema_cache \<Rightarrow> schema_cache" where
  "schema_calls repr [] c = c"
| "schema_calls repr ((p, b) # cs) c = schema_calls repr cs (snd (snd (schema_cached repr p (b, c))))"

lemma schema_calls_ok:
  "schemas_ok repr S c \<Longrightarrow> inj_on (schema_hash repr) S \<Longrightarrow> fst ` set cs \<subseteq> S \<Longrightarrow> schemas_ok repr S (schema_calls repr cs c)"
proof (induction repr cs c rule: schema_calls.induct)
  case (2 repr p b cs c)
  obtain m b' c' where s: "schema_cached repr p (b, c) = (m, b', c')" by (metis prod.exhaust)
  then have "schemas_ok repr S c'" using schema_cached_ok 2(2-4) by auto
  then show ?case using 2 s by simp
qed simp

text \<open>
  C35: the cache of normalised schemas is transparent: after any calls a schema is given the result
  its normalisation under the budget at hand has, whether it hits or not, as long as no two schemas
  in use have the same SHA-256; the cache never holds more than its maximum.
\<close>

theorem schema_cache_transparent:
  assumes "inj_on (schema_hash repr) S" "fst ` set calls \<subseteq> S" "p \<in> S"
  shows "fst (schema_cached repr p (b, schema_calls repr calls no_schemas)) = fst (normalize_schema repr p b) \<and>
    length (sc_entries (schema_calls repr calls no_schemas)) \<le> schema_cache_max"
proof -
  have "schemas_ok repr S no_schemas" by (simp add: schemas_ok_def no_schemas_def)
  note ok = schema_calls_ok [OF this assms(1,2)]
  obtain m b' c' where s: "schema_cached repr p (b, schema_calls repr calls no_schemas) = (m, b', c')" by (metis prod.exhaust)
  then show ?thesis using schema_cached_ok [OF ok assms(1,3) s] ok by (simp add: schemas_ok_def)
qed

text \<open>The same tool sent twice.\<close>

theorem schema_cache_transparent_witness:
  "fst (schema_cached (\<lambda>v. []) nullable_tool (100000, schema_calls (\<lambda>v. []) [(nullable_tool, 100000)] no_schemas)) =
     fst (normalize_schema (\<lambda>v. []) nullable_tool 100000) \<and>
   length (sc_entries (schema_calls (\<lambda>v. []) [(nullable_tool, 100000)] no_schemas)) \<le> schema_cache_max"
  by (rule schema_cache_transparent [where S = "{nullable_tool}"]) simp_all

end
