(* ===== verification/ConvertRequest.thy ===== *)
theory ConvertRequest
  imports SchemaNormal
begin

text \<open>
  \<open>NormalizeRequest\<close> of \<open>internal/convert/convert.go\<close>: the rewriting of a client's chat-completions body
  into the one sent upstream.

  The result is the value handed to the last \<open>json.Marshal\<close>.  The environment holds the variables
  read by \<open>os.Getenv\<close>, the reasoning lookup installed by the server (given the tool calls as a value)
  and \<open>repr\<close> for the schemas.  The schema cache is threaded through.
\<close>

record conv_env =
  ev_compress :: string
  ev_cache_hints :: string
  ev_lookup :: "(string \<Rightarrow> string \<Rightarrow> json option \<Rightarrow> string option) option"
  ev_repr :: "json \<Rightarrow> string"

text \<open>A decoded document: of the members of an object with one name the last is kept.\<close>

fun go_value :: "json \<Rightarrow> json" where
  "go_value (JArr vs) = JArr (map go_value vs)"
| "go_value (JObj m) = JObj (foldl (\<lambda>out (k, v). AList.update k v out) [] (map (\<lambda>(k, v). (k, go_value v)) m))"
| "go_value v = v"

fun json_floats_ok :: "json \<Rightarrow> bool" where
  "json_floats_ok (JNum q) = float_ok q"
| "json_floats_ok (JArr vs) = list_all json_floats_ok vs"
| "json_floats_ok (JObj m) = list_all (\<lambda>(k, v). json_floats_ok v) m"
| "json_floats_ok v = True"

definition decode_object :: "string \<Rightarrow> jmap option" where
  "decode_object body = (case json_parse body of
     Some v \<Rightarrow> if json_floats_ok v then jobj (Some (go_value v)) else None
   | None \<Rightarrow> None)"

definition upstream_keys :: "string list" where
  "upstream_keys = [''frequency_penalty'', ''logit_bias'', ''logprobs'', ''max_completion_tokens'', ''max_tokens'', ''metadata'',
     ''modalities'', ''parallel_tool_calls'', ''presence_penalty'', ''reasoning_effort'', ''response_format'', ''seed'',
     ''service_tier'', ''stop'', ''store'', ''stream_options'', ''temperature'', ''tool_choice'', ''tools'', ''top_logprobs'',
     ''top_p'', ''user'']"

subsection \<open>Fields\<close>

definition kept_field :: "string \<times> json \<Rightarrow> bool" where
  "kept_field kv \<longleftrightarrow> fst kv = ''model'' \<or> fst kv = ''messages'' \<or> fst kv \<in> set upstream_keys \<and> snd kv \<noteq> JNull"

definition is_nil :: "json option \<Rightarrow> bool" where
  "is_nil v \<longleftrightarrow> v = None \<or> v = Some JNull"

definition is_jobj :: "json \<Rightarrow> bool" where
  "is_jobj v \<longleftrightarrow> (case v of JObj m \<Rightarrow> True | _ \<Rightarrow> False)"

text \<open>The legacy \<open>functions\<close> and \<open>function_call\<close>.\<close>

definition legacy_tools :: "jmap \<Rightarrow> jmap \<Rightarrow> jmap" where
  "legacy_tools payload out = (if \<not> is_nil (map_of out ''tools'') then out else
     case jarr (map_of payload ''functions'') of
       None \<Rightarrow> out
     | Some fns \<Rightarrow> (let tools = map (\<lambda>f. JObj [(''type'', JStr ''function''), (''function'', f)]) (filter is_jobj fns)
         in if tools = [] then out else AList.update ''tools'' (JArr tools) out))"

definition legacy_choice :: "jmap \<Rightarrow> jmap \<Rightarrow> jmap" where
  "legacy_choice payload out = (if \<not> is_nil (map_of out ''tool_choice'') then out else
     case map_of payload ''function_call'' of
       Some (JStr s) \<Rightarrow> AList.update ''tool_choice'' (JStr s) out
     | Some (JObj m) \<Rightarrow> (if str_at m ''name'' \<noteq> []
         then AList.update ''tool_choice'' (JObj [(''type'', JStr ''function''),
                (''function'', JObj [(''name'', JStr (str_at m ''name''))])]) out else out)
     | _ \<Rightarrow> out)"

subsection \<open>Messages\<close>

text \<open>The lookup of the reasoning: by the id of each tool call, then by content and tool calls.\<close>

fun lookup_ids :: "(string \<Rightarrow> string \<Rightarrow> json option \<Rightarrow> string option) \<Rightarrow> json list \<Rightarrow> string" where
  "lookup_ids f [] = []"
| "lookup_ids f (JObj m # ts) = (let i = str_at m ''id'' in
     if i = [] then lookup_ids f ts else
     case f i [] None of Some r \<Rightarrow> if r \<noteq> [] then r else lookup_ids f ts | None \<Rightarrow> lookup_ids f ts)"
| "lookup_ids f (_ # ts) = lookup_ids f ts"

definition found_reasoning :: "conv_env \<Rightarrow> jmap \<Rightarrow> json list \<Rightarrow> string" where
  "found_reasoning e msg tcs = (case ev_lookup e of
     None \<Rightarrow> []
   | Some f \<Rightarrow> (let r = lookup_ids f tcs in
       if r \<noteq> [] then r else (case f [] (str_at msg ''content'') (map_of msg ''tool_calls'') of Some r \<Rightarrow> r | None \<Rightarrow> [])))"

definition set_key :: "string \<Rightarrow> json \<Rightarrow> jmap \<Rightarrow> jmap" where
  "set_key k v m = AList.update k v m"

definition think_of_calls :: "jmap \<Rightarrow> jmap" where
  "think_of_calls msg = (let c = str_at msg ''content''; (r, cleaned) = extract_think c in
     if c = [] \<or> r = [] then msg
     else set_key ''content'' (if cleaned = [] then JNull else JStr cleaned) (set_key ''reasoning_content'' (JStr r) msg))"

definition assistant_calls :: "conv_env \<Rightarrow> string \<Rightarrow> jmap \<Rightarrow> json list \<Rightarrow> jmap" where
  "assistant_calls e model msg tcs = (let c = map_of msg ''content'';
       msg = (if is_nil c \<or> c = Some (JStr []) then set_key ''content'' JNull msg else msg)
     in if str_at msg ''reasoning_content'' \<noteq> [] then msg else
       let msg = think_of_calls msg in
       if str_at msg ''reasoning_content'' \<noteq> [] then msg else
       let r = found_reasoning e msg tcs in
       if r \<noteq> [] then set_key ''reasoning_content'' (JStr r) msg
       else if is_strict_reasoning model then set_key ''reasoning_content'' (JStr []) msg else msg)"

definition assistant_text :: "jmap \<Rightarrow> jmap" where
  "assistant_text msg = (let c = str_at msg ''content''; (r, cleaned) = extract_think c in
     if str_at msg ''reasoning_content'' \<noteq> [] \<or> c = [] \<or> r = [] then msg
     else set_key ''content'' (JStr cleaned) (set_key ''reasoning_content'' (JStr r) msg))"

definition normalize_message :: "conv_env \<Rightarrow> string \<Rightarrow> json \<Rightarrow> json" where
  "normalize_message e model v = (case v of
     JObj msg \<Rightarrow> (let msg = (if str_at msg ''role'' = ''developer'' then set_key ''role'' (JStr ''system'') msg else msg) in
       if str_at msg ''role'' \<noteq> ''assistant'' then JObj msg
       else case jarr (map_of msg ''tool_calls'') of
           Some (t # ts) \<Rightarrow> JObj (assistant_calls e model msg (t # ts))
         | _ \<Rightarrow> JObj (assistant_text msg))
   | _ \<Rightarrow> v)"

text \<open>\<open>if msgs, ok := out["messages"].([]any); ok\<close>.\<close>

definition on_messages :: "(json list \<Rightarrow> json list) \<Rightarrow> jmap \<Rightarrow> jmap" where
  "on_messages f out = (case jarr (map_of out ''messages'') of
     Some msgs \<Rightarrow> AList.update ''messages'' (JArr (f msgs)) out | None \<Rightarrow> out)"

subsection \<open>Compression\<close>

definition compress_keep_last :: nat where "compress_keep_last = 10"
definition compress_max_bytes :: nat where "compress_max_bytes = 8192"

definition env_on :: "string \<Rightarrow> bool" where
  "env_on v \<longleftrightarrow> lower_trim v \<in> {''1'', ''true'', ''yes'', ''on''}"

text \<open>Whether a message survives whatever its place; an entry that is no object does.\<close>

definition must_keep :: "json \<Rightarrow> bool" where
  "must_keep v = (case v of
     JObj m \<Rightarrow> (if str_at m ''role'' = ''user'' then False
       else if str_at m ''role'' = ''assistant'' then map_of m ''tool_calls'' \<noteq> None else True)
   | _ \<Rightarrow> True)"

definition rune_len :: "string \<Rightarrow> nat" where
  "rune_len s = (if seq_len s = 0 then 1 else seq_len s)"

text \<open>The loop over the offsets of the runes; it stops at the first that is not before the bound.\<close>

function last_start :: "nat \<Rightarrow> nat \<Rightarrow> nat \<Rightarrow> string \<Rightarrow> nat" where
  "last_start maxb i j s = (if s = [] then j else if maxb \<le> i then i
     else last_start maxb (i + rune_len s) i (drop (rune_len s) s))"
  by pat_completeness auto
termination
  by (relation "measure (\<lambda>(maxb, i, j, s). length s)") (auto simp: rune_len_def)

declare last_start.simps [simp del]

definition truncate_runes :: "string \<Rightarrow> nat \<Rightarrow> string" where
  "truncate_runes s maxb = (if length s \<le> maxb then s else take (last_start maxb 0 0 s) s)"

definition compress_content_marker :: string where
  "compress_content_marker = ''[truncated by freebuff-proxy compression]''"

definition cap_content :: "json \<Rightarrow> json" where
  "cap_content v = (case v of
     JObj m \<Rightarrow> (if str_at m ''role'' \<noteq> ''user'' \<and> str_at m ''role'' \<noteq> ''assistant'' then v
       else if map_of m ''tool_calls'' \<noteq> None then v
       else case jstr (map_of m ''content'') of
           None \<Rightarrow> v
         | Some c \<Rightarrow> if length c \<le> compress_max_bytes then v
             else JObj (set_key ''content'' (JStr (truncate_runes c compress_max_bytes @ [CHR 0xE2, CHR 0x80, CHR 0xA6] @
                    compress_content_marker)) m))
   | _ \<Rightarrow> v)"

definition cap_contents :: "json list \<Rightarrow> json list" where
  "cap_contents ms = (if ms = [] then [] else map cap_content (butlast ms) @ [last ms])"

definition marker_message :: "nat \<Rightarrow> json" where
  "marker_message n = JObj [(''role'', JStr ''system''),
     (''content'', JStr (''[truncated by freebuff-proxy compression; '' @ int_str (int n) @ '' earlier messages omitted]''))]"

text \<open>The second pass: \<open>seen\<close> is whether the marker is in.\<close>

fun rebuild :: "json \<Rightarrow> bool \<Rightarrow> json list \<Rightarrow> json list" where
  "rebuild mark seen [] = []"
| "rebuild mark seen (m # ms) = (if must_keep m then m # rebuild mark seen ms
     else if seen then rebuild mark True ms else mark # rebuild mark True ms)"

definition compress_messages :: "json list \<Rightarrow> json list \<times> nat" where
  "compress_messages messages = (let ms = cap_contents messages; n = length ms in
     if n \<le> compress_keep_last then (ms, 0) else
     let early = take (n - compress_keep_last) ms; dropped = length (filter (\<lambda>m. \<not> must_keep m) early) in
     if dropped = 0 then (ms, 0)
     else (rebuild (marker_message dropped) False early @ drop (n - compress_keep_last) ms, dropped))"

subsection \<open>Cache hints\<close>

definition cache_hints_on :: "string \<Rightarrow> bool" where
  "cache_hints_on v \<longleftrightarrow> lower_trim v \<notin> {''0'', ''false'', ''off'', ''no'', ''disabled''}"

definition hint_block :: "json \<Rightarrow> json" where
  "hint_block b = (case b of
     JObj m \<Rightarrow> if map_of m ''cache_control'' = None
       then JObj (set_key ''cache_control'' (JObj [(''type'', JStr ''ephemeral'')]) m) else b
   | _ \<Rightarrow> b)"

definition hint_message :: "json \<Rightarrow> json" where
  "hint_message v = (case v of
     JObj m \<Rightarrow> (case jarr (map_of m ''content'') of Some bs \<Rightarrow> JObj (set_key ''content'' (JArr (map hint_block bs)) m) | None \<Rightarrow> v)
   | _ \<Rightarrow> v)"

definition inject_cache_control :: "json list \<Rightarrow> json list" where
  "inject_cache_control ms = take 2 ms @ map hint_message (take 2 (drop 2 ms)) @ drop 4 ms"

subsection \<open>The whole\<close>

definition request_fields :: "string \<Rightarrow> jmap \<Rightarrow> jmap" where
  "request_fields override payload = (let
       out = legacy_choice payload (legacy_tools payload (filter kept_field payload));
       out = (if override \<noteq> [] then AList.update ''model'' (JStr override) out else out)
     in normalize_reasoning payload out)"

definition request_messages :: "conv_env \<Rightarrow> jmap \<Rightarrow> jmap" where
  "request_messages e out = (let
       out = on_messages (map (normalize_message e (str_at out ''model''))) out;
       out = (if env_on (ev_compress e) then on_messages (\<lambda>ms. fst (compress_messages ms)) out else out)
     in if cache_hints_on (ev_cache_hints e) \<and> is_deepseek (str_at out ''model'') then on_messages inject_cache_control out else out)"

definition normalize_payload :: "conv_env \<Rightarrow> string \<Rightarrow> jmap \<Rightarrow> schema_cache \<Rightarrow> jmap \<times> schema_cache" where
  "normalize_payload e override payload c =
     normalize_tool_schemas (ev_repr e) (request_messages e (request_fields override payload)) c"

definition normalize_request :: "conv_env \<Rightarrow> string \<Rightarrow> string \<Rightarrow> schema_cache \<Rightarrow> jmap option \<times> schema_cache" where
  "normalize_request e override body c = (case decode_object body of
     None \<Rightarrow> (None, c)
   | Some payload \<Rightarrow> (let (out, c) = normalize_payload e override payload c in (Some out, c)))"


subsection \<open>What is sent\<close>

lemma on_messages_other: "k \<noteq> ''messages'' \<Longrightarrow> map_of (on_messages f out) k = map_of out k"
  by (simp add: on_messages_def gomap_simps split: option.split)

lemma request_messages_other: "k \<noteq> ''messages'' \<Longrightarrow> map_of (request_messages e out) k = map_of out k"
  by (simp add: request_messages_def on_messages_other Let_def)

lemma tool_schemas_other: "k \<noteq> ''tools'' \<Longrightarrow> map_of (fst (normalize_tool_schemas repr out c)) k = map_of out k"
  by (auto simp: normalize_tool_schemas_def gomap_simps Let_def split: option.split prod.split)

lemma payload_other:
  "k \<notin> {''messages'', ''tools''} \<Longrightarrow> map_of (fst (normalize_payload e ov payload c)) k = map_of (request_fields ov payload) k"
  by (simp add: normalize_payload_def tool_schemas_other request_messages_other)

definition sent_keys :: "string set" where
  "sent_keys = {''model'', ''messages''} \<union> set upstream_keys"

lemma sent_keys_intros [intro]:
  "''model'' \<in> sent_keys" "''messages'' \<in> sent_keys" "''tools'' \<in> sent_keys" "''tool_choice'' \<in> sent_keys" "''reasoning_effort'' \<in> sent_keys"
  by (auto simp: sent_keys_def upstream_keys_def)

lemma delete_keys_subset: "fst ` set m \<subseteq> S \<Longrightarrow> fst ` set (AList.delete k m) \<subseteq> S"
  by (auto simp: set_delete)

lemma request_fields_keys: "fst ` set (request_fields ov payload) \<subseteq> sent_keys"
proof -
  have "fst ` set (filter kept_field payload) \<subseteq> sent_keys" by (auto simp: kept_field_def sent_keys_def)
  then have "fst ` set (legacy_tools payload (filter kept_field payload)) \<subseteq> sent_keys"
    by (auto simp: legacy_tools_def Let_def split: option.split)
  then have "fst ` set (legacy_choice payload (legacy_tools payload (filter kept_field payload))) \<subseteq> sent_keys"
    by (auto simp: legacy_choice_def split: option.split json.split)
  moreover have "fst ` set (normalize_reasoning payload out) \<subseteq> sent_keys" if "fst ` set out \<subseteq> sent_keys" for out
    using that by (simp add: normalize_reasoning_def Let_def delete_keys_subset sent_keys_intros)
  ultimately show ?thesis by (simp add: request_fields_def Let_def sent_keys_intros)
qed

lemma payload_keys: "fst ` set (fst (normalize_payload e ov payload c)) \<subseteq> sent_keys"
proof -
  have msg: "fst ` set (on_messages f out) \<subseteq> sent_keys" if "fst ` set out \<subseteq> sent_keys" for f out
    using that by (auto simp: on_messages_def split: option.split)
  have "fst ` set (request_messages e (request_fields ov payload)) \<subseteq> sent_keys"
    using request_fields_keys by (auto simp: request_messages_def Let_def intro!: msg)
  then show ?thesis
    by (auto simp: normalize_payload_def normalize_tool_schemas_def Let_def split: option.split prod.split)
qed

text \<open>
  The effort of a body for its model, when a client sent \<open>payload\<close>: none; a text that is one of the
  model's rungs or asks for no effort; or the client's own value when that is no text and the client
  asked for no effort elsewhere.
\<close>

definition effort_fits :: "jmap \<Rightarrow> jmap \<Rightarrow> bool" where
  "effort_fits payload out = (case map_of out ''reasoning_effort'' of
     None \<Rightarrow> True
   | Some (JStr v) \<Rightarrow> v \<in> set (efforts_for (str_at out ''model'')) \<or> lower_trim v \<in> {[], ''none'', ''disabled''}
   | Some v \<Rightarrow> (''reasoning_effort'', v) \<in> set payload \<and> extract_effort payload \<in> {[], ''none'', ''disabled''})"

lemma effort_fits_same:
  assumes "map_of m ''reasoning_effort'' = map_of n ''reasoning_effort''" "str_at m ''model'' = str_at n ''model''"
  shows "effort_fits payload m = effort_fits payload n"
  unfolding effort_fits_def assms ..

lemma lower_trim_Nil [simp]: "lower_trim [] = []"
  by (simp add: lower_trim_def strings_trim_def trim_front.simps space_runes_def starts_def)

lemma extract_effort_blank:
  assumes "jstr (map_of payload ''reasoning_effort'') = Some v" "v \<noteq> []" "lower_trim v = []"
  shows "extract_effort payload = []"
  using assms by (simp add: extract_effort_def str_at_def)

lemma normalize_reasoning_fits:
  assumes "\<And>v. map_of out ''reasoning_effort'' = Some v \<Longrightarrow> (''reasoning_effort'', v) \<in> set payload"
  shows "effort_fits payload (normalize_reasoning payload out)"
proof -
  define e where "e = requested_effort payload out"
  consider "effort_disabled payload" | "\<not> effort_disabled payload" "e \<in> {[], ''none'', ''disabled''}"
    | "\<not> effort_disabled payload" "e \<notin> {[], ''none'', ''disabled''}" by blast
  then show ?thesis
  proof cases
    case 1
    then show ?thesis by (simp add: normalize_reasoning_def Let_def effort_fits_def gomap_simps)
  next
    case 2
    then have out: "normalize_reasoning payload out = out" by (auto simp: normalize_reasoning_def e_def [symmetric] Let_def)
    have s: "lower_trim v \<in> {[], e}" if "map_of out ''reasoning_effort'' = Some (JStr v)" for v
      using that by (auto simp: e_def requested_effort_def str_at_def jstr_def Let_def)
    have n: "extract_effort payload = e" if "jstr (map_of out ''reasoning_effort'') = None"
      using that by (simp add: e_def requested_effort_def str_at_def Let_def)
    show ?thesis
    proof (cases "jstr (map_of out ''reasoning_effort'')")
      case None
      then show ?thesis using 2(2) n assms
        by (auto simp: out effort_fits_def jstr_def split: option.splits json.splits)
    next
      case (Some v)
      then have v: "map_of out ''reasoning_effort'' = Some (JStr v)" by (auto simp: jstr_def split: option.splits json.splits)
      then show ?thesis using 2(2) s [OF v] by (auto simp: out effort_fits_def)
    qed
  next
    case 3
    then have "normalize_reasoning payload out = AList.update ''reasoning_effort'' (JStr (served_effort (str_at out ''model'') e)) out"
      by (auto simp: normalize_reasoning_def e_def [symmetric] Let_def)
    then show ?thesis using served_allowed
      by (simp add: effort_fits_def gomap_simps str_at_def)
  qed
qed

lemma legacy_effort:
  "map_of (legacy_choice payload (legacy_tools payload out)) ''reasoning_effort'' = map_of out ''reasoning_effort''"
  by (simp add: legacy_choice_def legacy_tools_def gomap_simps Let_def split: option.split json.split)

text \<open>
  C32: of a client's body only the parameters of the whitelist, the messages and the model are sent; the
  model is the one the request was routed to; an effort that is a text is a rung the model offers or
  asks for none, and one that is no text is the client's own value, left alone as the client asked for
  no effort elsewhere (see \<open>effort_not_text_forwarded\<close>).
\<close>

theorem request_is_sanitized:
  "fst ` set (fst (normalize_payload e ov payload c)) \<subseteq> {''model'', ''messages''} \<union> set upstream_keys \<and>
   str_at (fst (normalize_payload e ov payload c)) ''model'' =
     (if ov = [] then str_at payload ''model'' else ov) \<and>
   effort_fits payload (fst (normalize_payload e ov payload c))"
proof (intro conjI)
  show "fst ` set (fst (normalize_payload e ov payload c)) \<subseteq> {''model'', ''messages''} \<union> set upstream_keys"
    using payload_keys by (simp add: sent_keys_def)
  have other: "map_of (fst (normalize_payload e ov payload c)) ''model'' = map_of (request_fields ov payload) ''model''"
    "map_of (fst (normalize_payload e ov payload c)) ''reasoning_effort'' = map_of (request_fields ov payload) ''reasoning_effort''"
    by (simp_all add: payload_other)
  have kept: "map_of (filter kept_field payload) ''model'' = map_of payload ''model''"
    by (induction payload) (auto simp: kept_field_def)
  have "map_of (legacy_choice payload (legacy_tools payload (filter kept_field payload))) ''model'' = map_of payload ''model''"
    by (auto simp: legacy_choice_def legacy_tools_def gomap_simps kept Let_def split: option.split json.split)
  then have "map_of (request_fields ov payload) ''model'' = (if ov = [] then map_of payload ''model'' else Some (JStr ov))"
    by (auto simp: request_fields_def normalize_reasoning_def gomap_simps Let_def)
  then show "str_at (fst (normalize_payload e ov payload c)) ''model'' = (if ov = [] then str_at payload ''model'' else ov)"
    by (simp add: str_at_def other jstr_def)
  have "effort_fits payload (request_fields ov payload)"
    unfolding request_fields_def Let_def
    by (rule normalize_reasoning_fits) (auto simp: gomap_simps legacy_effort split: if_splits dest: map_of_SomeD)
  moreover have "str_at (fst (normalize_payload e ov payload c)) ''model'' = str_at (request_fields ov payload) ''model''"
    by (simp add: str_at_def other)
  ultimately show "effort_fits payload (fst (normalize_payload e ov payload c))"
    using effort_fits_same other(2) by blast
qed

text \<open>An effort that is no text goes upstream as it came, whatever the model offers.\<close>

lemma effort_not_text_forwarded:
  "map_of (request_fields [] [(''model'', JStr ''minimax/minimax-m3''), (''reasoning_effort'', JBool True)])
     ''reasoning_effort'' = Some (JBool True)"
  by code_simp


subsection \<open>What compression keeps\<close>

text \<open>A plain turn: of the user, or of the assistant without tool calls.\<close>

definition plain_turn :: "json \<Rightarrow> bool" where
  "plain_turn v = (case v of
     JObj m \<Rightarrow> str_at m ''role'' = ''user'' \<or> str_at m ''role'' = ''assistant'' \<and> map_of m ''tool_calls'' = None
   | _ \<Rightarrow> False)"

lemma must_keep_turn: "must_keep v = (\<not> plain_turn v)"
  by (auto simp: must_keep_def plain_turn_def split: json.split)

lemma rebuild_seen: "rebuild mark True ms = filter must_keep ms"
  by (induction ms) auto

lemma rebuild_marks:
  assumes "filter (\<lambda>m. \<not> must_keep m) ms \<noteq> []"
  shows "\<exists>a d b. ms = a @ d # b \<and> list_all must_keep a \<and> \<not> must_keep d \<and> rebuild mark False ms = a @ mark # filter must_keep b"
  using assms
proof (induction ms)
  case (Cons m ms)
  show ?case
  proof (cases "must_keep m")
    case True
    then obtain a d b where "ms = a @ d # b" "list_all must_keep a" "\<not> must_keep d" "rebuild mark False ms = a @ mark # filter must_keep b"
      using Cons by auto
    then have "m # ms = (m # a) @ d # b \<and> list_all must_keep (m # a) \<and> \<not> must_keep d \<and>
        rebuild mark False (m # ms) = (m # a) @ mark # filter must_keep b" using True by simp
    then show ?thesis by blast
  next
    case False
    then have "m # ms = [] @ m # ms \<and> list_all must_keep [] \<and> \<not> must_keep m \<and>
        rebuild mark False (m # ms) = [] @ mark # filter must_keep ms" by (simp add: rebuild_seen)
    then show ?thesis by blast
  qed
qed simp

text \<open>A message that the cap leaves alone: no user or assistant turn, one with tool calls, or one that is short.\<close>

definition uncapped :: "json \<Rightarrow> bool" where
  "uncapped v \<longleftrightarrow> (case v of
     JObj m \<Rightarrow> str_at m ''role'' \<notin> {''user'', ''assistant''} \<or> map_of m ''tool_calls'' \<noteq> None \<or>
       length (str_at m ''content'') \<le> compress_max_bytes
   | _ \<Rightarrow> True)"

lemma cap_content_uncapped: "uncapped v \<Longrightarrow> cap_content v = v"
  by (auto simp: uncapped_def cap_content_def str_at_def split: json.splits option.splits)

lemma cap_content_keep: "must_keep (cap_content v) = must_keep v"
  by (auto simp: cap_content_def must_keep_def set_key_def str_at_def gomap_simps split: json.splits option.splits)

lemma capped_drops: "\<not> uncapped v \<Longrightarrow> \<not> must_keep v"
  by (auto simp: uncapped_def must_keep_def split: json.splits)

lemma cap_contents_map: "cap_contents ms = map cap_content (butlast ms) @ drop (length ms - 1) ms"
  by (cases ms rule: rev_cases) (auto simp: cap_contents_def)

lemma compression_kept:
  "length (cap_contents ms) = length ms \<and>
   list_all2 (\<lambda>m m'. if uncapped m then m' = m else \<not> must_keep m') (butlast ms) (butlast (cap_contents ms)) \<and>
   drop (length ms - 1) (cap_contents ms) = drop (length ms - 1) ms \<and>
   (if snd (compress_messages ms) = 0 then fst (compress_messages ms) = cap_contents ms
    else \<exists>a d b z. cap_contents ms = a @ d # b @ z \<and> length z = 10 \<and> list_all must_keep a \<and> \<not> must_keep d \<and>
      fst (compress_messages ms) = a @ marker_message (snd (compress_messages ms)) # filter must_keep b @ z \<and>
      snd (compress_messages ms) = Suc (length (filter (\<lambda>m. \<not> must_keep m) b)))"
proof (intro conjI)
  show len: "length (cap_contents ms) = length ms" by (auto simp: cap_contents_def)
  have "butlast (cap_contents ms) = map cap_content (butlast ms)"
    by (cases ms rule: rev_cases) (auto simp: cap_contents_def)
  then show "list_all2 (\<lambda>m m'. if uncapped m then m' = m else \<not> must_keep m') (butlast ms) (butlast (cap_contents ms))"
    by (auto simp: list_all2_map2 list_all2_same cap_content_uncapped cap_content_keep capped_drops)
  show "drop (length ms - 1) (cap_contents ms) = drop (length ms - 1) ms" by (simp add: cap_contents_map)
  let ?c = "cap_contents ms" let ?n = "length (cap_contents ms) - compress_keep_last"
  let ?k = "length (filter (\<lambda>m. \<not> must_keep m) (take ?n ?c))"
  show "if snd (compress_messages ms) = 0 then fst (compress_messages ms) = ?c
    else \<exists>a d b z. ?c = a @ d # b @ z \<and> length z = 10 \<and> list_all must_keep a \<and> \<not> must_keep d \<and>
      fst (compress_messages ms) = a @ marker_message (snd (compress_messages ms)) # filter must_keep b @ z \<and>
      snd (compress_messages ms) = Suc (length (filter (\<lambda>m. \<not> must_keep m) b))"
  proof (cases "length ?c \<le> compress_keep_last \<or> ?k = 0")
    case True
    then show ?thesis by (auto simp: compress_messages_def Let_def)
  next
    case False
    then have c: "compress_messages ms = (rebuild (marker_message ?k) False (take ?n ?c) @ drop ?n ?c, ?k)"
      by (simp add: compress_messages_def Let_def)
    obtain a d b where abd: "take ?n ?c = a @ d # b" "list_all must_keep a" "\<not> must_keep d"
        "rebuild (marker_message ?k) False (take ?n ?c) = a @ marker_message ?k # filter must_keep b"
      using rebuild_marks [of "take ?n ?c" "marker_message ?k"] False by auto
    have "filter (\<lambda>m. \<not> must_keep m) a = []" using abd(2) by (auto simp: filter_empty_conv list_all_iff)
    then have k: "?k = Suc (length (filter (\<lambda>m. \<not> must_keep m) b))" using abd(3) by (simp add: abd(1))
    have "?c = a @ d # b @ drop ?n ?c" using abd(1) append_take_drop_id [of ?n ?c] by simp
    moreover have "length (drop ?n ?c) = 10" using False by (simp add: compress_keep_last_def)
    moreover have "snd (compress_messages ms) = ?k" "snd (compress_messages ms) \<noteq> 0" using False by (simp_all add: c)
    moreover have "fst (compress_messages ms) = a @ marker_message ?k # filter must_keep b @ drop ?n ?c" using abd(4) by (simp add: c)
    ultimately show ?thesis using abd(2,3) k by metis
  qed
qed

text \<open>
  C33: the compression drops plain turns only (of the user, or of the assistant without tool calls), none
  of them among the last ten messages, puts one marker with their number in the place of the first,
  and keeps everything else in order, system messages, tool calls and tool results included; the
  contents it shortens are those of plain turns, and not that of the last message.
\<close>

theorem compression_keeps_tools:
  "length (cap_contents ms) = length ms \<and>
   list_all2 (\<lambda>m m'. if uncapped m then m' = m else plain_turn m \<and> plain_turn m') (butlast ms) (butlast (cap_contents ms)) \<and>
   drop (length ms - 1) (cap_contents ms) = drop (length ms - 1) ms \<and>
   (if snd (compress_messages ms) = 0 then fst (compress_messages ms) = cap_contents ms
    else \<exists>a d b z. cap_contents ms = a @ d # b @ z \<and> length z = 10 \<and> list_all (\<lambda>m. \<not> plain_turn m) a \<and> plain_turn d \<and>
      fst (compress_messages ms) = a @ marker_message (snd (compress_messages ms)) # filter (\<lambda>m. \<not> plain_turn m) b @ z \<and>
      snd (compress_messages ms) = Suc (length (filter plain_turn b)))"
proof (intro conjI)
  note kept = compression_kept [of ms, unfolded must_keep_turn not_not]
  show "length (cap_contents ms) = length ms" "drop (length ms - 1) (cap_contents ms) = drop (length ms - 1) ms"
    "if snd (compress_messages ms) = 0 then fst (compress_messages ms) = cap_contents ms
     else \<exists>a d b z. cap_contents ms = a @ d # b @ z \<and> length z = 10 \<and> list_all (\<lambda>m. \<not> plain_turn m) a \<and> plain_turn d \<and>
       fst (compress_messages ms) = a @ marker_message (snd (compress_messages ms)) # filter (\<lambda>m. \<not> plain_turn m) b @ z \<and>
       snd (compress_messages ms) = Suc (length (filter plain_turn b))"
    using kept by (simp_all add: must_keep_turn [abs_def])
  have "list_all2 (\<lambda>m m'. if uncapped m then m' = m else plain_turn m') (butlast ms) (butlast (cap_contents ms))"
    using kept by simp
  then show "list_all2 (\<lambda>m m'. if uncapped m then m' = m else plain_turn m \<and> plain_turn m') (butlast ms) (butlast (cap_contents ms))"
    by (rule list_all2_mono) (use capped_drops must_keep_turn in \<open>auto split: if_splits\<close>)
qed

subsection \<open>The bound on long contents\<close>

lemma rune_len_le: "rune_len s \<le> 4"
  by (auto simp: rune_len_def seq_len_def Let_def split: list.split)

lemma last_start_bound: "i < maxb + 4 \<Longrightarrow> j < maxb + 4 \<Longrightarrow> last_start maxb i j s < maxb + 4"
proof (induction maxb i j s rule: last_start.induct)
  case (1 maxb i j s)
  then show ?case using rune_len_le [of s] by (subst last_start.simps) auto
qed

text \<open>
  A cut text is a prefix, and at most three bytes longer than the bound; it can be longer, as the loop
  stops at the first rune that starts at the bound or behind it.
\<close>

lemma truncate_runes_bound: "length (truncate_runes s n) \<le> n + 3 \<and> take (length (truncate_runes s n)) s = truncate_runes s n"
  using last_start_bound [of 0 n 0 s] by (auto simp: truncate_runes_def min_def)

lemma truncate_runes_too_long: "length (truncate_runes (''aaa'' @ utf8 0xE9 @ ''b'') 4) = 5"
  by code_simp


subsection \<open>Two normalisations\<close>

text \<open>A client that asks \<open>minimax-m3\<close> with the effort \<open>max\<close>.\<close>

definition plain_env :: conv_env where
  "plain_env = \<lparr>ev_compress = [], ev_cache_hints = ''false'', ev_lookup = None, ev_repr = (\<lambda>v. [])\<rparr>"

definition max_request :: jmap where
  "max_request = [(''model'', JStr ''minimax/minimax-m3''), (''reasoning_effort'', JStr ''max'')]"

text \<open>
  A request that falls back to another model loses the effort it asked for: the body rewritten for
  the requested model is rewritten again for the fallback model, so the effort is clamped to the rungs
  of a model that does not serve it first.  Asked for the fallback model directly, the same client
  gets its effort.
\<close>

theorem fallback_loses_effort:
  "str_at (fst (normalize_payload plain_env ''openai/gpt-5.6-luna''
       (fst (normalize_payload plain_env ''minimax/minimax-m3'' max_request no_schemas)) no_schemas)) ''reasoning_effort'' = ''high'' \<and>
   str_at (fst (normalize_payload plain_env ''openai/gpt-5.6-luna'' max_request no_schemas)) ''reasoning_effort'' = ''max''"
  by code_simp

end
