(* ===== verification/GoRegexp.thy ===== *)
theory GoRegexp
  imports GoText
begin

text \<open>
  Go's \<open>regexp\<close>, for the patterns of the tool-call extraction: the matches at a place in the order of
  preference, the leftmost match, all matches and their removal.  A match is the texts of its groups and
  the text after it.  The patterns end at ASCII characters, so that bytes take the place of runes.
\<close>

datatype rx =
    Lit string
  | LitFold string
  | Cls "char list"
  | NotCls "char list"
  | AnyChar
  | Seq rx rx
  | Alt rx rx
  | Opt rx
  | Star rx
  | Lazy rx
  | Grp rx

text \<open>Repetition takes a character at least, so the length of the text bounds it.\<close>

definition after_caps :: "'a list \<Rightarrow> ('a list \<times> 'b) list \<Rightarrow> ('a list \<times> 'b) list" where
  "after_caps c ms = map (\<lambda>(d, t). (c @ d, t)) ms"

fun rx_greedy :: "(string \<Rightarrow> (string list \<times> string) list) \<Rightarrow> nat \<Rightarrow> string \<Rightarrow> (string list \<times> string) list" where
  "rx_greedy f 0 s = [([], s)]"
| "rx_greedy f (Suc n) s = concat (map (\<lambda>(c, t). if length t < length s then after_caps c (rx_greedy f n t) else []) (f s)) @ [([], s)]"

fun rx_lazy :: "(string \<Rightarrow> (string list \<times> string) list) \<Rightarrow> nat \<Rightarrow> string \<Rightarrow> (string list \<times> string) list" where
  "rx_lazy f 0 s = [([], s)]"
| "rx_lazy f (Suc n) s = ([], s) # concat (map (\<lambda>(c, t). if length t < length s then after_caps c (rx_lazy f n t) else []) (f s))"

fun rx_match :: "rx \<Rightarrow> string \<Rightarrow> (string list \<times> string) list" where
  "rx_match (Lit w) s = (if starts w s then [([], drop (length w) s)] else [])"
| "rx_match (LitFold w) s = (if map lower_char (take (length w) s) = w then [([], drop (length w) s)] else [])"
| "rx_match (Cls cs) s = (case s of [] \<Rightarrow> [] | c # r \<Rightarrow> if c \<in> set cs then [([], r)] else [])"
| "rx_match (NotCls cs) s = (case s of [] \<Rightarrow> [] | c # r \<Rightarrow> if c \<in> set cs then [] else [([], r)])"
| "rx_match AnyChar s = (case s of [] \<Rightarrow> [] | c # r \<Rightarrow> [([], r)])"
| "rx_match (Seq p q) s = concat (map (\<lambda>(c, t). after_caps c (rx_match q t)) (rx_match p s))"
| "rx_match (Alt p q) s = rx_match p s @ rx_match q s"
| "rx_match (Opt p) s = rx_match p s @ [([], s)]"
| "rx_match (Star p) s = rx_greedy (rx_match p) (length s) s"
| "rx_match (Lazy p) s = rx_lazy (rx_match p) (length s) s"
| "rx_match (Grp p) s = map (\<lambda>(c, t). (take (length s - length t) s # c, t)) (rx_match p s)"

definition rx_seq :: "rx list \<Rightarrow> rx" where
  "rx_seq ps = foldr Seq ps (Lit [])"

definition Plus :: "rx \<Rightarrow> rx" where
  "Plus p = Seq p (Star p)"

text \<open>The leftmost match: the text before it, its groups and the text after it.\<close>

fun rx_find :: "rx \<Rightarrow> string \<Rightarrow> (string \<times> string list \<times> string) option" where
  "rx_find p [] = (case rx_match p [] of (c, t) # _ \<Rightarrow> Some ([], c, t) | [] \<Rightarrow> None)"
| "rx_find p (x # s) = (case rx_match p (x # s) of (c, t) # _ \<Rightarrow> Some ([], c, t)
     | [] \<Rightarrow> map_option (\<lambda>(a, c, t). (x # a, c, t)) (rx_find p s))"

text \<open>A pattern that consumes text is looked for again after each match; \<open>rx_all\<close> gives the texts before
  the matches with their groups, and the text after the last one.\<close>

fun rx_all :: "rx \<Rightarrow> nat \<Rightarrow> string \<Rightarrow> (string \<times> string list) list \<times> string" where
  "rx_all p 0 s = ([], s)"
| "rx_all p (Suc n) s = (case rx_find p s of None \<Rightarrow> ([], s)
     | Some (a, c, t) \<Rightarrow> (case rx_all p n t of (ms, r) \<Rightarrow> ((a, c) # ms, r)))"

definition find_all :: "rx \<Rightarrow> string \<Rightarrow> string list list" where
  "find_all p s = map snd (fst (rx_all p (length s) s))"

definition remove_all :: "rx \<Rightarrow> string \<Rightarrow> string" where
  "remove_all p s = (case rx_all p (length s) s of (ms, r) \<Rightarrow> concat (map fst ms) @ r)"

subsection \<open>A match is followed by the rest of the text\<close>

lemma after_caps_rest: "(c, t) \<in> set (after_caps d ms) \<Longrightarrow> \<exists>c'. (c', t) \<in> set ms"
  by (auto simp: after_caps_def)

lemma greedy_suffix:
  assumes "\<And>s c t. (c, t) \<in> set (f s) \<Longrightarrow> suffix t s"
  shows "(c, t) \<in> set (rx_greedy f n s) \<Longrightarrow> suffix t s"
  using assms by (induction f n s arbitrary: c t rule: rx_greedy.induct)
    (auto dest!: after_caps_rest split: if_splits, meson suffix_order.trans)

lemma lazy_suffix:
  assumes "\<And>s c t. (c, t) \<in> set (f s) \<Longrightarrow> suffix t s"
  shows "(c, t) \<in> set (rx_lazy f n s) \<Longrightarrow> suffix t s"
  using assms by (induction f n s arbitrary: c t rule: rx_lazy.induct)
    (auto dest!: after_caps_rest split: if_splits, meson suffix_order.trans)

lemma match_suffix: "(c, t) \<in> set (rx_match p s) \<Longrightarrow> suffix t s"
proof (induction p arbitrary: c s t)
  case (Seq p q)
  then show ?case by (auto dest!: after_caps_rest) (meson suffix_order.trans)
next
  case (Star p)
  then show ?case using greedy_suffix [of "rx_match p"] by auto
next
  case (Lazy p)
  then show ?case using lazy_suffix [of "rx_match p"] by auto
qed (auto split: list.splits if_splits intro: suffix_drop suffix_ConsI)

lemma find_parts: "rx_find p s = Some (a, c, t) \<Longrightarrow> \<exists>b. s = a @ b @ t \<and> (c, t) \<in> set (rx_match p (b @ t))"
proof (induction p s arbitrary: a rule: rx_find.induct)
  case (1 p)
  then have "a = []" "(c, t) \<in> set (rx_match p [])" by (auto split: list.splits)
  moreover from this have "t = []" using match_suffix [of c t p "[]"] by simp
  ultimately show ?case by simp
next
  case (2 p x s)
  show ?case
  proof (cases "rx_match p (x # s)")
    case Nil
    then show ?thesis using 2 by (auto simp: append_Cons [symmetric] simp del: append_Cons)
  next
    case (Cons m ms)
    then have m: "m = (c, t)" "a = []" using 2(2) by (auto split: prod.splits)
    then have "suffix t (x # s)" using match_suffix Cons by (metis list.set_intros(1))
    then obtain b where "x # s = b @ t" by (auto simp: suffix_def)
    then show ?thesis using m Cons by (metis append_Nil list.set_intros(1))
  qed
qed

end
