(* ===== verification/GoMarshal.thy ===== *)
theory GoMarshal
  imports ConvertRequest "HOL-Library.Multiset" "HOL-Library.Char_ord" "HOL-Library.List_Lexorder"
begin

text \<open>
  \<open>json.Marshal\<close> of decoded values, and what reading its text back gives.

  An integer of at most 53 bits is written in decimal; the text of the other numbers is a parameter
  \<open>fmt\<close> (the shortest decimal of the standard library), of which only \<open>num_spelled\<close> is used: it is
  a JSON number of that value.  The key order of an object is the byte order.
\<close>

subsection \<open>Text of strings and numbers\<close>

definition esc_hex :: "nat \<Rightarrow> char" where
  "esc_hex n = (''0123456789abcdef'' ! n)"

definition esc_byte :: "char \<Rightarrow> string" where
  "esc_byte c = (let n = byte c in
     if n = 34 \<or> n = 92 then [CHR 0x5C, c]
     else if n = 8 then [CHR 0x5C, CHR ''b''] else if n = 12 then [CHR 0x5C, CHR ''f'']
     else if n = 10 then [CHR 0x5C, CHR ''n''] else if n = 13 then [CHR 0x5C, CHR ''r'']
     else if n = 9 then [CHR 0x5C, CHR ''t'']
     else if n < 32 \<or> n \<in> {38, 60, 62} then [CHR 0x5C, CHR ''u'', CHR ''0'', CHR ''0'', esc_hex (n div 16), esc_hex (n mod 16)]
     else [c])"

text \<open>The line separators U+2028 and U+2029 are escaped, and an invalid byte is written as U+FFFD.\<close>

function esc_text :: "string \<Rightarrow> string" where
  "esc_text [] = []"
| "esc_text (c # cs) = (case seq_len (c # cs) of
     0 \<Rightarrow> CHR 0x5C # ''ufffd'' @ esc_text cs
   | Suc k \<Rightarrow> (if k = 0 then esc_byte c
        else if c # take k cs = [CHR 0xE2, CHR 0x80, CHR 0xA8] then CHR 0x5C # ''u2028''
        else if c # take k cs = [CHR 0xE2, CHR 0x80, CHR 0xA9] then CHR 0x5C # ''u2029''
        else c # take k cs) @ esc_text (drop k cs))"
  by pat_completeness auto
termination
  by (relation "measure length") auto

definition quoted :: "string \<Rightarrow> string" where
  "quoted s = CHR 0x22 # esc_text s @ [CHR 0x22]"

definition digit_char :: "int \<Rightarrow> char" where
  "digit_char n = (''0123456789'' ! nat n)"

function int_digits :: "int \<Rightarrow> string" where
  "int_digits n = (if n < 10 then [digit_char n] else int_digits (n div 10) @ [digit_char (n mod 10)])"
  by pat_completeness auto
termination
  by (relation "measure nat") auto

declare int_digits.simps [simp del]

definition int_text :: "int \<Rightarrow> string" where
  "int_text n = (if n < 0 then CHR 0x2D # int_digits (- n) else int_digits n)"

definition exact_int :: "rat \<Rightarrow> bool" where
  "exact_int q \<longleftrightarrow> of_int \<lfloor>q\<rfloor> = q \<and> \<bar>q\<bar> \<le> 2 ^ 53"

definition num_text :: "(rat \<Rightarrow> string) \<Rightarrow> rat \<Rightarrow> string" where
  "num_text fmt q = (if exact_int q then int_text \<lfloor>q\<rfloor> else fmt q)"

subsection \<open>Text of values\<close>

fun join_lists :: "'a list \<Rightarrow> 'a list list \<Rightarrow> 'a list" where
  "join_lists sep [] = []"
| "join_lists sep (xs # xss) = xs @ concat (map (\<lambda>ys. sep @ ys) xss)"

fun show_json :: "(rat \<Rightarrow> string) \<Rightarrow> json \<Rightarrow> string" where
  "show_json fmt JNull = ''null''"
| "show_json fmt (JBool b) = (if b then ''true'' else ''false'')"
| "show_json fmt (JNum q) = num_text fmt q"
| "show_json fmt (JStr s) = quoted s"
| "show_json fmt (JArr vs) = CHR 0x5B # join_lists [CHR 0x2C] (map (show_json fmt) vs) @ [CHR 0x5D]"
| "show_json fmt (JObj m) = CHR 0x7B # join_lists [CHR 0x2C] (map (\<lambda>(k, v). quoted k @ CHR 0x3A # show_json fmt v) m) @ [CHR 0x7D]"

definition sort_members :: "(string \<times> 'a) list \<Rightarrow> (string \<times> 'a) list" where
  "sort_members m = sort_key fst m"

fun key_sorted :: "json \<Rightarrow> json" where
  "key_sorted (JArr vs) = JArr (map key_sorted vs)"
| "key_sorted (JObj m) = JObj (sort_members (map (\<lambda>(k, v). (k, key_sorted v)) m))"
| "key_sorted v = v"

fun fix_strings :: "json \<Rightarrow> json" where
  "fix_strings (JStr s) = JStr (utf8_fix s)"
| "fix_strings (JArr vs) = JArr (map fix_strings vs)"
| "fix_strings (JObj m) = JObj (map (\<lambda>(k, v). (k, fix_strings v)) m)"
| "fix_strings v = v"

definition go_marshal :: "(rat \<Rightarrow> string) \<Rightarrow> json \<Rightarrow> string" where
  "go_marshal fmt v = show_json fmt (key_sorted v)"

text \<open>
  The values whose text is read back, up to the key order of objects and the invalid bytes of
  strings.
\<close>

definition num_spelled :: "(rat \<Rightarrow> string) \<Rightarrow> rat \<Rightarrow> bool" where
  "num_spelled fmt q \<longleftrightarrow> fmt q \<noteq> [] \<and> (is_digit (hd (fmt q)) \<or> hd (fmt q) = CHR 0x2D) \<and>
     (\<forall>r. r = [] \<or> byte (hd r) \<in> {44, 93, 125} \<longrightarrow> lex_num (fmt q @ r) = Some (q, r))"

fun spellable :: "(rat \<Rightarrow> string) \<Rightarrow> json \<Rightarrow> bool" where
  "spellable fmt (JNum q) = (exact_int q \<or> float_ok q \<and> num_spelled fmt q)"
| "spellable fmt (JArr vs) = list_all (spellable fmt) vs"
| "spellable fmt (JObj m) = (gomap m \<and> list_all (\<lambda>(k, v). utf8_fix k = k \<and> spellable fmt v) m)"
| "spellable fmt v = True"

fun json_depth :: "json \<Rightarrow> nat" where
  "json_depth (JArr vs) = Suc (foldr max (map json_depth vs) 0)"
| "json_depth (JObj m) = Suc (foldr max (map (\<lambda>(k, v). json_depth v) m) 0)"
| "json_depth v = 0"

subsection \<open>Reading a string back\<close>

lemma byte_less_256 [simp]: "byte c < 256"
  using range_nat_of_char by (metis atLeastLessThan_iff rangeI)

lemma esc_hex_val: "n < 16 \<Longrightarrow> hex_val (esc_hex n) = Some n"
proof -
  have "\<forall>k \<in> set [0 ..< 16]. hex_val (esc_hex k) = Some k" by code_simp
  then show "n < 16 \<Longrightarrow> hex_val (esc_hex n) = Some n" by simp
qed

lemma hex_val_zero: "hex_val (CHR ''0'') = Some 0"
  by code_simp

lemma escape_at_hex: "n < 128 \<Longrightarrow>
  escape_at (CHR ''u'' # CHR ''0'' # CHR ''0'' # esc_hex (n div 16) # esc_hex (n mod 16) # r) = Some ([char_of n], 5)"
  by (simp add: escape_at_def esc_hex_val hex_val_zero utf8_def)

lemma lex_str_backslash:
  "lex_str (CHR 0x5C # r) = (case escape_at r of None \<Rightarrow> None
     | Some (x, k) \<Rightarrow> map_option (\<lambda>(s, r). (x @ s, r)) (lex_str (drop k r)))"
  by simp

lemma escape_at_char: "byte e \<noteq> 117 \<Longrightarrow> escape_char e = Some c \<Longrightarrow> escape_at (e # r) = Some ([c], 1)"
  by (simp add: escape_at_def)

lemma byte_eq_char: "byte c = n \<Longrightarrow> char_of n = c"
  by auto

lemma lex_esc_byte:
  assumes "byte c < 128"
  shows "lex_str (esc_byte c @ r) = map_option (\<lambda>(s, r). (c # s, r)) (lex_str r)"
proof -
  let ?n = "byte c"
  consider (quote) "?n = 34 \<or> ?n = 92" | (b) "?n = 8" | (f) "?n = 12" | (n) "?n = 10" | (r) "?n = 13" | (t) "?n = 9"
    | (hex) "?n \<notin> {34, 92, 8, 12, 10, 13, 9}" "?n < 32 \<or> ?n \<in> {38, 60, 62}"
    | (plain) "?n \<notin> {34, 92, 8, 12, 10, 13, 9}" "\<not> (?n < 32 \<or> ?n \<in> {38, 60, 62})"
    by blast
  then show ?thesis
  proof cases
    case quote
    then have "escape_at (c # r) = Some ([c], 1)" by (intro escape_at_char) (auto simp: escape_char_def)
    then show ?thesis using quote by (auto simp: esc_byte_def lex_str_backslash simp del: lex_str.simps)
  next
    case b
    then have "escape_at (CHR ''b'' # r) = Some ([c], 1)" using byte_eq_char [OF b] by (intro escape_at_char) (auto simp: escape_char_def)
    then show ?thesis using b by (auto simp: esc_byte_def lex_str_backslash simp del: lex_str.simps)
  next
    case f
    then have "escape_at (CHR ''f'' # r) = Some ([c], 1)" using byte_eq_char [OF f] by (intro escape_at_char) (auto simp: escape_char_def)
    then show ?thesis using f by (auto simp: esc_byte_def lex_str_backslash simp del: lex_str.simps)
  next
    case n
    then have "escape_at (CHR ''n'' # r) = Some ([c], 1)" using byte_eq_char [OF n] by (intro escape_at_char) (auto simp: escape_char_def)
    then show ?thesis using n by (auto simp: esc_byte_def lex_str_backslash simp del: lex_str.simps)
  next
    case r
    then have "escape_at (CHR ''r'' # r) = Some ([c], 1)" using byte_eq_char [OF r] by (intro escape_at_char) (auto simp: escape_char_def)
    then show ?thesis using r by (auto simp: esc_byte_def lex_str_backslash simp del: lex_str.simps)
  next
    case t
    then have "escape_at (CHR ''t'' # r) = Some ([c], 1)" using byte_eq_char [OF t] by (intro escape_at_char) (auto simp: escape_char_def)
    then show ?thesis using t by (auto simp: esc_byte_def lex_str_backslash simp del: lex_str.simps)
  next
    case hex
    then have "esc_byte c = [CHR 0x5C, CHR ''u'', CHR ''0'', CHR ''0'', esc_hex (?n div 16), esc_hex (?n mod 16)]"
      by (simp add: esc_byte_def Let_def)
    then show ?thesis using escape_at_hex [OF assms, of r] by (simp add: lex_str_backslash del: lex_str.simps)
  next
    case plain
    then have "esc_byte c = [c]" by (simp add: esc_byte_def)
    then show ?thesis using plain by simp
  qed
qed

text \<open>The bytes of a longer character.\<close>

lemma seq_len_tail:
  assumes "seq_len s = Suc (Suc k)"
  shows "Suc (Suc k) \<le> length s" "\<forall>c \<in> set (take (Suc (Suc k)) s). 128 \<le> byte c"
proof -
  obtain c cs where s: "s = c # cs" using assms by (cases s) (auto simp: seq_len_def)
  have *: "Suc k \<le> length (take 3 cs) \<and> 128 \<le> byte c \<and> (\<forall>i < Suc k. 128 \<le> byte (take 3 cs ! i))"
    using assms unfolding s seq_len_def
    by (simp add: Let_def less_Suc_eq numeral_2_eq_2 numeral_3_eq_3 hd_conv_nth split: if_splits)
        (auto simp: less_Suc_eq hd_conv_nth Suc_le_eq)
  then show "Suc (Suc k) \<le> length s" by (simp add: s)
  have "Suc k \<le> 3" using * by simp
  then have "take (Suc k) (take 3 cs) = take (Suc k) cs" by simp
  then show "\<forall>c \<in> set (take (Suc (Suc k)) s). 128 \<le> byte c"
    using * unfolding s by (auto simp: in_set_conv_nth)
qed

lemma seq_len_one: "seq_len (c # cs) = Suc 0 \<Longrightarrow> byte c < 128"
  by (simp add: seq_len_def Let_def split: if_splits)

lemma lex_high_bytes: "\<forall>c \<in> set s. 128 \<le> byte c \<Longrightarrow> lex_str (s @ r) = map_option (\<lambda>(t, r). (s @ t, r)) (lex_str r)"
proof (induction s)
  case Nil
  then show ?case by (cases "lex_str r") auto
next
  case (Cons c s)
  then show ?case by (auto simp: option.map_comp comp_def split_def)
qed

lemma escape_at_separator: "escape_at (''u2028'' @ r) = Some ([CHR 0xE2, CHR 0x80, CHR 0xA8], 5)"
  "escape_at (''u2029'' @ r) = Some ([CHR 0xE2, CHR 0x80, CHR 0xA9], 5)"
proof -
  have "hex4 (''2028'' @ r) = Some 8232" "hex4 (''2029'' @ r) = Some 8233"
    using hex_val_zero by (simp_all add: hex_val_def)
  moreover have "utf8 8232 = [CHR 0xE2, CHR 0x80, CHR 0xA8]" "utf8 8233 = [CHR 0xE2, CHR 0x80, CHR 0xA9]"
    using byte_eq_char [of "CHR 0xE2" 226] byte_eq_char [of "CHR 0x80" 128] byte_eq_char [of "CHR 0xA8" 168]
      byte_eq_char [of "CHR 0xA9" 169] by (simp_all add: utf8_def)
  ultimately show "escape_at (''u2028'' @ r) = Some ([CHR 0xE2, CHR 0x80, CHR 0xA8], 5)"
    "escape_at (''u2029'' @ r) = Some ([CHR 0xE2, CHR 0x80, CHR 0xA9], 5)"
    by (simp_all add: escape_at_def del: hex4.simps)
qed

lemma length_bad_rune: "length (utf8 bad_rune) = 3"
  by (simp add: utf8_def)

lemma length_utf8_fix: "length s \<le> length (utf8_fix s)"
  by (induction s rule: utf8_fix.induct) (auto simp: length_bad_rune split: nat.splits)

lemma bad_rune_bytes: "utf8 bad_rune = [CHR 0xEF, CHR 0xBF, CHR 0xBD]"
  using byte_eq_char [of "CHR 0xEF" 239] byte_eq_char [of "CHR 0xBF" 191] byte_eq_char [of "CHR 0xBD" 189] by (simp add: utf8_def)

lemma escape_at_bad: "escape_at (''ufffd'' @ r) = Some (utf8 bad_rune, 5)"
proof -
  have "hex4 (''fffd'' @ r) = Some bad_rune" by (simp add: hex_val_def)
  then show ?thesis by (simp add: escape_at_def del: hex4.simps)
qed

lemma lex_quoted: "lex_str (esc_text s @ CHR 0x22 # r) = Some (utf8_fix s, r)"
proof (induction s rule: esc_text.induct)
  case 1
  then show ?case by simp
next
  case (2 c cs)
  show ?case
  proof (cases "seq_len (c # cs)")
    case 0
    then show ?thesis using 2(1) escape_at_bad [of "esc_text cs @ CHR 0x22 # r"]
      by (simp add: lex_str_backslash del: lex_str.simps)
  next
  case k: (Suc k)
  have IH: "lex_str (esc_text (drop k cs) @ CHR 0x22 # r) = Some (utf8_fix (drop k cs), r)" using 2(2) [OF k] .
  show ?thesis
  proof (cases k)
    case 0
    then have "byte c < 128" using k seq_len_one by simp
    then show ?thesis using k IH 0 by (simp add: lex_esc_byte del: lex_str.simps)
  next
    case (Suc j)
    have hi: "\<forall>x \<in> set (c # take k cs). 128 \<le> byte x" using seq_len_tail [of "c # cs" j] k Suc by simp
    show ?thesis
    proof (cases "c # take k cs = [CHR 0xE2, CHR 0x80, CHR 0xA8] \<or> c # take k cs = [CHR 0xE2, CHR 0x80, CHR 0xA9]")
      case True
      then have "esc_text (c # cs) = (if c # take k cs = [CHR 0xE2, CHR 0x80, CHR 0xA8] then CHR 0x5C # ''u2028''
          else CHR 0x5C # ''u2029'') @ esc_text (drop k cs)" using k Suc by auto
      moreover have "utf8_fix (c # cs) = (c # take k cs) @ utf8_fix (drop k cs)" using k by simp
      ultimately show ?thesis using IH True escape_at_separator
        by (auto simp: lex_str_backslash simp del: lex_str.simps esc_text.simps utf8_fix.simps)
    next
      case False
      then have "esc_text (c # cs) = (c # take k cs) @ esc_text (drop k cs)" using k Suc by auto
      then show ?thesis using lex_high_bytes [OF hi, of "esc_text (drop k cs) @ CHR 0x22 # r"] IH k
        by (simp del: lex_str.simps esc_text.simps)
    qed
  qed
  qed
qed

text \<open>Repaired text is valid.\<close>

lemma seq_len_prefix:
  assumes "seq_len s = Suc k"
  shows "seq_len (take (Suc k) s @ r) = Suc k"
proof -
  obtain c cs where s: "s = c # cs" using assms by (cases s) (auto simp: seq_len_def)
  have "k = 0 \<or> k = 1 \<or> k = 2 \<or> k = 3"
    using assms unfolding s seq_len_def by (simp add: Let_def numeral_2_eq_2 numeral_3_eq_3 split: if_splits)
  moreover have "k \<le> length cs" using seq_len_tail(1) [of s "k - 1"] assms by (cases k) (auto simp: s)
  ultimately consider "k = 0" | d ds where "k = 1" "cs = d # ds" | d e ds where "k = 2" "cs = d # e # ds"
    | d e f ds where "k = 3" "cs = d # e # f # ds"
    by (auto simp: Suc_le_length_iff numeral_2_eq_2 numeral_3_eq_3)
  then show ?thesis
    by cases (use assms in \<open>simp_all add: s seq_len_def Let_def nth_Cons' less_Suc_eq split: if_splits\<close>,
        (cases r; simp)+)
qed

lemma utf8_fix_idem [simp]: "utf8_fix (utf8_fix s) = utf8_fix s"
proof (induction s rule: utf8_fix.induct)
  case (2 c cs)
  show ?case
  proof (cases "seq_len (c # cs)")
    case 0
    have "seq_len (utf8 bad_rune @ utf8_fix cs) = 3" by (simp add: bad_rune_bytes seq_len_def)
    then show ?thesis using 0 2(1) by (simp add: bad_rune_bytes)
  next
    case (Suc k)
    have "Suc k \<le> length (c # cs)" using Suc seq_len_tail [of "c # cs" "k - 1"] by (cases k) auto
    then show ?thesis using Suc 2(2) seq_len_prefix [OF Suc, of "utf8_fix (drop k cs)"] by simp
  qed
qed simp

subsection \<open>Reading a number back\<close>

lemma digit_char_byte: "0 \<le> d \<Longrightarrow> d < 10 \<Longrightarrow> int (byte (digit_char d)) = 48 + d"
proof -
  have "\<forall>k \<in> set [0 .. 9 :: int]. int (byte (digit_char k)) = 48 + k" by code_simp
  then show "0 \<le> d \<Longrightarrow> d < 10 \<Longrightarrow> int (byte (digit_char d)) = 48 + d" by simp
qed

lemma digit_char_props: "0 \<le> d \<Longrightarrow> d < 10 \<Longrightarrow> is_digit (digit_char d) \<and> digit_val (digit_char d) = d"
  using digit_char_byte [of d] by (simp add: is_digit_def digit_val_def)

lemma int_digits_props: "0 \<le> n \<Longrightarrow> list_all is_digit (int_digits n) \<and> digits_val (int_digits n) = n \<and> int_digits n \<noteq> [] \<and>
  (0 < n \<longrightarrow> digit_val (hd (int_digits n)) \<noteq> 0) \<and> (length (int_digits n) = 1 \<longleftrightarrow> n < 10)"
proof (induction n rule: int_digits.induct)
  case (1 n)
  show ?case
  proof (cases "n < 10")
    case True
    then show ?thesis using digit_char_props [of n] 1(2) by (simp add: int_digits.simps [of n] digits_val_def)
  next
    case False
    then have IH: "list_all is_digit (int_digits (n div 10))" "digits_val (int_digits (n div 10)) = n div 10"
      "int_digits (n div 10) \<noteq> []" "digit_val (hd (int_digits (n div 10))) \<noteq> 0"
      using 1(1) by (simp_all add: pos_imp_zdiv_pos_iff)
    then show ?thesis using False digit_char_props [of "n mod 10"]
      by (simp add: int_digits.simps [of n] digits_val_def)
  qed
qed

definition value_end :: "string \<Rightarrow> bool" where
  "value_end r \<longleftrightarrow> r = [] \<or> byte (hd r) \<in> {44, 93, 125}"

lemma lex_frac_end: "value_end r \<Longrightarrow> lex_frac r = Some (0, r)"
  by (auto simp: lex_frac_def value_end_def split: list.splits)

lemma lex_exp_end: "value_end r \<Longrightarrow> lex_exp r = Some (1, r)"
  by (auto simp: lex_exp_def value_end_def split: list.splits)

lemma span_digits_end: "list_all is_digit ds \<Longrightarrow> value_end r \<Longrightarrow> span_digits (ds @ r) = (ds, r)"
proof -
  assume ds: "list_all is_digit ds" and "value_end r"
  then have "takeWhile is_digit r = []" "dropWhile is_digit r = r"
    by (cases r; auto simp: value_end_def is_digit_def)+
  moreover have "takeWhile is_digit (ds @ r) = ds @ takeWhile is_digit r" "dropWhile is_digit (ds @ r) = dropWhile is_digit r"
    using ds by (simp_all add: takeWhile_append2 dropWhile_append2 list_all_iff)
  ultimately show ?thesis by (simp add: span_digits_def)
qed

lemma lex_num_int:
  assumes "value_end r"
  shows "lex_num (int_text n @ r) = Some (of_int n, r)"
proof -
  have *: "span_digits (int_digits m @ r) = (int_digits m, r) \<and> int_digits m \<noteq> [] \<and> digits_val (int_digits m) = m \<and>
      \<not> (hd (int_digits m) = CHR 0x30 \<and> Suc 0 < length (int_digits m))" if m: "0 \<le> m" for m
  proof -
    have "digit_val (CHR 0x30) = 0" by (simp add: digit_val_def)
    moreover have "length (int_digits m) = 1" if "\<not> 0 < m" using int_digits_props [OF m] that by simp
    ultimately show ?thesis using int_digits_props [OF m] span_digits_end assms by (metis less_irrefl One_nat_def)
  qed
  have sign: "m \<ge> 0 \<Longrightarrow> hd (int_digits m) \<noteq> CHR 0x2D" for m
    using int_digits_props [of m] by (cases "int_digits m") (auto simp: is_digit_def)
  show ?thesis
  proof (cases "n < 0")
    case True
    then show ?thesis using * [of "- n"] assms
      by (simp add: int_text_def lex_num_def Let_def lex_frac_end lex_exp_end)
  next
    case False
    obtain c cs where c: "int_digits n = c # cs" using * [of n] False by (cases "int_digits n") auto
    show ?thesis using * [of n] sign [of n] False assms c
      by (simp add: int_text_def lex_num_def Let_def lex_frac_end lex_exp_end)
  qed
qed

lemma int_text_head: "int_text n \<noteq> [] \<and> (is_digit (hd (int_text n)) \<or> hd (int_text n) = CHR 0x2D)"
  using int_digits_props [of n] by (cases "n < 0"; cases "int_digits n") (auto simp: int_text_def)

lemma num_text_reads:
  assumes "spellable fmt (JNum q)" "value_end r"
  shows "lex_num (num_text fmt q @ r) = Some (q, r)"
    and "num_text fmt q \<noteq> []" "is_digit (hd (num_text fmt q)) \<or> hd (num_text fmt q) = CHR 0x2D"
proof -
  have "exact_int q \<Longrightarrow> of_int \<lfloor>q\<rfloor> = q" by (simp add: exact_int_def)
  then show "lex_num (num_text fmt q @ r) = Some (q, r)"
    using assms lex_num_int [of r "\<lfloor>q\<rfloor>"] by (auto simp: num_text_def num_spelled_def value_end_def)
  show "num_text fmt q \<noteq> []" "is_digit (hd (num_text fmt q)) \<or> hd (num_text fmt q) = CHR 0x2D"
    using assms(1) int_text_head by (auto simp: num_text_def num_spelled_def)
qed

subsection \<open>Reading a value back\<close>

fun json_toks :: "json \<Rightarrow> token list" where
  "json_toks (JArr vs) = TArr # join_lists [TComma] (map json_toks vs) @ [TArrEnd]"
| "json_toks (JObj m) = TObj # join_lists [TComma] (map (\<lambda>(k, v). TLit (JStr k) # TColon # json_toks v) m) @ [TObjEnd]"
| "json_toks v = [TLit v]"

lemma append_single: "(@) [x] = (#) x"
  by auto

definition before :: "token list \<Rightarrow> string \<Rightarrow> token list option" where
  "before ts r = map_option (\<lambda>us. ts @ us) (json_tokens r)"

lemma before_append: "before (ts @ us) r = map_option (\<lambda>xs. ts @ xs) (before us r)"
  by (cases "json_tokens r") (simp_all add: before_def)

lemma tokens_punct: "punct c = Some t \<Longrightarrow> \<not> is_space c \<Longrightarrow> json_tokens (c # r) = map_option (\<lambda>ts. t # ts) (json_tokens r)"
  by simp

lemma tokens_comma: "json_tokens (CHR 0x2C # r) = map_option (\<lambda>ts. TComma # ts) (json_tokens r)"
  and tokens_colon: "json_tokens (CHR 0x3A # r) = map_option (\<lambda>ts. TColon # ts) (json_tokens r)"
  and tokens_arr: "json_tokens (CHR 0x5B # r) = map_option (\<lambda>ts. TArr # ts) (json_tokens r)"
  and tokens_arr_end: "json_tokens (CHR 0x5D # r) = map_option (\<lambda>ts. TArrEnd # ts) (json_tokens r)"
  and tokens_obj: "json_tokens (CHR 0x7B # r) = map_option (\<lambda>ts. TObj # ts) (json_tokens r)"
  and tokens_obj_end: "json_tokens (CHR 0x7D # r) = map_option (\<lambda>ts. TObjEnd # ts) (json_tokens r)"
  by (rule tokens_punct; simp add: punct_def is_space_def)+

lemma tokens_quoted: "json_tokens (quoted s @ r) = map_option (\<lambda>ts. TLit (JStr (utf8_fix s)) # ts) (json_tokens r)"
  using lex_quoted [of s r] by (simp add: quoted_def is_space_def punct_def del: lex_str.simps esc_text.simps)

lemma tokens_number:
  assumes "spellable fmt (JNum q)" "value_end r"
  shows "json_tokens (num_text fmt q @ r) = map_option (\<lambda>ts. TLit (JNum q) # ts) (json_tokens r)"
proof -
  obtain c cs where c: "num_text fmt q = c # cs" using num_text_reads(2) [OF assms] by (cases "num_text fmt q") auto
  then have h: "(48 \<le> byte c \<and> byte c \<le> 57) \<or> byte c = 45" using num_text_reads(3) [OF assms] by (auto simp: is_digit_def)
  then have "\<not> is_space c" "punct c = None" "byte c \<noteq> 34" by (auto simp: is_space_def punct_def Let_def)
  moreover have "keyword (c # cs @ r) = None" using h by (auto simp: keyword_def)
  ultimately show ?thesis using num_text_reads(1) [OF assms] c by simp
qed

lemma tokens_null: "json_tokens (''null'' @ r) = map_option (\<lambda>ts. TLit JNull # ts) (json_tokens r)"
  and tokens_true: "json_tokens (''true'' @ r) = map_option (\<lambda>ts. TLit (JBool True) # ts) (json_tokens r)"
  and tokens_false: "json_tokens (''false'' @ r) = map_option (\<lambda>ts. TLit (JBool False) # ts) (json_tokens r)"
  by (simp_all add: is_space_def punct_def keyword_def)

definition reads_as :: "string \<Rightarrow> token list \<Rightarrow> bool" where
  "reads_as s ts \<longleftrightarrow> (\<forall>r. value_end r \<longrightarrow> json_tokens (s @ r) = before ts r)"

lemma reads_joined:
  assumes "\<forall>x \<in> set xs. reads_as (f x) (g x)" "value_end r" "xs \<noteq> []"
  shows "json_tokens (join_lists [CHR 0x2C] (map f xs) @ r) = before (join_lists [TComma] (map g xs)) r"
  using assms
proof (induction xs)
  case (Cons x xs)
  have tail: "json_tokens (concat (map (\<lambda>ys. [CHR 0x2C] @ ys) (map f xs)) @ r) =
      before (concat (map (\<lambda>ys. [TComma] @ ys) (map g xs))) r"
    using Cons.IH Cons.prems by (cases xs) (simp_all add: append_single option.map_ident before_def tokens_comma option.map_comp comp_def del: json_tokens.simps)
  have e: "value_end (concat (map (\<lambda>ys. [CHR 0x2C] @ ys) (map f xs)) @ r)"
    using Cons.prems by (cases xs) (simp_all add: value_end_def)
  have "json_tokens (f x @ concat (map (\<lambda>ys. [CHR 0x2C] @ ys) (map f xs)) @ r) =
      before (g x) (concat (map (\<lambda>ys. [CHR 0x2C] @ ys) (map f xs)) @ r)"
    using Cons.prems e by (simp add: reads_as_def)
  then show ?case using tail by (simp add: before_def option.map_comp comp_def)
qed simp

lemma reads_show: "spellable fmt v \<Longrightarrow> reads_as (show_json fmt v) (json_toks (fix_strings v))"
proof (induction v rule: json_toks.induct)
  case (1 vs)
  then have *: "\<forall>v \<in> set vs. reads_as (show_json fmt v) ((\<lambda>v. json_toks (fix_strings v)) v)" by (auto simp: list_all_iff)
  show ?case
    unfolding reads_as_def
  proof (intro allI impI)
    fix r assume r: "value_end r"
    have e: "value_end (CHR 0x5D # r)" by (simp add: value_end_def)
    show "json_tokens (show_json fmt (JArr vs) @ r) = before (json_toks (fix_strings (JArr vs))) r"
      using reads_joined [OF * e]
      by (cases "vs = []") (simp_all add: comp_def tokens_arr tokens_arr_end before_def option.map_comp comp_def del: json_tokens.simps)
  qed
next
  case (2 m)
  have *: "\<forall>kv \<in> set m. reads_as ((\<lambda>(k, v). quoted k @ CHR 0x3A # show_json fmt v) kv)
      ((\<lambda>(k, v). TLit (JStr k) # TColon # json_toks (fix_strings v)) kv)"
  proof
    fix kv assume kv: "kv \<in> set m"
    obtain k v where [simp]: "kv = (k, v)" by (cases kv)
    have "reads_as (show_json fmt v) (json_toks (fix_strings v))" "utf8_fix k = k" using 2 kv by (auto simp: list_all_iff)
    then show "reads_as ((\<lambda>(k, v). quoted k @ CHR 0x3A # show_json fmt v) kv)
        ((\<lambda>(k, v). TLit (JStr k) # TColon # json_toks (fix_strings v)) kv)"
      by (simp add: reads_as_def tokens_quoted tokens_colon before_def option.map_comp comp_def del: json_tokens.simps)
  qed
  show ?case
    unfolding reads_as_def
  proof (intro allI impI)
    fix r assume r: "value_end r"
    have e: "value_end (CHR 0x7D # r)" by (simp add: value_end_def)
    show "json_tokens (show_json fmt (JObj m) @ r) = before (json_toks (fix_strings (JObj m))) r"
      using reads_joined [OF * e]
      by (cases "m = []") (simp_all add: comp_def split_def tokens_obj tokens_obj_end before_def option.map_comp comp_def del: json_tokens.simps)
  qed
next
  case "3_1"
  then show ?case using tokens_null by (simp add: reads_as_def before_def del: json_tokens.simps)
next
  case "3_2"
  then show ?case using tokens_true tokens_false by (simp add: reads_as_def before_def del: json_tokens.simps)
next
  case "3_3"
  then show ?case using tokens_number by (simp add: reads_as_def before_def del: json_tokens.simps)
next
  case "3_4"
  then show ?case using tokens_quoted by (simp add: reads_as_def before_def del: json_tokens.simps)
qed

lemma read_elements:
  assumes "\<forall>v \<in> set vs. \<forall>ts u. json_read (json_toks v @ ts) (WantValue False) (FArr u # st) = json_read ts (After v) (FArr u # st)"
  shows "json_read (concat (map (\<lambda>ys. [TComma] @ ys) (map json_toks vs)) @ TArrEnd # ts) (After v) (FArr us # st) =
    json_read ts (After (JArr (us @ v # vs))) st"
  using assms by (induction vs arbitrary: v us) auto

lemma read_members:
  assumes "\<forall>kv \<in> set m. \<forall>ts f. json_read (json_toks (snd kv) @ ts) (WantValue False) (f # st) = json_read ts (After (snd kv)) (f # st)"
  shows "json_read (concat (map (\<lambda>ys. [TComma] @ ys) (map (\<lambda>(k, v). TLit (JStr k) # TColon # json_toks v) m)) @ TObjEnd # ts)
      (After v) (FObj kvs k # st) = json_read ts (After (JObj (kvs @ (k, v) # m))) st"
  using assms by (induction m arbitrary: v k kvs) auto

lemma depth_below: "v \<in> set vs \<Longrightarrow> json_depth v \<le> foldr max (map json_depth vs) 0"
  by (induction vs) auto

lemma member_depth_below: "(k, v) \<in> set m \<Longrightarrow> json_depth v \<le> foldr max (map (\<lambda>(k, v). json_depth v) m) 0"
  by (induction m) auto

lemma read_toks: "length st + json_depth v \<le> 10000 \<Longrightarrow>
  json_read (json_toks v @ ts) (WantValue e) st = json_read ts (After v) st"
proof (induction v arbitrary: ts e st rule: json_toks.induct)
  case (1 vs)
  have *: "json_read (json_toks v @ ts) (WantValue e) (f # st) = json_read ts (After v) (f # st)" if "v \<in> set vs" for v ts e f
    using 1(1) [OF that, of "f # st"] depth_below [OF that] 1(2) by simp
  show ?case
  proof (cases vs)
    case Nil
    then show ?thesis using 1(2) by simp
  next
    case (Cons v ws)
    have "\<forall>v \<in> set ws. \<forall>ts u. json_read (json_toks v @ ts) (WantValue False) (FArr u # st) = json_read ts (After v) (FArr u # st)"
      using * Cons by auto
    from read_elements [OF this, of ts v "[]"] show ?thesis using 1(2) * [of v] Cons by (simp add: append_single)
  qed
next
  case (2 m)
  have *: "json_read (json_toks v @ ts) (WantValue e) (f # st) = json_read ts (After v) (f # st)" if "(k, v) \<in> set m" for k v ts e f
    using 2(1) [OF that refl, of "f # st"] member_depth_below [OF that] 2(2) by simp
  show ?case
  proof (cases m)
    case Nil
    then show ?thesis using 2(2) by simp
  next
    case (Cons kv ws)
    obtain k v where kv: "kv = (k, v)" by (cases kv)
    have "\<forall>kv \<in> set ws. \<forall>ts f. json_read (json_toks (snd kv) @ ts) (WantValue False) (f # st) = json_read ts (After (snd kv)) (f # st)"
      using * Cons by (metis list.set_intros(2) prod.collapse)
    from read_members [OF this, of ts v "[]" k] show ?thesis using 2(2) * [of k v] Cons kv by (simp add: append_single)
  qed
qed simp_all

lemma depth_fix_strings [simp]: "json_depth (fix_strings v) = json_depth v"
proof (induction v rule: fix_strings.induct)
  case (2 vs)
  then have "map (json_depth \<circ> fix_strings) vs = map json_depth vs" by simp
  then show ?case by (simp only: fix_strings.simps json_depth.simps list.map_comp)
next
  case (3 m)
  then have "map (\<lambda>(k, v). json_depth v) (map (\<lambda>(k, v). (k, fix_strings v)) m) = map (\<lambda>(k, v). json_depth v) m" by auto
  then show ?case by (simp only: fix_strings.simps json_depth.simps)
qed simp_all

lemma parse_show: "spellable fmt v \<Longrightarrow> json_depth v \<le> 10000 \<Longrightarrow> json_parse (show_json fmt v) = Some (fix_strings v)"
  using reads_show [of fmt v] read_toks [of "[]" "fix_strings v" "[]"]
  by (force simp: reads_as_def value_end_def before_def json_parse_def)

subsection \<open>Reading back what was written\<close>

lemma sort_members_mset [simp]: "mset (sort_members m) = mset m"
  by (simp add: sort_members_def)

lemma sort_members_set [simp]: "set (sort_members m) = set m"
  by (simp add: sort_members_def)

lemma sort_members_gomap [simp]: "gomap (sort_members m) = gomap m"
proof -
  have "mset (map fst (sort_members m)) = mset (map fst m)" by simp
  then show ?thesis unfolding gomap_def by (metis mset_eq_imp_distinct_iff)
qed

lemma sort_members_map_of [simp]: "gomap m \<Longrightarrow> map_of (sort_members m) = map_of m"
  by (metis gomap_def map_of_eqI map_of_inject_set set_map sort_members_gomap sort_members_set)

lemma foldr_max_le: "foldr max xs (0 :: nat) \<le> n \<longleftrightarrow> (\<forall>x \<in> set xs. x \<le> n)"
  by (induction xs) auto

lemma foldr_max_set: "set xs = set ys \<Longrightarrow> foldr max xs (0 :: nat) = foldr max ys 0"
  by (metis foldr_max_le dual_order.antisym order_refl)

lemma depth_key_sorted [simp]: "json_depth (key_sorted v) = json_depth v"
proof (induction v rule: key_sorted.induct)
  case (1 vs)
  then have "map (json_depth \<circ> key_sorted) vs = map json_depth vs" by simp
  then show ?case by (simp only: key_sorted.simps json_depth.simps list.map_comp)
next
  case (2 m)
  have "set (map (\<lambda>(k, v). json_depth v) (sort_members (map (\<lambda>(k, v). (k, key_sorted v)) m))) = set (map (\<lambda>(k, v). json_depth v) m)"
  proof -
    have "(\<lambda>x. json_depth (key_sorted (snd x))) ` set m = (\<lambda>x. json_depth (snd x)) ` set m"
      using 2 by (intro image_cong) auto
    then show ?thesis by (simp add: image_image split_def)
  qed
  from foldr_max_set [OF this] show ?case by (simp only: key_sorted.simps json_depth.simps)
qed simp_all

lemma spellable_key_sorted [simp]: "spellable fmt (key_sorted v) = spellable fmt v"
proof (induction v rule: key_sorted.induct)
  case (2 m)
  have "gomap (map (\<lambda>(k, v). (k, key_sorted v)) m) = gomap m" by (simp add: gomap_def comp_def split_def)
  moreover have "list_all (\<lambda>(k, v). utf8_fix k = k \<and> spellable fmt v) (sort_members (map (\<lambda>(k, v). (k, key_sorted v)) m)) =
      list_all (\<lambda>(k, v). utf8_fix k = k \<and> spellable fmt v) m"
    using 2 by (auto simp: list_all_iff)
  ultimately show ?case by simp
qed (auto simp: list_all_iff)

text \<open>What reading the text of a value gives.\<close>

definition reread :: "json \<Rightarrow> json" where
  "reread v = fix_strings (key_sorted v)"

lemma parse_marshal: "spellable fmt v \<Longrightarrow> json_depth v \<le> 10000 \<Longrightarrow> json_parse (go_marshal fmt v) = Some (reread v)"
  by (simp add: go_marshal_def reread_def parse_show)

lemma update_fresh: "k \<notin> fst ` set m \<Longrightarrow> AList.update k v m = m @ [(k, v)]"
  by (induction m) auto

lemma foldl_update_fresh:
  "distinct (map fst m) \<Longrightarrow> set (map fst m) \<inter> fst ` set out = {} \<Longrightarrow> foldl (\<lambda>out (k, v). AList.update k v out) out m = out @ m"
  by (induction m arbitrary: out) (auto simp: update_fresh)

lemma go_value_distinct: "spellable fmt v \<Longrightarrow> go_value v = v"
proof (induction v rule: go_value.induct)
  case (1 vs)
  then show ?case by (simp add: list_all_iff map_idI)
next
  case (2 m)
  then have "map (\<lambda>(k, v). (k, go_value v)) m = m" by (intro map_idI) (auto simp: list_all_iff)
  then show ?case using 2(2) foldl_update_fresh [of m "[]"] by (simp add: gomap_def)
qed simp_all

lemma spellable_fix_strings [simp]: "spellable fmt (fix_strings v) = spellable fmt v"
proof (induction v rule: fix_strings.induct)
  case (3 m)
  have "gomap (map (\<lambda>(k, v). (k, fix_strings v)) m) = gomap m" by (simp add: gomap_def comp_def split_def)
  then show ?case using 3 by (auto simp: list_all_iff)
qed (auto simp: list_all_iff)

lemma exact_float_ok: "exact_int q \<Longrightarrow> float_ok q"
proof -
  have "(2 :: rat) ^ 53 < 2 ^ 1024 - 2 ^ 970" by simp
  then show "exact_int q \<Longrightarrow> float_ok q" unfolding exact_int_def float_ok_def by linarith
qed

lemma spellable_floats_ok: "spellable fmt v \<Longrightarrow> json_floats_ok v"
  by (induction v rule: json_floats_ok.induct) (auto simp: list_all_iff exact_float_ok)

theorem decode_marshal:
  assumes "spellable fmt (JObj m)" "json_depth (JObj m) \<le> 10000"
  shows "decode_object (go_marshal fmt (JObj m)) = jobj (Some (reread (JObj m)))"
proof -
  have "spellable fmt (reread (JObj m))" using assms by (simp only: reread_def spellable_fix_strings spellable_key_sorted)
  then show ?thesis
    using parse_marshal [OF assms] by (simp add: decode_object_def spellable_floats_ok go_value_distinct)
qed

end
