(* ===== verification/JsonProbe.thy ===== *)
theory JsonProbe
  imports GoMarshal
begin

text \<open>
  The relays look for a quoted word in the text of a chunk before they decode it.  A word of small
  letters and underscores that the decoded value mentions stands in the text, unless the text writes
  a letter as an escape.
\<close>

definition word_char :: "char \<Rightarrow> bool" where
  "word_char c \<longleftrightarrow> byte c = 95 \<or> 97 \<le> byte c \<and> byte c \<le> 122"

definition plain_word :: "string \<Rightarrow> bool" where
  "plain_word s \<longleftrightarrow> s \<noteq> [] \<and> list_all word_char s"

text \<open>No escape of a character from U+0050 to U+007F.\<close>

definition letters_plain :: "string \<Rightarrow> bool" where
  "letters_plain t \<longleftrightarrow> \<not> has_part (CHR 0x5C # ''u005'') t \<and> \<not> has_part (CHR 0x5C # ''u006'') t \<and>
     \<not> has_part (CHR 0x5C # ''u007'') t"

definition quoted_word :: "string \<Rightarrow> string" where
  "quoted_word s = CHR 0x22 # s @ [CHR 0x22]"

fun mentions :: "string \<Rightarrow> json \<Rightarrow> bool" where
  "mentions s (JStr t) = (t = s)"
| "mentions s (JArr vs) = list_ex (mentions s) vs"
| "mentions s (JObj m) = list_ex (\<lambda>(k, v). k = s \<or> mentions s v) m"
| "mentions s v = False"

subsection \<open>Parts of a text\<close>

lemma starts_append: "starts p (p @ r)"
  by (simp add: starts_def)

lemma has_part_iff: "has_part p t \<longleftrightarrow> (\<exists>a b. t = a @ p @ b)"
proof
  show "has_part p t \<Longrightarrow> \<exists>a b. t = a @ p @ b"
  proof (induction t)
    case (Cons c t)
    then show ?case
      by (metis append_Cons append_Nil append_take_drop_id has_part.simps(2) starts_def)
  qed simp
  have "has_part p (a @ p @ b)" for a b
  proof (induction a)
    case Nil
    show ?case using starts_append [of p b] by (cases "p @ b") auto
  qed simp
  then show "\<exists>a b. t = a @ p @ b \<Longrightarrow> has_part p t" by blast
qed

lemma has_part_self: "has_part p p"
  by (metis append.right_neutral append_Nil has_part_iff)

lemma has_part_append: "has_part p t \<Longrightarrow> has_part p (a @ t @ b)"
  by (metis append.assoc has_part_iff)

lemma has_part_drop: "has_part p (drop k t) \<Longrightarrow> has_part p t"
  by (metis append.right_neutral append_take_drop_id has_part_append)

lemma letters_plain_suffix: "letters_plain (a @ t) \<Longrightarrow> letters_plain t"
  using has_part_append [of _ t a "[]"] by (auto simp: letters_plain_def)

lemma letters_plain_Cons: "letters_plain (c # t) \<Longrightarrow> letters_plain t"
  using letters_plain_suffix [of "[c]"] by simp

lemma letters_plain_drop: "letters_plain t \<Longrightarrow> letters_plain (drop k t)"
  by (metis append_take_drop_id letters_plain_suffix)

subsection \<open>Words in the text\<close>

lemma hex_val_digit: "hex_val c = Some n \<Longrightarrow> n < 10 \<Longrightarrow> byte c = 48 + n"
  by (auto simp: hex_val_def Let_def split: if_splits)

lemma hex_val_less: "hex_val c = Some n \<Longrightarrow> n < 16"
  by (auto simp: hex_val_def Let_def split: if_splits)

lemma escape_char_not_word: "escape_char e = Some c \<Longrightarrow> \<not> word_char c"
  by (auto simp: escape_char_def word_char_def Let_def split: if_splits)

lemma word_char_byte: "word_char c \<Longrightarrow> 80 \<le> byte c \<and> byte c < 128"
  by (auto simp: word_char_def)

lemma byte_inj: "byte c = byte d \<Longrightarrow> c = d"
  by simp

lemma digit_bytes: "byte (CHR ''5'') = 53" "byte (CHR ''6'') = 54" "byte (CHR ''7'') = 55"
  by simp_all

lemma escape_not_word:
  assumes "escape_at cs = Some (x, k)" "letters_plain (CHR 0x5C # cs)"
  shows "\<not> plain_word x"
proof
  assume w: "plain_word x"
  obtain e r where cs: "cs = e # r" using assms(1) by (cases cs) (auto simp: escape_at_def)
  show False
  proof (cases "byte e = 117")
    case False
    then show False using assms(1) w escape_char_not_word by (auto simp: cs escape_at_def plain_word_def)
  next
    case True
    obtain n where n: "hex4 r = Some n" using assms(1) True by (cases "hex4 r") (auto simp: cs escape_at_def)
    have "\<exists>m. x = utf8 m \<and> (m = n \<or> 65533 \<le> m)"
      using assms(1) True n by (auto simp: cs escape_at_def split: if_splits option.splits)
    then obtain m where m: "x = utf8 m" "m = n \<or> 65533 \<le> m" by blast
    have hd_x: "\<forall>c \<in> set x. 80 \<le> byte c \<and> byte c < 128" using w word_char_byte by (auto simp: plain_word_def list_all_iff)
    have "m < 128"
    proof (rule ccontr)
      assume big: "\<not> m < 128"
      have "byte (char_of (128 + m mod 64)) = 128 + m mod 64" by (simp add: of_char_of)
      moreover have "char_of (128 + m mod 64) \<in> set x" using big m(1) by (auto simp: utf8_def)
      ultimately show False using hd_x by fastforce
    qed
    then have x: "x = [char_of m]" and "m = n" using m by (auto simp: utf8_def)
    then have n': "80 \<le> n" "n < 128" using hd_x \<open>m < 128\<close> by (auto simp: of_char_of)
    obtain a b c d r' where r: "r = a # b # c # d # r'" using n by (cases r rule: hex4.cases) auto
    obtain p q u v where h: "hex_val a = Some p" "hex_val b = Some q" "hex_val c = Some u" "hex_val d = Some v"
      "n = ((p * 16 + q) * 16 + u) * 16 + v"
      using n by (auto simp: r split: option.splits)
    have v: "v < 16" "u < 16" using h hex_val_less by blast+
    have n_eq: "n = 4096 * p + 256 * q + 16 * u + v" using h(5) by (simp add: algebra_simps)
    have "p < 1" "q < 1" using n_eq n'(2) by linarith+
    then have p0: "p = 0" and q0: "q = 0" by simp_all
    have "u * 16 + v < 128" "80 \<le> u * 16 + v" using h(5) n' p0 q0 by simp_all
    then have u: "5 \<le> u" "u \<le> 7" using v by linarith+
    then have b: "byte a = 48" "byte b = 48" "byte c = 48 + u" using h p0 q0 u hex_val_digit [of a p] hex_val_digit [of b q] hex_val_digit [of c u] by simp_all
    have "u = 5 \<or> u = 6 \<or> u = 7" using u by arith
    then have "byte c = 53 \<or> byte c = 54 \<or> byte c = 55" using b by auto
    then have "c = CHR ''5'' \<or> c = CHR ''6'' \<or> c = CHR ''7''"
      by (metis byte_inj digit_bytes)
    moreover have "a = CHR ''0''" by (rule byte_inj) (simp add: b)
    moreover have "b = CHR ''0''" by (rule byte_inj) (simp add: b)
    moreover have "e = CHR ''u''" by (rule byte_inj) (simp add: True)
    ultimately show False using assms(2) by (auto simp: cs r letters_plain_def starts_def)
  qed
qed

lemma escape_nonempty: "escape_at cs = Some (x, k) \<Longrightarrow> x \<noteq> []"
  by (auto simp: escape_at_def utf8_def split: list.splits if_splits option.splits)

lemma lex_plain:
  "lex_str t = Some (v, r) \<Longrightarrow> letters_plain t \<Longrightarrow> list_all word_char v \<Longrightarrow> t = v @ CHR 0x22 # r"
proof (induction t arbitrary: v r rule: lex_str.induct)
  case (2 c cs)
  show ?case
  proof (cases "byte c = 92")
    case True
    then have c: "c = CHR 0x5C" by (intro byte_inj) simp
    obtain x k where e: "escape_at cs = Some (x, k)" using 2(3) by (auto simp: c split: option.splits)
    then obtain w where "v = x @ w" using 2(3) by (auto simp: c)
    then have "plain_word x" using 2(5) escape_nonempty [OF e] by (simp add: plain_word_def)
    then show ?thesis using escape_not_word [OF e] 2(4) by (simp add: c)
  next
    case False
    show ?thesis
    proof (cases "byte c = 34")
      case True
      then have "c = CHR 0x22" by (intro byte_inj) simp
      then show ?thesis using 2(3) by simp
    next
      case quote: False
      then have "\<not> byte c < 32" using 2(3) by auto
      then obtain w where "lex_str cs = Some (w, r)" "v = c # w" using 2(3) False quote by auto
      then show ?thesis using 2(1) [OF quote \<open>\<not> byte c < 32\<close> False] 2(4,5) letters_plain_Cons by auto
    qed
  qed
qed simp

lemma utf8_fix_plain: "list_all word_char (utf8_fix s) \<Longrightarrow> utf8_fix s = s"
proof (induction s rule: utf8_fix.induct)
  case (2 c cs)
  show ?case
  proof (cases "seq_len (c # cs)")
    case 0
    then show ?thesis using 2(3) by (simp add: bad_rune_bytes word_char_def)
  next
    case (Suc k)
    then show ?thesis using 2(2) [OF Suc] 2(3) by simp
  qed
qed simp

lemma suffix_drop_Cons: "suffix r (drop k cs) \<Longrightarrow> suffix r (c # cs)"
  by (meson suffix_ConsI suffix_drop suffix_order.trans)

lemma lex_str_suffix: "lex_str t = Some (v, r) \<Longrightarrow> suffix r t"
proof (induction t arbitrary: v r rule: lex_str.induct)
  case (2 c cs)
  then show ?case
    by (auto split: if_splits option.splits prod.splits intro: suffix_ConsI) (metis suffix_drop_Cons)
qed simp

lemma span_digits_suffix: "span_digits s = (ds, r) \<Longrightarrow> suffix r s"
  by (auto simp: span_digits_def suffix_dropWhile)

lemma lex_frac_suffix: "lex_frac s = Some (f, r) \<Longrightarrow> suffix r s"
  by (auto simp: lex_frac_def split: list.splits if_splits prod.splits intro: suffix_ConsI dest: span_digits_suffix)

lemma lex_exp_suffix: "lex_exp s = Some (f, r) \<Longrightarrow> suffix r s"
  by (auto simp: lex_exp_def Let_def split: list.splits if_splits prod.splits intro: suffix_ConsI dest!: span_digits_suffix)

lemma lex_num_suffix:
  assumes "lex_num s = Some (v, r)"
  shows "suffix r s"
proof -
  define t where "t = (if case s of [] \<Rightarrow> False | c # _ \<Rightarrow> c = CHR 0x2D then tl s else s)"
  obtain ds a where a: "span_digits t = (ds, a)" by fastforce
  then obtain f b p where "lex_frac a = Some (f, b)" "lex_exp b = Some (p, r)"
    using assms unfolding lex_num_def t_def [symmetric] Let_def by (auto split: if_splits option.splits)
  moreover have "suffix t s" by (simp add: t_def)
  ultimately show ?thesis using a by (meson span_digits_suffix lex_frac_suffix lex_exp_suffix suffix_order.trans)
qed

lemma json_tokens_cases:
  assumes "json_tokens (c # cs) = Some ts"
  obtains (skip) "json_tokens cs = Some ts"
  | (tok) tk us r where "ts = tk # us" "suffix r cs" "json_tokens r = Some us"
      "\<And>s. tk = TLit (JStr s) \<Longrightarrow> \<exists>v. c = CHR 0x22 \<and> lex_str cs = Some (v, r) \<and> s = utf8_fix v"
      "\<And>v s. tk = TLit v \<Longrightarrow> mentions s v \<Longrightarrow> v = JStr s"
proof (cases "is_space c")
  case True
  then show ?thesis using assms skip by simp
next
  case space: False
  show ?thesis
  proof (cases "punct c")
    case (Some tk)
    then have "tk \<noteq> TLit v" for v by (auto simp: punct_def Let_def split: if_splits)
    then show ?thesis using assms space Some tok [of tk _ cs] by auto
  next
    case punct: None
    show ?thesis
    proof (cases "byte c = 34")
      case True
      then have c: "c = CHR 0x22" by (intro byte_inj) simp
      obtain v r us where v: "lex_str cs = Some (v, r)" "json_tokens r = Some us" "ts = TLit (JStr (utf8_fix v)) # us"
        using assms space punct True by (auto split: option.splits)
      show ?thesis by (rule tok [OF v(3) lex_str_suffix [OF v(1)] v(2)]) (use c v in auto)
    next
      case quote: False
      show ?thesis
      proof (cases "keyword (c # cs)")
        case (Some vk)
        obtain v k where vk: "vk = (v, k)" by (cases vk)
        have "v \<noteq> JStr s" "\<not> mentions s v" for s using Some by (auto simp: vk keyword_def split: if_splits)
        obtain us where us: "json_tokens (drop k cs) = Some us" "ts = TLit v # us"
          using assms space punct quote Some vk by auto
        show ?thesis
          by (rule tok [OF us(2) suffix_drop us(1)]) (use \<open>\<And>s. v \<noteq> JStr s\<close> \<open>\<And>s. \<not> mentions s v\<close> in auto)
      next
        case key: None
        then obtain v r us where n: "lex_num (c # cs) = Some (v, r)" "json_tokens r = Some us" "ts = TLit (JNum v) # us"
          using assms space punct quote by (auto split: option.splits)
        then have "suffix r cs" using lex_num_suffix lex_num_shorter by (fastforce simp: suffix_Cons)
        then show ?thesis by (intro tok [OF n(3) _ n(2)]) auto
      qed
    qed
  qed
qed

lemma token_in_text:
  "json_tokens t = Some ts \<Longrightarrow> TLit w \<in> set ts \<Longrightarrow> mentions s w \<Longrightarrow> plain_word s \<Longrightarrow> letters_plain t \<Longrightarrow>
    has_part (quoted_word s) t"
proof (induction "length t" arbitrary: t ts rule: less_induct)
  case less
  obtain c cs where t: "t = c # cs" using less.prems by (cases t) auto
  have part: "has_part (quoted_word s) t" if "has_part (quoted_word s) r" "suffix r cs" for r
    using that has_part_append [of _ r _ "[]"] unfolding t suffix_def by (metis append.right_neutral append_Cons)
  from less.prems(1) [unfolded t] show ?case
  proof (cases rule: json_tokens_cases)
    case skip
    then show ?thesis using less.hyps [of cs] less.prems part [of cs] letters_plain_Cons by (auto simp: t)
  next
    case (tok tk us r)
    have pl: "letters_plain cs" "letters_plain r"
      using less.prems(5) tok(2) letters_plain_Cons letters_plain_suffix unfolding t suffix_def by blast+
    show ?thesis
    proof (cases "TLit w \<in> set us")
      case True
      moreover have "length r < length t" using tok(2) by (auto simp: t suffix_def)
      ultimately show ?thesis using less.hyps [of r us] tok(2,3) less.prems(3,4) pl part by blast
    next
      case False
      then have "tk = TLit w" using less.prems(2) tok(1) by simp
      then have "tk = TLit (JStr s)" using tok(5) less.prems(3) by blast
      then obtain v where v: "c = CHR 0x22" "lex_str cs = Some (v, r)" "s = utf8_fix v" using tok(4) by blast
      then have "v = s" using utf8_fix_plain [of v] less.prems(4) by (simp add: plain_word_def)
      then have "cs = s @ CHR 0x22 # r" using lex_plain [OF v(2) pl(1)] less.prems(4) by (simp add: plain_word_def)
      then have "t = [] @ quoted_word s @ r" using v by (simp add: t quoted_word_def)
      then show ?thesis using has_part_iff by blast
    qed
  qed
qed

subsection \<open>Strings of the value\<close>

fun frame_mentions :: "string \<Rightarrow> frame \<Rightarrow> bool" where
  "frame_mentions s (FArr vs) = list_ex (mentions s) vs"
| "frame_mentions s (FObj kvs k) = (k = s \<or> list_ex (\<lambda>(k, v). k = s \<or> mentions s v) kvs)"

fun mode_mentions :: "string \<Rightarrow> mode \<Rightarrow> bool" where
  "mode_mentions s (After v) = mentions s v"
| "mode_mentions s (WantColon k) = (k = s)"
| "mode_mentions s m = False"

lemma read_mentions:
  "json_read ts m st = Some v \<Longrightarrow> mentions s v \<Longrightarrow> s \<noteq> [] \<Longrightarrow>
    mode_mentions s m \<or> list_ex (frame_mentions s) st \<or> (\<exists>w. TLit w \<in> set ts \<and> mentions s w)"
proof (induction ts m st rule: json_read.induct)
  case (1 m st)
  then show ?case by (cases m) (auto split: if_splits)
next
  case (2 t ts e st)
  then show ?case by (cases t) (auto split: if_splits list.splits frame.splits)
next
  case (3 t ts e st)
  then show ?case by (cases t) (auto split: if_splits list.splits frame.splits json.splits)
next
  case (4 t ts k st)
  then show ?case by (cases t) (auto split: if_splits list.splits frame.splits)
next
  case (5 t ts v st)
  then show ?case by (cases t) (auto split: if_splits list.splits frame.splits)
qed

lemma update_mentions:
  "list_ex (\<lambda>(k, v). k = s \<or> mentions s v) (AList.update k v m) \<Longrightarrow>
    k = s \<or> mentions s v \<or> list_ex (\<lambda>(k, v). k = s \<or> mentions s v) m"
  by (induction m) (auto split: if_splits)

lemma updates_mention:
  "list_ex (\<lambda>(k, v). k = s \<or> mentions s v) (foldl (\<lambda>out (k, v). AList.update k v out) out m) \<Longrightarrow>
    list_ex (\<lambda>(k, v). k = s \<or> mentions s v) m \<or> list_ex (\<lambda>(k, v). k = s \<or> mentions s v) out"
  by (induction m arbitrary: out) (use update_mentions in \<open>fastforce split: prod.splits\<close>)+

lemma go_value_mentions: "mentions s (go_value v) \<Longrightarrow> mentions s v"
proof (induction v rule: go_value.induct)
  case (2 m)
  then have "list_ex (\<lambda>(k, v). k = s \<or> mentions s v) (map (\<lambda>(k, v). (k, go_value v)) m)"
    using updates_mention [of s "[]" "map (\<lambda>(k, v). (k, go_value v)) m"] by simp
  then show ?case using 2(1) by (fastforce simp: list_ex_iff)
qed (auto simp: list_ex_iff)

theorem probe_sees_word:
  assumes "decode_object t = Some m" "mentions s (JObj m)" "plain_word s" "letters_plain t"
  shows "has_part (quoted_word s) t"
proof -
  obtain v where v: "json_parse t = Some v" "go_value v = JObj m"
    using assms(1) by (auto simp: decode_object_def jobj_def split: option.splits if_splits json.splits)
  obtain ts where ts: "json_tokens t = Some ts" "json_read ts (WantValue False) [] = Some v"
    using v(1) by (auto simp: json_parse_def split: option.splits)
  have "mentions s v" using v(2) assms(2) go_value_mentions by metis
  then obtain w where "TLit w \<in> set ts" "mentions s w"
    using read_mentions [OF ts(2)] assms(3) by (auto simp: plain_word_def)
  then show ?thesis using token_in_text [OF ts(1)] assms(3,4) by blast
qed

subsection \<open>Words in a written text\<close>

lemma word_char_esc: "word_char c \<Longrightarrow> esc_byte c = [c]"
  by (auto simp: word_char_def esc_byte_def)

lemma plain_esc: "list_all word_char s \<Longrightarrow> esc_text s = s"
proof (induction s)
  case (Cons c s)
  then have "seq_len (c # s) = 1" using word_char_byte [of c] by (simp add: seq_len_def)
  then show ?case using Cons word_char_esc by simp
qed simp

lemma plain_quoted: "plain_word s \<Longrightarrow> quoted s = quoted_word s"
  by (simp add: quoted_def quoted_word_def plain_esc plain_word_def)

lemma part_joined: "x \<in> set xss \<Longrightarrow> has_part p x \<Longrightarrow> has_part p (join_lists sep xss)"
proof (induction xss)
  case (Cons y xss)
  show ?case
  proof (cases "x = y")
    case True
    then show ?thesis using Cons.prems(2) has_part_append [of p y "[]"] by simp
  next
    case False
    then obtain as bs where "xss = as @ x # bs" using Cons.prems(1) by (auto dest: split_list)
    then show ?thesis
      using has_part_append [OF Cons.prems(2), of "y @ concat (map (\<lambda>ys. sep @ ys) as) @ sep"] by simp
  qed
qed simp

lemma has_part_Cons: "has_part p t \<Longrightarrow> has_part p (c # t)"
  by simp

lemma has_part_prefix: "has_part p t \<Longrightarrow> has_part p (t @ b)"
  using has_part_append [of p t "[]"] by simp

lemma has_part_suffix: "has_part p t \<Longrightarrow> has_part p (a @ t)"
  using has_part_append [of p t a "[]"] by simp

lemma show_mentions: "mentions s v \<Longrightarrow> plain_word s \<Longrightarrow> has_part (quoted_word s) (show_json fmt v)"
proof (induction v rule: json_toks.induct)
  case (1 vs)
  then obtain v where "v \<in> set vs" "has_part (quoted_word s) (show_json fmt v)" by (auto simp: list_ex_iff)
  then have "has_part (quoted_word s) (join_lists [CHR 0x2C] (map (show_json fmt) vs))"
    by (intro part_joined [of "show_json fmt v"]) auto
  then show ?case by (simp add: has_part_prefix)
next
  case (2 m)
  then obtain k v where kv: "(k, v) \<in> set m" "k = s \<or> mentions s v" by (auto simp: list_ex_iff)
  then have "has_part (quoted_word s) (quoted k @ CHR 0x3A # show_json fmt v)"
    using 2 plain_quoted has_part_self has_part_prefix has_part_suffix has_part_Cons by metis
  then have "has_part (quoted_word s) (join_lists [CHR 0x2C] (map (\<lambda>(k, v). quoted k @ CHR 0x3A # show_json fmt v) m))"
    using kv by (intro part_joined [of "quoted k @ CHR 0x3A # show_json fmt v"]) force+
  then show ?case by (simp add: has_part_prefix)
next
  case "3_4"
  then show ?case using plain_quoted [of s] has_part_self by simp
qed simp_all

lemma key_sorted_mentions [simp]: "mentions s (key_sorted v) = mentions s v"
proof (induction v rule: key_sorted.induct)
  case (2 m)
  have "(\<exists>x \<in> set m. fst x = s \<or> mentions s (key_sorted (snd x))) = (\<exists>x \<in> set m. fst x = s \<or> mentions s (snd x))"
    by (rule bex_cong) (use 2 in auto)
  then show ?case by (simp add: list_ex_iff split_def)
qed (auto simp: list_ex_iff)

lemma marshal_mentions: "mentions s v \<Longrightarrow> plain_word s \<Longrightarrow> has_part (quoted_word s) (go_marshal fmt v)"
  by (simp add: go_marshal_def show_mentions)

end
