(* ===== verification/JsonEval.thy ===== *)
theory JsonEval
  imports GoMarshal
begin

text \<open>
  Equations by which the decoder is evaluated on concrete texts: bytes are compared as characters and the
  bits of a character are read off, instead of the numbers they stand for.
\<close>

definition is_ascii :: "char \<Rightarrow> bool" where
  "is_ascii c \<longleftrightarrow> (case c of Char b0 b1 b2 b3 b4 b5 b6 b7 \<Rightarrow> \<not> b7)"

definition is_control :: "char \<Rightarrow> bool" where
  "is_control c \<longleftrightarrow> (case c of Char b0 b1 b2 b3 b4 b5 b6 b7 \<Rightarrow> \<not> b7 \<and> \<not> b6 \<and> \<not> b5)"

lemma ascii_byte: "is_ascii c \<longleftrightarrow> byte c < 128"
  by (cases c) (auto simp: is_ascii_def of_char_def)

lemma control_byte: "is_control c \<longleftrightarrow> byte c < 32"
  by (cases c) (auto simp: is_control_def of_char_def)

lemma char_bytes:
  "c = CHR 0x09 \<longleftrightarrow> byte c = 9"
  "c = CHR 0x0A \<longleftrightarrow> byte c = 10"
  "c = CHR 0x0D \<longleftrightarrow> byte c = 13"
  "c = CHR 0x20 \<longleftrightarrow> byte c = 32"
  "c = CHR 0x26 \<longleftrightarrow> byte c = 38"
  "c = CHR 0x3C \<longleftrightarrow> byte c = 60"
  "c = CHR 0x3E \<longleftrightarrow> byte c = 62"
  "c = CHR 0x22 \<longleftrightarrow> byte c = 34"
  "c = CHR 0x2C \<longleftrightarrow> byte c = 44"
  "c = CHR 0x3A \<longleftrightarrow> byte c = 58"
  "c = CHR 0x5B \<longleftrightarrow> byte c = 91"
  "c = CHR 0x5C \<longleftrightarrow> byte c = 92"
  "c = CHR 0x5D \<longleftrightarrow> byte c = 93"
  "c = CHR 0x7B \<longleftrightarrow> byte c = 123"
  "c = CHR 0x7D \<longleftrightarrow> byte c = 125"
  by (subst of_char_eq_iff [symmetric, where ?'a = nat], simp)+

lemma is_space_code [code]: "is_space c \<longleftrightarrow> (if c = CHR 0x20 then True else if c = CHR 0x0A then True else if c = CHR 0x0D then True else c = CHR 0x09)"
  by (auto simp: is_space_def char_bytes)

lemma punct_code [code]:
  "punct c = (if c = CHR 0x7B then Some TObj else if c = CHR 0x7D then Some TObjEnd else if c = CHR 0x5B then Some TArr
     else if c = CHR 0x5D then Some TArrEnd else if c = CHR 0x3A then Some TColon else if c = CHR 0x2C then Some TComma else None)"
  by (simp add: punct_def char_bytes)

lemma json_tokens_code [code]:
  "json_tokens [] = Some []"
  "json_tokens (c # cs) =
     (if c = CHR 0x22 then
        (case lex_str cs of None \<Rightarrow> None | Some (v, r) \<Rightarrow> map_option (\<lambda>ts. TLit (JStr (utf8_fix v)) # ts) (json_tokens r))
      else if is_space c then json_tokens cs
      else case punct c of
        Some t \<Rightarrow> map_option (\<lambda>ts. t # ts) (json_tokens cs)
      | None \<Rightarrow> (case keyword (c # cs) of
            Some (v, k) \<Rightarrow> map_option (\<lambda>ts. TLit v # ts) (json_tokens (drop k cs))
          | None \<Rightarrow> (case lex_num (c # cs) of
                 None \<Rightarrow> None
               | Some (v, r) \<Rightarrow> map_option (\<lambda>ts. TLit (JNum v) # ts) (json_tokens r))))"
  by (simp_all add: char_bytes is_space_def punct_def)

lemma lex_str_code [code]:
  "lex_str [] = None"
  "lex_str (c # cs) =
     (if c = CHR 0x22 then Some ([], cs)
      else if is_control c then None
      else if c \<noteq> CHR 0x5C then map_option (\<lambda>(s, r). (c # s, r)) (lex_str cs)
      else case escape_at cs of
        None \<Rightarrow> None
      | Some (x, k) \<Rightarrow> map_option (\<lambda>(s, r). (x @ s, r)) (lex_str (drop k cs)))"
  by (simp_all add: control_byte char_bytes)

lemma utf8_fix_code [code]:
  "utf8_fix [] = []"
  "utf8_fix (c # cs) = (if is_ascii c then c # utf8_fix cs else case seq_len (c # cs) of
     0 \<Rightarrow> utf8 bad_rune @ utf8_fix cs
   | Suc k \<Rightarrow> c # take k cs @ utf8_fix (drop k cs))"
  by (simp_all add: ascii_byte seq_len_def)

text \<open>A shallow nesting is not compared with the bound.\<close>

definition too_deep :: "'a list \<Rightarrow> bool" where
  "too_deep st \<longleftrightarrow> 10000 \<le> length st"

lemma too_deep_code [code]: "too_deep st \<longleftrightarrow> (if drop 20 st = [] then False else 10000 \<le> length st)"
  by (simp add: too_deep_def)

lemma json_read_value:
  "json_read (t # ts) (WantValue e) st = (case t of
     TLit v \<Rightarrow> json_read ts (After v) st
   | TObj \<Rightarrow> if too_deep st then None else json_read ts (WantKey True) (FObj [] [] # st)
   | TArr \<Rightarrow> if too_deep st then None else json_read ts (WantValue True) (FArr [] # st)
   | TArrEnd \<Rightarrow> if e then (case st of FArr [] # st' \<Rightarrow> json_read ts (After (JArr [])) st' | _ \<Rightarrow> None) else None
   | _ \<Rightarrow> None)"
  by (simp add: too_deep_def)

lemmas json_read_code [code] = json_read.simps(1) json_read_value json_read.simps(3-5)

text \<open>Small numbers are compared without the powers of two.\<close>

lemma float_ok_small [code]: "float_ok x \<longleftrightarrow> (if \<bar>x\<bar> < 2 ^ 53 then True else \<bar>x\<bar> < 2 ^ 1024 - 2 ^ 970)"
  by (simp add: float_ok_def)

text \<open>Searching and escaping.\<close>

lemma starts_code [code]:
  "starts [] s = True"
  "starts (p # ps) s = (case s of [] \<Rightarrow> False | c # cs \<Rightarrow> if c = p then starts ps cs else False)"
  by (auto simp: starts_def split: list.splits)

lemma has_part_code [code]:
  "has_part p [] = (p = [])"
  "has_part p (c # cs) = (if starts p (c # cs) then True else has_part p cs)"
  by simp_all

definition is_plain :: "char \<Rightarrow> bool" where
  "is_plain c \<longleftrightarrow> (if is_ascii c then if is_control c then False else if c = CHR 0x22 then False else if c = CHR 0x5C then False
     else if c = CHR 0x26 then False else if c = CHR 0x3C then False else c \<noteq> CHR 0x3E else False)"

lemma plain_escape: "is_plain c \<Longrightarrow> esc_byte c = [c]"
  by (auto simp: is_plain_def esc_byte_def Let_def ascii_byte control_byte char_bytes split: if_splits)

lemma esc_text_code [code]:
  "esc_text [] = []"
  "esc_text (c # cs) = (if is_plain c then c # esc_text cs else case seq_len (c # cs) of
     0 \<Rightarrow> CHR 0x5C # ''ufffd'' @ esc_text cs
   | Suc k \<Rightarrow> (if k = 0 then esc_byte c
        else if c # take k cs = [CHR 0xE2, CHR 0x80, CHR 0xA8] then CHR 0x5C # ''u2028''
        else if c # take k cs = [CHR 0xE2, CHR 0x80, CHR 0xA9] then CHR 0x5C # ''u2029''
        else c # take k cs) @ esc_text (drop k cs))"
proof -
  have "seq_len (c # cs) = 1" if "is_plain c"
    using that by (auto simp: is_plain_def ascii_byte seq_len_def split: if_splits)
  then show "esc_text (c # cs) = (if is_plain c then c # esc_text cs else case seq_len (c # cs) of
     0 \<Rightarrow> CHR 0x5C # ''ufffd'' @ esc_text cs
   | Suc k \<Rightarrow> (if k = 0 then esc_byte c
        else if c # take k cs = [CHR 0xE2, CHR 0x80, CHR 0xA8] then CHR 0x5C # ''u2028''
        else if c # take k cs = [CHR 0xE2, CHR 0x80, CHR 0xA9] then CHR 0x5C # ''u2029''
        else c # take k cs) @ esc_text (drop k cs))"
    using plain_escape by (simp split: nat.split)
qed simp

text \<open>Texts with a tilde for the quotation mark.\<close>

definition dq :: "string \<Rightarrow> string" where
  "dq s = map (\<lambda>c. if c = CHR 0x7E then CHR 0x22 else c) s"

end
