(* ===== verification/StreamChunk.thy ===== *)
theory StreamChunk
  imports JsonProbe JsonEval
begin

text \<open>
  \<open>internal/convert/sse.go\<close>: the SSE frames of a completion stream and the clean-up of one upstream
  chunk.

  The environment value is that of \<open>REASONING_IN_CONTENT\<close>; \<open>now\<close> is the clock in seconds and \<open>rnd\<close> the
  hexadecimal text drawn for a missing id.  A chunk that is dropped is \<open>None\<close>.  A Go map that is built
  anew gets its keys in the order of the writes.
\<close>

subsection \<open>Frames\<close>

definition data_prefix :: string where "data_prefix = ''data:''"

definition encode_sse :: "string \<Rightarrow> string" where
  "encode_sse data = ''data: '' @ data @ [CHR 0x0A, CHR 0x0A]"

definition done_frame :: string where
  "done_frame = ''data: [DONE]'' @ [CHR 0x0A, CHR 0x0A]"

definition error_chunk :: "(rat \<Rightarrow> string) \<Rightarrow> string \<Rightarrow> string \<Rightarrow> string" where
  "error_chunk fmt message code = encode_sse (go_marshal fmt (JObj [(''error'',
     JObj ([(''message'', JStr message), (''type'', JStr ''upstream_error'')] @ (if code \<noteq> [] then [(''code'', JStr code)] else [])))]))"

definition parse_sse_data :: "string \<Rightarrow> string option" where
  "parse_sse_data line = (let s = strings_trim line in
     if s = [] \<or> hd s = CHR 0x3A then None
     else if starts data_prefix s then (let d = strings_trim (drop 5 s) in if d = [] then None else Some d)
     else if hd s = CHR 0x7B then Some s else None)"

subsection \<open>The clean-up\<close>

definition nonempty_str :: "json option \<Rightarrow> string option" where
  "nonempty_str v = (case jstr v of Some s \<Rightarrow> if s = [] then None else Some s | None \<Rightarrow> None)"

definition positive_int :: "json option \<Rightarrow> int option" where
  "positive_int v = (case num_int64 v of Some n \<Rightarrow> if 0 < n then Some n else None | None \<Rightarrow> None)"

definition jint :: "int \<Rightarrow> json" where
  "jint n = JNum (of_int n)"

definition opt_member :: "string \<Rightarrow> json option \<Rightarrow> jmap" where
  "opt_member k v = (case v of Some x \<Rightarrow> [(k, x)] | None \<Rightarrow> [])"

definition default_member :: "string \<Rightarrow> json \<Rightarrow> jmap \<Rightarrow> jmap" where
  "default_member k v m = (if map_of m k = None then AList.update k v m else m)"

text \<open>\<open>fmt.Sprintf\<close> of an error that is neither an object nor a string is the parameter \<open>spr\<close>.\<close>

definition clean_error :: "(json \<Rightarrow> string) \<Rightarrow> json \<Rightarrow> json" where
  "clean_error spr e = (case e of
     JObj m \<Rightarrow> JObj (default_member ''type'' (JStr ''upstream_error'') (default_member ''message'' (JStr ''upstream error'') m))
   | JStr s \<Rightarrow> JObj [(''message'', JStr s), (''type'', JStr ''upstream_error'')]
   | v \<Rightarrow> JObj [(''message'', JStr (spr v)), (''type'', JStr ''upstream_error'')])"

definition sanitize_error :: "(json \<Rightarrow> string) \<Rightarrow> jmap \<Rightarrow> json \<Rightarrow> jmap" where
  "sanitize_error spr chunk e =
     opt_member ''id'' (map_option JStr (nonempty_str (map_of chunk ''id''))) @
     opt_member ''object'' (map_option JStr (nonempty_str (map_of chunk ''object''))) @
     opt_member ''created'' (map_option jint (positive_int (map_of chunk ''created''))) @
     opt_member ''model'' (map_option JStr (nonempty_str (map_of chunk ''model''))) @
     [(''error'', clean_error spr e)]"

definition or_str :: "string option \<Rightarrow> string \<Rightarrow> json" where
  "or_str v d = JStr (case v of Some s \<Rightarrow> s | None \<Rightarrow> d)"

definition objects_of :: "json option \<Rightarrow> jmap list" where
  "objects_of v = (case jarr v of Some vs \<Rightarrow> List.map_filter (\<lambda>x. jobj (Some x)) vs | None \<Rightarrow> [])"

definition choices_of :: "jmap \<Rightarrow> jmap list" where
  "choices_of chunk = objects_of (map_of chunk ''choices'')"

definition tool_calls_of :: "jmap \<Rightarrow> jmap list" where
  "tool_calls_of delta = objects_of (map_of delta ''tool_calls'')"

text \<open>The reasoning of a delta: that of \<open>reasoning_content\<close>, or that of \<open>reasoning\<close> if it is empty.\<close>

definition reasoning_of :: "jmap \<Rightarrow> string" where
  "reasoning_of delta = (let rc = str_at delta ''reasoning_content'' in if rc = [] then str_at delta ''reasoning'' else rc)"

definition clean_delta :: "string \<Rightarrow> jmap \<Rightarrow> jmap" where
  "clean_delta env delta = (let r = reasoning_of delta;
       d = AList.delete ''reasoning'' (AList.delete ''reasoning_content'' delta);
       d = (if r = [] then d else fold_reasoning env r (AList.update ''reasoning'' (JStr r) (AList.update ''reasoning_content'' (JStr r) d)))
     in if map_of d ''content'' = Some JNull then AList.delete ''content'' d else d)"

definition clean_choice :: "string \<Rightarrow> jmap \<Rightarrow> jmap" where
  "clean_choice env c = [
     (''index'', jint (case num_int64 (map_of c ''index'') of Some i \<Rightarrow> i | None \<Rightarrow> 0)),
     (''delta'', JObj (clean_delta env (map_at c ''delta''))),
     (''finish_reason'', (case map_of c ''finish_reason'' of Some v \<Rightarrow> v | None \<Rightarrow> JNull))] @
     opt_member ''logprobs'' (if is_nil (map_of c ''logprobs'') then None else map_of c ''logprobs'')"

definition sanitize_chunk :: "(json \<Rightarrow> string) \<Rightarrow> string \<Rightarrow> int \<Rightarrow> string \<Rightarrow> jmap \<Rightarrow> jmap option" where
  "sanitize_chunk spr env now rnd chunk = (if \<not> is_nil (map_of chunk ''error'')
     then Some (sanitize_error spr chunk (the (map_of chunk ''error'')))
     else let choices = map (\<lambda>c. JObj (clean_choice env c)) (choices_of chunk);
         usage = (if is_nil (map_of chunk ''usage'') then None else map_of chunk ''usage'') in
       if choices = [] \<and> usage = None then None
       else Some ([(''id'', or_str (nonempty_str (map_of chunk ''id'')) (''chatcmpl-'' @ rnd)),
          (''object'', or_str (nonempty_str (map_of chunk ''object'')) ''chat.completion.chunk''),
          (''created'', jint (case positive_int (map_of chunk ''created'') of Some n \<Rightarrow> n | None \<Rightarrow> now)),
          (''model'', or_str (jstr (map_of chunk ''model'')) []),
          (''choices'', JArr choices)] @
          opt_member ''system_fingerprint'' (map_option JStr (nonempty_str (map_of chunk ''system_fingerprint''))) @
          opt_member ''usage'' usage))"

subsection \<open>The fast path\<close>

text \<open>
  \<open>n == float64(int64(n))\<close> holds of the integers below \<open>2 ^ 63\<close>.  A number of the text is not rounded
  here: the code also takes a number that rounds to such an integer, and not the last ones below
  \<open>2 ^ 63\<close>, which round to \<open>2 ^ 63\<close>.
\<close>

definition is_json_integer :: "json option \<Rightarrow> bool" where
  "is_json_integer v = (case v of Some (JNum q) \<Rightarrow> of_int \<lfloor>q\<rfloor> = q \<and> of_int (float_int64 q) = q | _ \<Rightarrow> False)"

definition choice_needs :: "json \<Rightarrow> bool" where
  "choice_needs raw = (case raw of JObj c \<Rightarrow>
       \<not> is_json_integer (map_of c ''index'') \<or>
       (case jobj (map_of c ''delta'') of None \<Rightarrow> True
        | Some delta \<Rightarrow>
            map_of delta ''content'' = Some JNull \<or>
            (map_of delta ''reasoning_content'' \<noteq> None \<and> jstr (map_of delta ''reasoning_content'') = None) \<or>
            (map_of delta ''reasoning'' \<noteq> None \<and> jstr (map_of delta ''reasoning'') = None) \<or>
            ((map_of delta ''reasoning_content'' = None) \<noteq> (map_of delta ''reasoning'' = None))) \<or>
       map_of c ''finish_reason'' = None \<or> map_of c ''logprobs'' = Some JNull \<or>
       \<not> list_all (\<lambda>(k, v). k \<in> {''index'', ''delta'', ''finish_reason'', ''logprobs''}) c
     | _ \<Rightarrow> True)"

definition needs_sanitize :: "jmap \<Rightarrow> bool" where
  "needs_sanitize chunk \<longleftrightarrow>
     map_of chunk ''error'' \<noteq> None \<or> nonempty_str (map_of chunk ''id'') = None \<or>
     str_at chunk ''object'' \<noteq> ''chat.completion.chunk'' \<or>
     \<not> is_json_integer (map_of chunk ''created'') \<or> positive_int (map_of chunk ''created'') = None \<or>
     jstr (map_of chunk ''model'') = None \<or>
     (case jarr (map_of chunk ''choices'') of None \<Rightarrow> True
      | Some choices \<Rightarrow>
          map_of chunk ''usage'' = Some JNull \<or> (choices = [] \<and> map_of chunk ''usage'' = None) \<or>
          (map_of chunk ''system_fingerprint'' \<noteq> None \<and> nonempty_str (map_of chunk ''system_fingerprint'') = None) \<or>
          \<not> list_all (\<lambda>(k, v). k \<in> {''id'', ''object'', ''created'', ''model'', ''choices'', ''system_fingerprint'', ''usage''}) chunk \<or>
          list_ex choice_needs choices)"

text \<open>\<open>SanitizeChunk\<close>: the bytes to relay for one line, or \<open>None\<close> to drop it.\<close>

definition sanitize_line :: "(rat \<Rightarrow> string) \<Rightarrow> (json \<Rightarrow> string) \<Rightarrow> string \<Rightarrow> int \<Rightarrow> string \<Rightarrow> string \<Rightarrow> string option" where
  "sanitize_line fmt spr env now rnd line = (case parse_sse_data line of None \<Rightarrow> None
   | Some data \<Rightarrow> (case decode_object data of None \<Rightarrow> None
       | Some chunk \<Rightarrow> if fold_mode env = [] \<and> \<not> needs_sanitize chunk then Some data
           else map_option (\<lambda>m. go_marshal fmt (JObj m)) (sanitize_chunk spr env now rnd chunk)))"

subsection \<open>The pseudo call \<open>end_turn\<close>\<close>

definition call_name :: "json \<Rightarrow> string" where
  "call_name raw = (case raw of JObj tc \<Rightarrow> str_at (map_at tc ''function'') ''name'' | _ \<Rightarrow> [])"

definition filter_end_turn :: "json list \<Rightarrow> json list" where
  "filter_end_turn tcs = filter (\<lambda>raw. call_name raw \<noteq> ''end_turn'') tcs"

definition strip_calls :: "jmap \<Rightarrow> jmap \<times> bool" where
  "strip_calls d = (case jarr (map_of d ''tool_calls'') of
     None \<Rightarrow> (d, False)
   | Some tcs \<Rightarrow> (case filter_end_turn tcs of [] \<Rightarrow> (AList.delete ''tool_calls'' d, False)
       | ts \<Rightarrow> (AList.update ''tool_calls'' (JArr ts) d, True)))"

definition strip_member :: "string \<Rightarrow> jmap \<Rightarrow> jmap \<times> bool" where
  "strip_member k c = (case jobj (map_of c k) of None \<Rightarrow> (c, False)
     | Some d \<Rightarrow> (case strip_calls d of (d, kept) \<Rightarrow> (AList.update k (JObj d) c, kept)))"

text \<open>The loop over the choices: the stripped choices, whether calls remain, the last finish reason.\<close>

fun strip_choices :: "json list \<Rightarrow> bool \<Rightarrow> string \<Rightarrow> json list \<times> bool \<times> string" where
  "strip_choices [] kept fr = ([], kept, fr)"
| "strip_choices (JObj c # vs) kept fr = (let fr = (case jstr (map_of c ''finish_reason'') of Some s \<Rightarrow> s | None \<Rightarrow> fr);
       (c, d) = strip_member ''delta'' c; (c, m) = strip_member ''message'' c;
       (vs, kept, fr) = strip_choices vs (kept \<or> d \<or> m) fr
     in (JObj c # vs, kept, fr))"
| "strip_choices (v # vs) kept fr = (case strip_choices vs kept fr of (vs, kept, fr) \<Rightarrow> (v # vs, kept, fr))"

definition set_finish :: "string \<Rightarrow> json \<Rightarrow> json" where
  "set_finish fr v = (case v of JObj c \<Rightarrow> JObj (AList.update ''finish_reason'' (JStr fr) c) | _ \<Rightarrow> v)"

definition strip_end_turn :: "jmap \<Rightarrow> jmap \<times> bool \<times> string" where
  "strip_end_turn chunk = (case jarr (map_of chunk ''choices'') of None \<Rightarrow> (chunk, False, [])
     | Some vs \<Rightarrow> (case strip_choices vs False [] of (vs, kept, fr) \<Rightarrow>
         if \<not> kept \<and> fr = ''tool_calls'' then (AList.update ''choices'' (JArr (map (set_finish ''stop'') vs)) chunk, kept, ''stop'')
         else (AList.update ''choices'' (JArr vs) chunk, kept, fr)))"

subsection \<open>The fast path relays what the clean-up would write\<close>

text \<open>Two maps whose texts are the same.\<close>

definition same_text :: "jmap \<Rightarrow> jmap \<Rightarrow> bool" where
  "same_text m n \<longleftrightarrow> gomap m \<and> gomap n \<and> (\<forall>k. map_option key_sorted (map_of m k) = map_option key_sorted (map_of n k))"

lemma same_text_sorted:
  assumes "same_text m n"
  shows "key_sorted (JObj m) = key_sorted (JObj n)"
proof -
  let ?f = "\<lambda>m. map (\<lambda>(k, v). (k, key_sorted v)) m"
  have d: "distinct (map fst (?f m))" "distinct (map fst (?f n))"
    using assms by (simp_all add: same_text_def gomap_def comp_def split_def)
  have "map_of (?f m) = map_of (?f n)"
    by (rule ext) (use assms in \<open>simp add: same_text_def map_of_map\<close>)
  then have s: "set (?f m) = set (?f n)" using map_of_inject_set [OF d] by simp
  have "mset (?f m) = mset (?f n)"
    using d s by (meson distinct_map set_eq_iff_mset_eq_distinct)
  moreover have "inj_on fst (set (?f m))" using iffD1 [OF distinct_map d(1)] by blast
  moreover have "mset (sort_key fst (?f n)) = mset (?f n)" by simp
  ultimately have "sort_key fst (?f m) = sort_key fst (?f n)"
    by (intro sort_key_inj_key_eq) auto
  then show ?thesis by (simp add: sort_members_def)
qed

definition reasoning_agrees :: "jmap \<Rightarrow> bool" where
  "reasoning_agrees c \<longleftrightarrow> (let d = map_at c ''delta'' in
     map_of d ''reasoning_content'' = map_of d ''reasoning'' \<and> map_of d ''reasoning'' \<noteq> Some (JStr []))"

lemma clean_delta_same:
  assumes "gomap d" "map_of d ''content'' \<noteq> Some JNull" "fold_mode env = []"
    "map_of d ''reasoning_content'' = map_of d ''reasoning''"
    "map_of d ''reasoning'' = None \<or> (\<exists>s. map_of d ''reasoning'' = Some (JStr s) \<and> s \<noteq> [])"
  shows "gomap (clean_delta env d) \<and> map_of (clean_delta env d) = map_of d"
proof -
  have fold: "fold_reasoning env r x = x" for r x by (simp add: fold_reasoning_def assms(3))
  show ?thesis
  proof (cases "map_of d ''reasoning''")
    case None
    then have "reasoning_of d = []" using assms(4) by (simp add: reasoning_of_def str_at_def jstr_def)
    moreover have "map_of (AList.delete ''reasoning'' (AList.delete ''reasoning_content'' d)) = map_of d"
      using None assms(4) by (auto simp: map_of_delete)
    ultimately show ?thesis using assms(1,2) by (simp add: clean_delta_def gomap_delete)
  next
    case (Some v)
    then obtain s where v: "v = JStr s" "s \<noteq> []" using assms(5) by auto
    then have "reasoning_of d = s" using Some assms(4) by (simp add: reasoning_of_def str_at_def jstr_def)
    moreover have "map_of (AList.update ''reasoning'' (JStr s) (AList.update ''reasoning_content'' (JStr s)
        (AList.delete ''reasoning'' (AList.delete ''reasoning_content'' d)))) = map_of d"
      using Some assms(4) v by (auto simp: map_of_delete map_of_update)
    ultimately show ?thesis using assms(1,2) v by (simp add: clean_delta_def fold gomap_delete gomap_update)
  qed
qed

lemma map_of_outside: "list_all (\<lambda>(k, v). k \<in> K) m \<Longrightarrow> k \<notin> K \<Longrightarrow> map_of m k = None"
  by (force simp: list_all_iff map_of_eq_None_iff)

lemma integer_kept: "is_json_integer v \<Longrightarrow> \<exists>n. num_int64 v = Some n \<and> v = Some (jint n)"
  by (auto simp: is_json_integer_def num_int64_def jint_def split: option.splits json.splits)

lemma clean_choice_same:
  assumes "\<not> choice_needs (JObj c)" "spellable fmt (JObj c)" "fold_mode env = []" "reasoning_agrees c"
  shows "same_text (clean_choice env c) c"
proof -
  obtain d where d: "map_of c ''delta'' = Some (JObj d)"
    using assms(1) by (auto simp: choice_needs_def jobj_def split: option.splits json.splits)
  then have "map_at c ''delta'' = d" by (simp add: map_at_def jobj_def)
  have gd: "gomap d" using assms(2) map_of_SomeD [OF d] by (force simp: list_all_iff)
  have r: "map_of d ''reasoning'' = None \<or> (\<exists>s. map_of d ''reasoning'' = Some (JStr s) \<and> s \<noteq> [])"
    using assms(1,4) \<open>map_at c ''delta'' = d\<close>
    by (auto simp: choice_needs_def d jobj_def jstr_def reasoning_agrees_def split: option.splits json.splits)
  have same_d: "gomap (clean_delta env d)" "map_of (clean_delta env d) = map_of d"
    using clean_delta_same [OF gd _ assms(3) _ r] assms(1,4) \<open>map_at c ''delta'' = d\<close>
    by (auto simp: choice_needs_def d jobj_def reasoning_agrees_def)
  have kd: "key_sorted (JObj (clean_delta env d)) = key_sorted (JObj d)"
    by (rule same_text_sorted) (simp add: same_text_def same_d gd)
  obtain n where n: "num_int64 (map_of c ''index'') = Some n" "map_of c ''index'' = Some (jint n)"
    using assms(1) integer_kept by (fastforce simp: choice_needs_def)
  obtain f where f: "map_of c ''finish_reason'' = Some f" using assms(1) by (auto simp: choice_needs_def)
  have lp: "map_of c ''logprobs'' \<noteq> Some JNull" using assms(1) by (simp add: choice_needs_def)
  have out: "list_all (\<lambda>(k, v). k \<in> {''index'', ''delta'', ''finish_reason'', ''logprobs''}) c"
    using assms(1) by (simp add: choice_needs_def)
  have "map_option key_sorted (map_of (clean_choice env c) k) = map_option key_sorted (map_of c k)" for k
    using map_of_outside [OF out, of k] n d f lp kd \<open>map_at c ''delta'' = d\<close>
    by (cases "map_of c ''logprobs''") (auto simp: clean_choice_def opt_member_def is_nil_def jint_def)
  moreover have "gomap (clean_choice env c)" by (auto simp: clean_choice_def opt_member_def gomap_def split: option.splits)
  ultimately show ?thesis using assms(2) by (simp add: same_text_def)
qed

lemma objects_kept: "\<forall>v \<in> set vs. \<exists>c. v = JObj c \<Longrightarrow> map JObj (List.map_filter (\<lambda>x. jobj (Some x)) vs) = vs"
  by (induction vs) (auto simp: jobj_def List.map_filter_simps)

lemma choice_object: "\<not> choice_needs v \<Longrightarrow> \<exists>c. v = JObj c"
  by (cases v) (simp_all add: choice_needs_def)

lemma choices_kept:
  assumes "\<not> list_ex choice_needs vs"
  shows "map JObj (objects_of (Some (JArr vs))) = vs"
proof -
  have "\<forall>v \<in> set vs. \<exists>c. v = JObj c" using assms choice_object by (auto simp: list_ex_iff)
  then show ?thesis by (simp add: objects_of_def jarr_def objects_kept)
qed

lemma nonempty_str_kept: "nonempty_str v \<noteq> None \<Longrightarrow> \<exists>s. v = Some (JStr s) \<and> nonempty_str v = Some s"
  by (auto simp: nonempty_str_def jstr_def split: option.splits json.splits if_splits)

lemma clean_choices_same:
  assumes "\<not> list_ex choice_needs vs" "list_all (spellable fmt) vs" "fold_mode env = []"
    "list_all reasoning_agrees (objects_of (Some (JArr vs)))"
  shows "map (\<lambda>c. key_sorted (JObj (clean_choice env c))) (objects_of (Some (JArr vs))) = map key_sorted vs"
proof -
  let ?cs = "objects_of (Some (JArr vs))"
  have vs: "vs = map JObj ?cs" using choices_kept [OF assms(1)] by simp
  have "key_sorted (JObj (clean_choice env c)) = key_sorted (JObj c)" if "c \<in> set ?cs" for c
  proof -
    have "JObj c \<in> set vs" using that vs by (metis imageI set_map)
    then have "\<not> choice_needs (JObj c)" "spellable fmt (JObj c)" "reasoning_agrees c"
      using assms that by (auto simp: list_ex_iff list_all_iff simp del: spellable.simps)
    then show ?thesis using clean_choice_same assms(3) same_text_sorted by blast
  qed
  then have "map (\<lambda>c. key_sorted (JObj (clean_choice env c))) ?cs = map (\<lambda>c. key_sorted (JObj c)) ?cs" by simp
  also have "\<dots> = map key_sorted (map JObj ?cs)" by simp
  finally show ?thesis using vs by simp
qed

lemma sanitize_same:
  assumes ok: "spellable fmt (JObj m)" and n: "\<not> needs_sanitize m" and env: "fold_mode env = []"
    and agree: "list_all reasoning_agrees (choices_of m)"
  shows "\<exists>m'. sanitize_chunk spr env now rnd m = Some m' \<and> same_text m' m"
proof -
  obtain vs where vs: "map_of m ''choices'' = Some (JArr vs)"
    using n by (auto simp: needs_sanitize_def jarr_def split: option.splits json.splits)
  have co: "choices_of m = objects_of (Some (JArr vs))" by (simp add: choices_of_def vs)
  have sp: "list_all (spellable fmt) vs" using ok map_of_SomeD [OF vs] by (force simp: list_all_iff)
  have cn: "\<not> list_ex choice_needs vs" using n by (simp add: needs_sanitize_def vs jarr_def)
  have choices: "map (\<lambda>c. key_sorted (JObj (clean_choice env c))) (choices_of m) = map key_sorted vs"
    unfolding co using clean_choices_same [OF cn sp env] agree co by simp
  have empty: "choices_of m = [] \<longleftrightarrow> vs = []" using choices_kept [OF cn] co by (metis Nil_is_map_conv)
  have out: "list_all (\<lambda>(k, v). k \<in> {''id'', ''object'', ''created'', ''model'', ''choices'', ''system_fingerprint'', ''usage''}) m"
    using n by (simp add: needs_sanitize_def vs jarr_def)
  obtain i where i: "map_of m ''id'' = Some (JStr i)" "i \<noteq> []"
    using n by (auto simp: needs_sanitize_def nonempty_str_def jstr_def split: option.splits json.splits if_splits)
  have ob: "map_of m ''object'' = Some (JStr ''chat.completion.chunk'')"
    using n by (auto simp: needs_sanitize_def str_at_def jstr_def split: option.splits json.splits)
  have "is_json_integer (map_of m ''created'')" "positive_int (map_of m ''created'') \<noteq> None"
    using n by (simp_all add: needs_sanitize_def)
  then obtain c where c: "map_of m ''created'' = Some (jint c)" "positive_int (map_of m ''created'') = Some c"
    using integer_kept by (fastforce simp: positive_int_def split: if_splits)
  obtain mo where mo: "map_of m ''model'' = Some (JStr mo)"
    using n by (auto simp: needs_sanitize_def jstr_def split: option.splits json.splits)
  have us: "map_of m ''usage'' \<noteq> Some JNull" "vs = [] \<Longrightarrow> map_of m ''usage'' \<noteq> None"
    using n by (auto simp: needs_sanitize_def vs jarr_def)
  have fp: "map_of m ''system_fingerprint'' = map_option JStr (nonempty_str (map_of m ''system_fingerprint''))"
    using n by (auto simp: needs_sanitize_def vs jarr_def nonempty_str_def jstr_def split: option.splits json.splits if_splits)
  have er: "map_of m ''error'' = None" using n by (simp add: needs_sanitize_def)
  define u where "u = (if is_nil (map_of m ''usage'') then None else map_of m ''usage'')"
  have u: "u = map_of m ''usage''" using us(1) by (auto simp: u_def is_nil_def)
  define m' where "m' = [(''id'', or_str (nonempty_str (map_of m ''id'')) (''chatcmpl-'' @ rnd)),
          (''object'', or_str (nonempty_str (map_of m ''object'')) ''chat.completion.chunk''),
          (''created'', jint (case positive_int (map_of m ''created'') of Some n \<Rightarrow> n | None \<Rightarrow> now)),
          (''model'', or_str (jstr (map_of m ''model'')) []),
          (''choices'', JArr (map (\<lambda>c. JObj (clean_choice env c)) (choices_of m)))] @
          opt_member ''system_fingerprint'' (map_option JStr (nonempty_str (map_of m ''system_fingerprint''))) @
          opt_member ''usage'' u"
  have some: "sanitize_chunk spr env now rnd m = Some m'"
    using us empty by (auto simp: sanitize_chunk_def m'_def er is_nil_def u_def Let_def)
  have m'_eq: "m' = [(''id'', JStr i), (''object'', JStr ''chat.completion.chunk''), (''created'', jint c), (''model'', JStr mo),
      (''choices'', JArr (map (\<lambda>c. JObj (clean_choice env c)) (choices_of m)))] @
      opt_member ''system_fingerprint'' (map_of m ''system_fingerprint'') @ opt_member ''usage'' (map_of m ''usage'')"
    using i ob mo c(2) fp by (simp add: m'_def u or_str_def nonempty_str_def jstr_def)
  have "map_option key_sorted (map_of m' k) = map_option key_sorted (map_of m k)" for k
    using map_of_outside [OF out, of k] i(1) ob c(1) mo vs choices
    by (cases "map_of m ''system_fingerprint''"; cases "map_of m ''usage''")
      (auto simp: m'_eq opt_member_def comp_def)
  moreover have "gomap m'" by (auto simp: m'_eq opt_member_def gomap_def split: option.splits)
  ultimately show ?thesis using some ok by (auto simp: same_text_def)
qed

text \<open>
  C37: A chunk that takes the fast path of \<open>SanitizeChunk\<close> is relayed byte for byte, and when its two
  reasoning fields agree and are not empty, encoding its clean-up gives the text of the chunk itself, up
  to what any re-encoding does to it.
\<close>

theorem fast_path_is_sanitize:
  assumes "parse_sse_data line = Some data" "decode_object data = Some m" "spellable fmt (JObj m)"
    and "fold_mode env = []" "\<not> needs_sanitize m" "list_all reasoning_agrees (choices_of m)"
  shows "sanitize_line fmt spr env now rnd line = Some data \<and>
    map_option (\<lambda>c. go_marshal fmt (JObj c)) (sanitize_chunk spr env now rnd m) = Some (go_marshal fmt (JObj m))"
proof -
  obtain m' where "sanitize_chunk spr env now rnd m = Some m'" "key_sorted (JObj m') = key_sorted (JObj m)"
    using sanitize_same [OF assms(3,5,4,6)] same_text_sorted by metis
  then show ?thesis using assms by (simp add: sanitize_line_def go_marshal_def del: key_sorted.simps)
qed

definition native_text :: string where
  "native_text = dq ''{~id~:~c1~,~object~:~chat.completion.chunk~,~created~:5,~model~:~m~,~choices~:[{~index~:0,~delta~:{~content~:~hi~},~finish_reason~:null}]}''"

definition native_chunk :: jmap where
  "native_chunk = [(''id'', JStr ''c1''), (''object'', JStr ''chat.completion.chunk''), (''created'', jint 5), (''model'', JStr ''m''),
     (''choices'', JArr [JObj [(''index'', jint 0), (''delta'', JObj [(''content'', JStr ''hi'')]), (''finish_reason'', JNull)]])]"

lemma native_facts:
  "parse_sse_data (''data: '' @ native_text) = Some (native_text)" "decode_object (native_text) = Some native_chunk"
  "spellable fmt (JObj native_chunk)" "fold_mode [] = []" "\<not> needs_sanitize native_chunk" "list_all reasoning_agrees (choices_of native_chunk)"
  subgoal by code_simp
  subgoal by code_simp
  subgoal by (simp add: native_chunk_def jint_def exact_int_def gomap_def) code_simp
  subgoal by code_simp
  subgoal by code_simp
  subgoal by code_simp
  done

lemma fast_path_is_sanitize_witness:
  "sanitize_line (\<lambda>q. []) (\<lambda>v. []) [] 1 ''00'' (''data: '' @ native_text) = Some (native_text) \<and>
    map_option (\<lambda>c. go_marshal (\<lambda>q. []) (JObj c)) (sanitize_chunk (\<lambda>v. []) [] 1 ''00'' native_chunk) = Some (go_marshal (\<lambda>q. []) (JObj native_chunk))"
  by (rule fast_path_is_sanitize [OF native_facts])

text \<open>Reasoning fields that differ are relayed as they are, although the clean-up makes them one.\<close>

definition two_reasonings :: jmap where
  "two_reasonings = AList.update ''choices'' (JArr [JObj [(''index'', jint 0), (''delta'', JObj [(''reasoning'', JStr ''b''), (''reasoning_content'', JStr ''a'')]),
     (''finish_reason'', JNull)]]) native_chunk"

lemma fast_path_keeps_two_reasonings:
  "\<not> needs_sanitize two_reasonings \<and> map_option (\<lambda>c. go_marshal (\<lambda>q. []) (JObj c)) (sanitize_chunk (\<lambda>v. []) [] 1 ''00'' two_reasonings) \<noteq>
     Some (go_marshal (\<lambda>q. []) (JObj two_reasonings))"
  by code_simp

subsection \<open>The shape of a relayed chunk\<close>

definition delta_shape :: "jmap \<Rightarrow> bool" where
  "delta_shape d \<longleftrightarrow> map_of d ''content'' \<noteq> Some JNull \<and>
     (\<forall>k \<in> {''reasoning'', ''reasoning_content''}. map_of d k \<noteq> None \<longrightarrow> jstr (map_of d k) \<noteq> None) \<and>
     ((map_of d ''reasoning'' = None) = (map_of d ''reasoning_content'' = None))"

definition choice_shape :: "json \<Rightarrow> bool" where
  "choice_shape v \<longleftrightarrow> (case v of JObj c \<Rightarrow> num_int64 (map_of c ''index'') \<noteq> None \<and> map_of c ''finish_reason'' \<noteq> None \<and>
       map_of c ''logprobs'' \<noteq> Some JNull \<and> (case jobj (map_of c ''delta'') of Some d \<Rightarrow> delta_shape d | None \<Rightarrow> False)
     | _ \<Rightarrow> False)"

definition chunk_shape :: "jmap \<Rightarrow> bool" where
  "chunk_shape m \<longleftrightarrow> nonempty_str (map_of m ''id'') \<noteq> None \<and> nonempty_str (map_of m ''object'') \<noteq> None \<and>
     positive_int (map_of m ''created'') \<noteq> None \<and> jstr (map_of m ''model'') \<noteq> None \<and> map_of m ''usage'' \<noteq> Some JNull \<and>
     (case jarr (map_of m ''choices'') of Some vs \<Rightarrow> list_all choice_shape vs | None \<Rightarrow> False)"

definition relayed_chunk :: "(json \<Rightarrow> string) \<Rightarrow> string \<Rightarrow> int \<Rightarrow> string \<Rightarrow> jmap \<Rightarrow> jmap option" where
  "relayed_chunk spr env now rnd m = (if fold_mode env = [] \<and> \<not> needs_sanitize m then Some m else sanitize_chunk spr env now rnd m)"

lemma float_int64_of_int: "- (2 ^ 63) \<le> n \<Longrightarrow> n < 2 ^ 63 \<Longrightarrow> float_int64 (of_int n) = n"
  by (simp add: float_int64_def)

lemma float_int64_range: "- (2 ^ 63) \<le> float_int64 q \<and> float_int64 q < 2 ^ 63"
  by (simp add: float_int64_def Let_def)

lemma fold_reasoning_other: "k \<noteq> ''content'' \<Longrightarrow> map_of (fold_reasoning env r d) k = map_of d k"
  by (simp add: fold_reasoning_def Let_def map_of_update split: option.splits json.splits)

lemma clean_delta_shape: "delta_shape (clean_delta env d)"
proof -
  let ?b = "AList.delete ''reasoning'' (AList.delete ''reasoning_content'' d)"
  let ?r = "reasoning_of d"
  define e where "e = (if ?r = [] then ?b else fold_reasoning env ?r (AList.update ''reasoning'' (JStr ?r) (AList.update ''reasoning_content'' (JStr ?r) ?b)))"
  have "clean_delta env d = (if map_of e ''content'' = Some JNull then AList.delete ''content'' e else e)"
    by (simp add: clean_delta_def Let_def e_def)
  moreover have "map_of e k = (if ?r = [] then None else Some (JStr ?r))" if "k \<in> {''reasoning'', ''reasoning_content''}" for k
    using that by (auto simp: e_def fold_reasoning_other map_of_update map_of_delete)
  ultimately show ?thesis by (simp add: delta_shape_def map_of_delete jstr_def)
qed

lemma clean_choice_shape: "choice_shape (JObj (clean_choice env c))"
  using clean_delta_shape
  by (cases "map_of c ''logprobs''")
    (auto simp: choice_shape_def clean_choice_def jint_def num_int64_def jobj_def opt_member_def is_nil_def split: option.splits)

lemma sanitize_shape:
  assumes "sanitize_chunk spr env now rnd m = Some m'" "is_nil (map_of m ''error'')" "0 < now" "now < 2 ^ 63"
  shows "chunk_shape m'"
proof -
  have m': "m' = [(''id'', or_str (nonempty_str (map_of m ''id'')) (''chatcmpl-'' @ rnd)),
          (''object'', or_str (nonempty_str (map_of m ''object'')) ''chat.completion.chunk''),
          (''created'', jint (case positive_int (map_of m ''created'') of Some n \<Rightarrow> n | None \<Rightarrow> now)),
          (''model'', or_str (jstr (map_of m ''model'')) []),
          (''choices'', JArr (map (\<lambda>c. JObj (clean_choice env c)) (choices_of m)))] @
          opt_member ''system_fingerprint'' (map_option JStr (nonempty_str (map_of m ''system_fingerprint''))) @
          opt_member ''usage'' (if is_nil (map_of m ''usage'') then None else map_of m ''usage'')"
    using assms(1,2) by (auto simp: sanitize_chunk_def Let_def split: if_splits)
  have ne: "nonempty_str (Some (or_str (nonempty_str v) d)) \<noteq> None" if "d \<noteq> []" for v d
    using that by (auto simp: nonempty_str_def or_str_def jstr_def split: option.splits if_splits)
  have "positive_int (Some (jint (case positive_int v of Some n \<Rightarrow> n | None \<Rightarrow> now))) \<noteq> None" for v
  proof (cases "positive_int v")
    case None
    then show ?thesis using assms(3,4) float_int64_of_int [of now] by (simp add: positive_int_def num_int64_def jint_def)
  next
    case (Some n)
    then have "0 < n" "n < 2 ^ 63" using float_int64_range
      by (auto simp: positive_int_def num_int64_def split: option.splits json.splits if_splits)
    then show ?thesis using Some float_int64_of_int [of n] by (simp add: positive_int_def num_int64_def jint_def)
  qed
  then show ?thesis
    using ne clean_choice_shape
    by (auto simp: chunk_shape_def m' opt_member_def is_nil_def jarr_def list_all_iff or_str_def jstr_def split: option.splits)
qed

lemma choice_needs_shape: "\<not> choice_needs v \<Longrightarrow> choice_shape v"
  using integer_kept
  by (cases v) (auto simp: choice_needs_def choice_shape_def delta_shape_def split: option.splits)

lemma needs_shape: "\<not> needs_sanitize m \<Longrightarrow> chunk_shape m"
  using choice_needs_shape
  by (auto simp: needs_sanitize_def chunk_shape_def str_at_def nonempty_str_def list_ex_iff list_all_iff split: option.splits if_splits)

text \<open>
  C38: Whichever path \<open>SanitizeChunk\<close> takes, a chunk it relays that is not an error has an id, an object
  name, a positive time, a model and objects as choices; every choice has an index, a finish reason (maybe
  null) and a delta without a null content, whose two reasoning fields are both there or both absent.
\<close>

theorem relayed_chunk_has_shape:
  assumes "relayed_chunk spr env now rnd m = Some m'" "is_nil (map_of m ''error'')" "0 < now" "now < 2 ^ 63"
  shows "chunk_shape m'"
  using assms sanitize_shape needs_shape by (auto simp: relayed_chunk_def split: if_splits)

lemma relayed_chunk_has_shape_witness: "chunk_shape [(''id'', JStr ''chatcmpl-00''), (''object'', JStr ''chat.completion.chunk''), (''created'', jint 7), (''model'', JStr []),
     (''choices'', JArr [JObj [(''index'', jint 0), (''delta'', JObj [(''reasoning_content'', JStr ''t''), (''reasoning'', JStr ''t'')]), (''finish_reason'', JNull)]])]"
  by (rule relayed_chunk_has_shape [of "\<lambda>v. []" "[]" 7 "''00''"
    "[(''choices'', JArr [JObj [(''delta'', JObj [(''reasoning'', JStr ''t''), (''content'', JNull)])]])]"]) code_simp+

end
