(* ===== verification/StreamXml.thy ===== *)
theory StreamXml
  imports GoRegexp StreamChunk
begin

text \<open>
  \<open>internal/convert/accumulator_xml.go\<close>: tool calls written as XML or fenced JSON in the text of a
  completion, extracted from a whole text and from a stream of fragments.

  The text of the \<open>n\<close>-th \<open>randHex\<close> is \<open>rnd n\<close>; the number of draws is threaded through.
\<close>

record tool_call =
  tc_id :: string
  tc_type :: string
  tc_name :: string
  tc_args :: string

subsection \<open>Patterns\<close>

definition rx_spaces :: "char list" where
  "rx_spaces = [CHR 0x09, CHR 0x0A, CHR 0x0C, CHR 0x0D, CHR 0x20]"

definition pipe_tag :: "string \<Rightarrow> rx" where
  "pipe_tag w = rx_seq [Lit ''<'', Opt (Lit ''|''), Lit ''tool'', Opt (Cls ''_-''), Lit ''call'', Opt (Cls ''_-''), Lit w,
     Opt (Lit ''|''), Lit ''>'']"

definition between :: "rx \<Rightarrow> rx \<Rightarrow> rx" where
  "between a b = Seq a (Seq (Grp (Lazy AnyChar)) b)"

definition xml_tool_call_block_re :: rx where
  "xml_tool_call_block_re =
     Alt (between (Lit ''<tool_call>'') (Lit ''</tool_call>''))
    (Alt (between (Lit ''<codebuff_tool_call>'') (Lit ''</codebuff_tool_call>''))
    (Alt (between (Lit ''<function_call>'') (Lit ''</function_call>''))
         (between (pipe_tag ''start'') (pipe_tag ''end''))))"

definition ticks :: string where
  "ticks = [CHR 0x60, CHR 0x60, CHR 0x60]"

definition rx_space :: rx where
  "rx_space = Star (Cls rx_spaces)"

definition fenced_tool_call_re :: rx where
  "fenced_tool_call_re = rx_seq [Lit ticks, Opt (Alt (Lit ''json'') (rx_seq [Lit ''tool'', Opt (Lit ''_''), Lit ''call''])), rx_space,
     Opt (Lit [CHR 0x0A]),
     Grp (rx_seq [Lit ''{'', rx_space, Lit [CHR 0x22], Alt (Lit ''name'') (Lit ''function''), Lit [CHR 0x22], rx_space, Lit [CHR 0x3A],
       rx_space, Lazy AnyChar, Lit ''}'']),
     rx_space, Opt (Lit [CHR 0x0A]), Lit ticks]"

definition quote_opt :: rx where
  "quote_opt = Opt (Cls [CHR 0x22, CHR 0x27])"

definition name_group :: rx where
  "name_group = Grp (Plus (NotCls (CHR 0x3E # CHR 0x22 # rx_spaces)))"

definition tag_name :: rx where
  "tag_name = rx_seq [Plus (Cls (CHR 0x3D # rx_spaces)), quote_opt, name_group, quote_opt, Lit ''>'']"

definition xml_function_head_re :: rx where
  "xml_function_head_re = Seq (LitFold ''<function'') tag_name"

definition xml_param_re :: rx where
  "xml_param_re =
     Alt (rx_seq [Lit ''<parameter'', tag_name, Grp (Lazy AnyChar), Lit ''</parameter>''])
         (rx_seq [Lit ''<param'', tag_name, Grp (Lazy AnyChar), Lit ''</param>''])"

text \<open>Without regard to case \<open>s\<close> is also U+017F, the only other spelling of a letter of these tags.\<close>

definition fold_s :: rx where
  "fold_s = Alt (LitFold ''s'') (Lit [CHR 0xC5, CHR 0xBF])"

definition dangling_tool_tags_re :: rx where
  "dangling_tool_tags_re = rx_seq [Lit ''<'', Opt (Lit ''/''),
     Alt (LitFold ''tool_call'') (Alt (LitFold ''codebuff_tool_call'') (Alt (LitFold ''function_call'') (Alt (LitFold ''function'')
       (Alt (LitFold ''parameter'') (Alt (LitFold ''param'')
         (rx_seq [Opt (Lit ''|''), LitFold ''tool'', Opt (Cls ''_-''), LitFold ''call'', Opt (Cls ''_-''),
            Alt (Seq fold_s (LitFold ''tart'')) (LitFold ''end''), Opt (Lit ''|'')])))))),
     Opt (Seq (Cls (CHR 0x3D # rx_spaces)) (Star (NotCls ''>''))), Lit ''>'']"

subsection \<open>One call\<close>

definition json_call :: "(rat \<Rightarrow> string) \<Rightarrow> string \<Rightarrow> (string \<times> string) option" where
  "json_call fmt raw = (if \<not> (starts ''{'' raw \<and> ends ''}'' raw) then None
     else case decode_object raw of None \<Rightarrow> None
     | Some m \<Rightarrow> (let name = (if str_at m ''name'' \<noteq> [] then str_at m ''name''
           else case map_of m ''function'' of Some (JObj f) \<Rightarrow> str_at f ''name'' | _ \<Rightarrow> str_at m ''function'') in
         if name = [] then None
         else Some (name, case map_of m ''arguments'' of
             Some (JObj a) \<Rightarrow> go_marshal fmt (JObj a) | Some (JStr s) \<Rightarrow> s | _ \<Rightarrow> ''{}'')))"

definition param_args :: "string list list \<Rightarrow> jmap" where
  "param_args ms = foldl (\<lambda>m c. case c of k # v # _ \<Rightarrow> AList.update (strings_trim k) (JStr (strings_trim v)) m | _ \<Rightarrow> m) [] ms"

definition xml_call :: "(rat \<Rightarrow> string) \<Rightarrow> string \<Rightarrow> (string \<times> string) option" where
  "xml_call fmt raw = (case rx_find xml_function_head_re raw of
     Some (a, name # _, t) \<Rightarrow> Some (strings_trim name, go_marshal fmt (JObj (param_args (find_all xml_param_re raw))))
   | _ \<Rightarrow> None)"

definition parse_tool_call_raw :: "(rat \<Rightarrow> string) \<Rightarrow> string \<Rightarrow> (string \<times> string) option" where
  "parse_tool_call_raw fmt raw = (case json_call fmt raw of Some x \<Rightarrow> Some x | None \<Rightarrow> xml_call fmt raw)"

text \<open>The parsed calls get an id each.\<close>

definition number_call :: "(nat \<Rightarrow> string) \<Rightarrow> nat \<Rightarrow> string \<times> string \<Rightarrow> tool_call" where
  "number_call rnd n na = \<lparr>tc_id = ''call_'' @ rnd n, tc_type = ''function'', tc_name = fst na, tc_args = snd na\<rparr>"

definition parse_raws :: "(rat \<Rightarrow> string) \<Rightarrow> string list \<Rightarrow> (string \<times> string) list" where
  "parse_raws fmt raws = List.map_filter (\<lambda>raw. parse_tool_call_raw fmt raw) raws"

definition block_payloads :: "string list list \<Rightarrow> string list" where
  "block_payloads ms = filter (\<lambda>r. r \<noteq> []) (map (\<lambda>c. strings_trim (case c of g # _ \<Rightarrow> g | [] \<Rightarrow> [])) ms)"

definition raw_calls :: "(rat \<Rightarrow> string) \<Rightarrow> string \<Rightarrow> (string \<times> string) list" where
  "raw_calls fmt content = (let calls = parse_raws fmt (block_payloads (find_all xml_tool_call_block_re content)) in
     if calls \<noteq> [] then calls
     else parse_raws fmt (map (\<lambda>c. strings_trim (hd c)) (filter (\<lambda>c. c \<noteq> [] \<and> hd c \<noteq> []) (find_all fenced_tool_call_re content))))"

definition extract_xml_tool_calls :: "(rat \<Rightarrow> string) \<Rightarrow> (nat \<Rightarrow> string) \<Rightarrow> nat \<Rightarrow> string \<Rightarrow> string \<times> tool_call list \<times> nat" where
  "extract_xml_tool_calls fmt rnd n content = (let calls = raw_calls fmt content in
     if calls = [] then (content, [], n)
        else (strings_trim (remove_all fenced_tool_call_re (remove_all xml_tool_call_block_re content)),
          map2 (number_call rnd) [n ..< n + length calls] calls, n + length calls))"

subsection \<open>The stream extractor\<close>

datatype xml_shape = ShapeNone | ShapeToolCall | ShapeCodebuff | ShapeFunctionCall | ShapePipe | ShapeFence

text \<open>\<open>xe_brace\<close> is the index past the brace of a fence, or -1 while the brace is awaited.\<close>

record extractor =
  xe_buf :: string
  xe_shape :: xml_shape
  xe_brace :: int

definition new_extractor :: extractor where
  "new_extractor = \<lparr>xe_buf = [], xe_shape = ShapeNone, xe_brace = 0\<rparr>"

definition max_stream_xml_buffer :: nat where "max_stream_xml_buffer = 64 * 1024"

definition xml_stream_openers :: "(xml_shape \<times> string) list" where
  "xml_stream_openers = [(ShapeToolCall, ''<tool_call>''), (ShapeCodebuff, ''<codebuff_tool_call>''), (ShapeFunctionCall, ''<function_call>'')]"

definition xml_stream_closers :: "(xml_shape \<times> string) list" where
  "xml_stream_closers = [(ShapeToolCall, ''</tool_call>''), (ShapeCodebuff, ''</codebuff_tool_call>''), (ShapeFunctionCall, ''</function_call>'')]"

fun str_index :: "string \<Rightarrow> string \<Rightarrow> nat option" where
  "str_index p [] = (if p = [] then Some 0 else None)"
| "str_index p (c # cs) = (if starts p (c # cs) then Some 0 else map_option Suc (str_index p cs))"

definition fence_tag_char :: "char \<Rightarrow> bool" where
  "fence_tag_char c \<longleftrightarrow> byte c \<in> {45, 95} \<or> 97 \<le> byte c \<and> byte c \<le> 122 \<or> 65 \<le> byte c \<and> byte c \<le> 90"

definition after_fence_tag :: "string \<Rightarrow> string" where
  "after_fence_tag t = dropWhile is_space (dropWhile fence_tag_char t)"

definition xml_stream_fence_brace :: "string \<Rightarrow> nat \<Rightarrow> nat option" where
  "xml_stream_fence_brace s from = (let u = after_fence_tag (drop from s) in
     if length s \<le> from then None else if u \<noteq> [] \<and> hd u = CHR 0x7B then Some (length s - length u) else None)"

definition is_stream_fence_tag :: "string \<Rightarrow> bool" where
  "is_stream_fence_tag t \<longleftrightarrow> to_lower t \<in> {''json'', ''tool_call'', ''toolcall'', ''tool-call'', ''codebuff_tool_call'', ''codebuff-tool-call''}"

definition xml_stream_fence_pending :: "string \<Rightarrow> nat \<Rightarrow> bool" where
  "xml_stream_fence_pending s from \<longleftrightarrow> is_stream_fence_tag (takeWhile fence_tag_char (drop from s)) \<and> after_fence_tag (drop from s) = []"

text \<open>The earliest fence that opens a block, with the place of its brace if that is there.\<close>

function find_fence :: "nat \<Rightarrow> string \<Rightarrow> (nat \<times> nat option) option" where
  "find_fence pos s = (if length s \<le> pos then None else case str_index ticks (drop pos s) of
       None \<Rightarrow> None
     | Some j \<Rightarrow> (let i = j + pos in case xml_stream_fence_brace s (i + 3) of
           Some b \<Rightarrow> Some (i, Some b)
         | None \<Rightarrow> if xml_stream_fence_pending s (i + 3) then Some (i, None) else find_fence (i + 3) s))"
  by pat_completeness auto
termination
  by (relation "measure (\<lambda>(pos, s). length s - pos)") auto

declare find_fence.simps [simp del]

definition better :: "nat \<Rightarrow> nat option \<Rightarrow> bool" where
  "better i best \<longleftrightarrow> (case best of None \<Rightarrow> True | Some b \<Rightarrow> i < b)"

definition open_literal :: "string \<Rightarrow> nat option \<times> extractor \<Rightarrow> xml_shape \<times> string \<Rightarrow> nat option \<times> extractor" where
  "open_literal s bx so = (case str_index (snd so) s of
     Some i \<Rightarrow> if better i (fst bx) then (Some i, snd bx\<lparr>xe_shape := fst so\<rparr>) else bx
   | None \<Rightarrow> bx)"

definition open_pipe :: "string \<Rightarrow> nat option \<times> extractor \<Rightarrow> nat option \<times> extractor" where
  "open_pipe s bx = (case rx_find (pipe_tag ''start'') s of
     Some (a, _) \<Rightarrow> if better (length a) (fst bx) then (Some (length a), snd bx\<lparr>xe_shape := ShapePipe\<rparr>) else bx
   | None \<Rightarrow> bx)"

definition open_fence :: "string \<Rightarrow> nat option \<times> extractor \<Rightarrow> nat option \<times> extractor" where
  "open_fence s bx = (case find_fence 0 s of
     Some (i, b) \<Rightarrow> if better i (fst bx)
       then (Some i, snd bx\<lparr>xe_shape := ShapeFence, xe_brace := (case b of Some b \<Rightarrow> int b - int i + 1 | None \<Rightarrow> -1)\<rparr>) else bx
   | None \<Rightarrow> bx)"

text \<open>No two openers stand at one place, so the order in which Go visits the literal ones does not matter.\<close>

definition find_opener :: "string \<Rightarrow> extractor \<Rightarrow> nat option \<times> extractor" where
  "find_opener s x = open_fence s (open_pipe s (foldl (open_literal s) (None, x) xml_stream_openers))"

text \<open>The characters up to the closing fence outside a string, \<open>q\<close> telling whether inside one.\<close>

fun fence_close :: "bool \<Rightarrow> string \<Rightarrow> nat option" where
  "fence_close q [] = None"
| "fence_close True (c # cs) = (if c = CHR 0x5C then (case cs of [] \<Rightarrow> None | d # r \<Rightarrow> map_option (\<lambda>k. k + 2) (fence_close True r))
     else map_option Suc (fence_close (c \<noteq> CHR 0x22) cs))"
| "fence_close False (c # cs) = (if c = CHR 0x22 then map_option Suc (fence_close True cs)
     else if c = CHR 0x60 \<and> starts [CHR 0x60, CHR 0x60] cs then Some 3 else map_option Suc (fence_close False cs))"

definition xml_fence_close_end :: "string \<Rightarrow> nat \<Rightarrow> nat option" where
  "xml_fence_close_end s from = map_option (\<lambda>k. from + k) (fence_close False (drop from s))"

definition closer_end :: "extractor \<Rightarrow> nat option \<times> extractor" where
  "closer_end x = (case xe_shape x of
     ShapeNone \<Rightarrow> (None, x)
   | ShapePipe \<Rightarrow> (map_option (\<lambda>(a, c, t). length (xe_buf x) - length t) (rx_find (pipe_tag ''end'') (xe_buf x)), x)
   | ShapeFence \<Rightarrow>
       (if xe_brace x < 0 then (case xml_stream_fence_brace (xe_buf x) 3 of
            None \<Rightarrow> (None, x)
          | Some b \<Rightarrow> (xml_fence_close_end (xe_buf x) (b + 1), x\<lparr>xe_brace := int b + 1\<rparr>))
        else (xml_fence_close_end (xe_buf x) (nat (xe_brace x)), x))
   | sh \<Rightarrow> (case map_of xml_stream_closers sh of
       Some w \<Rightarrow> (map_option (\<lambda>i. i + length w) (str_index w (xe_buf x)), x)
     | None \<Rightarrow> (None, x)))"

definition absorb :: "extractor \<Rightarrow> string \<Rightarrow> (string \<times> extractor) option" where
  "absorb x rest = (if xe_buf x \<noteq> [] then Some ([], x\<lparr>xe_buf := xe_buf x @ rest\<rparr>)
     else case find_opener rest x of (None, _) \<Rightarrow> None
       | (Some i, x) \<Rightarrow> Some (take i rest, x\<lparr>xe_buf := drop i rest\<rparr>))"

definition close_block :: "extractor \<Rightarrow> extractor" where
  "close_block x = x\<lparr>xe_buf := [], xe_shape := ShapeNone\<rparr>"

subsection \<open>A block ends inside the buffer\<close>

lemma str_index_bound: "str_index p s = Some i \<Longrightarrow> i + length p \<le> length s"
proof (induction p s arbitrary: i rule: str_index.induct)
  case (2 p c cs)
  then show ?case
    by (auto simp: starts_def split: if_splits) (metis length_Cons length_take min.cobounded1)
qed (auto split: if_splits)

lemma starts_length: "starts p s \<Longrightarrow> length p \<le> length s"
  by (metis length_take min.cobounded1 starts_def)

lemma fence_close_bound: "fence_close q s = Some k \<Longrightarrow> 0 < k \<and> k \<le> length s"
proof (induction q s arbitrary: k rule: fence_close.induct)
  case (2 c cs)
  show ?case
  proof (cases "c = CHR 0x5C")
    case True
    then obtain d r j where "cs = d # r" "fence_close True r = Some j" "k = j + 2" using 2(3) by (cases cs) auto
    then show ?thesis using 2(1) [OF True] by fastforce
  next
    case False
    then obtain j where "fence_close (c \<noteq> CHR 0x22) cs = Some j" "k = Suc j" using 2(3) by auto
    then show ?thesis using 2(2) [OF False] by fastforce
  qed
next
  case (3 c cs)
  consider "c = CHR 0x22" | "c \<noteq> CHR 0x22" "c = CHR 0x60 \<and> starts [CHR 0x60, CHR 0x60] cs"
    | "c \<noteq> CHR 0x22" "\<not> (c = CHR 0x60 \<and> starts [CHR 0x60, CHR 0x60] cs)" by blast
  then show ?case
  proof cases
    case 1
    then obtain j where "fence_close True cs = Some j" "k = Suc j" using 3(3) by auto
    then show ?thesis using 3(1) [OF 1] by fastforce
  next
    case 2
    then have "k = 3" "2 \<le> length cs" using 3(3) starts_length [of "[CHR 0x60, CHR 0x60]" cs] by auto
    then show ?thesis by simp
  next
    case neither: 3
    then have "map_option Suc (fence_close False cs) = Some k" using 3(3) by (simp only: fence_close.simps if_False simp_thms)
    then obtain j where "fence_close False cs = Some j" "k = Suc j" by auto
    then show ?thesis using 3(2) [OF neither] by fastforce
  qed
qed simp

lemma pipe_tag_takes: "(c, t) \<in> set (rx_match (pipe_tag w) s) \<Longrightarrow> length t < length s"
proof -
  assume m: "(c, t) \<in> set (rx_match (pipe_tag w) s)"
  obtain q where q: "pipe_tag w = Seq (Lit ''<'') q" by (simp add: pipe_tag_def rx_seq_def)
  have "rx_match (pipe_tag w) s = (if starts ''<'' s then rx_match q (drop 1 s) else [])"
    by (simp add: q after_caps_def)
  then have s: "starts ''<'' s" "(c, t) \<in> set (rx_match q (drop 1 s))" using m by (simp_all split: if_splits)
  then have "suffix t (drop 1 s)" by (blast intro: match_suffix)
  moreover have "s \<noteq> []" using starts_length [OF s(1)] by auto
  ultimately show ?thesis by (cases s) (auto simp: suffix_def)
qed

lemma closer_end_bound:
  assumes "closer_end x = (Some e, x')"
  shows "0 < e \<and> e \<le> length (xe_buf x) \<and> xe_buf x' = xe_buf x"
proof (cases "xe_shape x")
  case ShapePipe
  then have "(map_option (\<lambda>(a, c, t). length (xe_buf x) - length t) (rx_find (pipe_tag ''end'') (xe_buf x)), x) = (Some e, x')"
    using assms by (simp only: closer_end_def xml_shape.case)
  then have m: "map_option (\<lambda>(a, c, t). length (xe_buf x) - length t) (rx_find (pipe_tag ''end'') (xe_buf x)) = Some e" "x' = x"
    by (metis prod.inject)+
  then obtain r where r: "rx_find (pipe_tag ''end'') (xe_buf x) = Some r" by blast
  obtain a c t where [simp]: "r = (a, c, t)" by (cases r)
  have f: "rx_find (pipe_tag ''end'') (xe_buf x) = Some (a, c, t)" "e = length (xe_buf x) - length t" "x' = x"
    using m r by simp_all
  then obtain b where "xe_buf x = a @ b @ t" "(c, t) \<in> set (rx_match (pipe_tag ''end'') (b @ t))" using find_parts by blast
  from pipe_tag_takes [OF this(2)] this(1)
  show ?thesis using f by simp
next
  case ShapeFence
  then obtain st where e: "xml_fence_close_end (xe_buf x) st = Some e" "xe_buf x' = xe_buf x"
  proof -
    assume that: "\<And>st. xml_fence_close_end (xe_buf x) st = Some e \<Longrightarrow> xe_buf x' = xe_buf x \<Longrightarrow> thesis"
    show thesis
    proof (cases "xe_brace x < 0")
      case False
      then have "(xml_fence_close_end (xe_buf x) (nat (xe_brace x)), x) = (Some e, x')"
        using assms ShapeFence by (simp only: closer_end_def xml_shape.case if_False)
      then show thesis using that by (metis prod.inject)
    next
      case True
      then obtain b where "xml_stream_fence_brace (xe_buf x) 3 = Some b"
        using assms ShapeFence by (cases "xml_stream_fence_brace (xe_buf x) 3") (simp_all add: closer_end_def)
      then have "(xml_fence_close_end (xe_buf x) (b + 1), x\<lparr>xe_brace := int b + 1\<rparr>) = (Some e, x')"
        using assms ShapeFence True by (simp only: closer_end_def xml_shape.case if_True option.case)
      then show thesis using that by (metis extractor.select_convs(1) extractor.surjective extractor.update_convs(3) prod.inject)
    qed
  qed
  then obtain k where "fence_close False (drop st (xe_buf x)) = Some k" "e = st + k"
    by (auto simp: xml_fence_close_end_def)
  moreover from this have "0 < k" "k \<le> length (xe_buf x) - st" using fence_close_bound [of False "drop st (xe_buf x)" k] by simp_all
  ultimately show ?thesis using e(2) by (simp; linarith)
qed (use assms in \<open>auto simp: closer_end_def xml_stream_closers_def dest!: str_index_bound split: if_splits\<close>)

lemma closer_end_buf: "closer_end x = (eo, x') \<Longrightarrow> eo = None \<Longrightarrow> xe_buf x' = xe_buf x"
  by (auto simp: closer_end_def split: xml_shape.splits if_splits option.splits)

subsection \<open>Feed and Flush\<close>

lemma absorb_length:
  assumes "absorb x rest = Some (t, y)"
  shows "length t + length (xe_buf y) = length (xe_buf x) + length rest"
proof (cases "xe_buf x = []")
  case False
  then show ?thesis using assms by (auto simp: absorb_def)
next
  case True
  obtain b z where f: "find_opener rest x = (b, z)" by fastforce
  then show ?thesis using assms True by (cases b) (auto simp: absorb_def)
qed

lemma feed_decreases:
  assumes "absorb x rest = Some (t, y)" "closer_end y = (Some e, y')"
  shows "length (xe_buf (close_block y')) + length (drop e (xe_buf y')) < length (xe_buf x) + length rest"
proof -
  have "length (xe_buf y) \<le> length (xe_buf x) + length rest" "0 < e" "e \<le> length (xe_buf y)" "xe_buf y' = xe_buf y"
    using absorb_length [OF assms(1)] closer_end_bound [OF assms(2)] by simp_all
  then show ?thesis unfolding close_block_def by (simp; linarith)
qed

text \<open>The loop of \<open>Feed\<close>: the text to relay, the calls, the extractor and the number of ids drawn.\<close>

function feed_loop :: "(rat \<Rightarrow> string) \<Rightarrow> (nat \<Rightarrow> string) \<Rightarrow> nat \<Rightarrow> extractor \<Rightarrow> string \<Rightarrow> string \<times> tool_call list \<times> extractor \<times> nat" where
  "feed_loop fmt rnd n x rest = (case absorb x rest of
     None \<Rightarrow> (rest, [], x, n)
   | Some (t, y) \<Rightarrow> (case closer_end y of
       (Some e, y) \<Rightarrow> (case extract_xml_tool_calls fmt rnd n (take e (xe_buf y)) of (cleaned, calls, n) \<Rightarrow>
           (case feed_loop fmt rnd n (close_block y) (drop e (xe_buf y)) of (t', calls', z, n) \<Rightarrow>
             (t @ (if calls = [] then take e (xe_buf y) else []) @ t', calls @ calls', z, n)))
     | (None, y) \<Rightarrow> (if max_stream_xml_buffer < length (xe_buf y) then (t @ xe_buf y, [], close_block y, n) else (t, [], y, n))))"
  by pat_completeness auto
termination
proof (relation "measure (\<lambda>(fmt, rnd, n, x, rest). length (xe_buf x) + length rest)")
  show "wf (measure (\<lambda>(fmt, rnd, n, x, rest). length (xe_buf x) + length rest))" by simp
qed (use feed_decreases in fastforce)

declare feed_loop.simps [simp del]

definition feed :: "(rat \<Rightarrow> string) \<Rightarrow> (nat \<Rightarrow> string) \<Rightarrow> nat \<Rightarrow> extractor \<Rightarrow> string \<Rightarrow> string \<times> tool_call list \<times> extractor \<times> nat" where
  "feed fmt rnd n x fragment = (if xe_buf x = [] \<and> fst (find_opener fragment x) = None then (fragment, [], x, n)
     else feed_loop fmt rnd n x fragment)"

definition flush :: "(rat \<Rightarrow> string) \<Rightarrow> (nat \<Rightarrow> string) \<Rightarrow> nat \<Rightarrow> extractor \<Rightarrow> string \<times> tool_call list \<times> extractor \<times> nat" where
  "flush fmt rnd n x = (if xe_buf x = [] then ([], [], x, n)
     else case extract_xml_tool_calls fmt rnd n (xe_buf x) of (cleaned, calls, n) \<Rightarrow>
       (if calls \<noteq> [] then (cleaned, calls, close_block x, n) else (remove_all dangling_tool_tags_re cleaned, [], close_block x, n)))"

definition tool_call_delta_fragment :: "int \<Rightarrow> tool_call \<Rightarrow> json" where
  "tool_call_delta_fragment i tc = JObj [(''index'', jint i), (''id'', JStr (tc_id tc)), (''type'', JStr (tc_type tc)),
     (''function'', JObj [(''name'', JStr (tc_name tc)), (''arguments'', JStr (tc_args tc))])]"

text \<open>The fragments of a stream in order.\<close>

fun feed_all :: "(rat \<Rightarrow> string) \<Rightarrow> (nat \<Rightarrow> string) \<Rightarrow> nat \<Rightarrow> extractor \<Rightarrow> string list \<Rightarrow> string \<times> tool_call list \<times> extractor \<times> nat" where
  "feed_all fmt rnd n x [] = ([], [], x, n)"
| "feed_all fmt rnd n x (f # fs) = (case feed fmt rnd n x f of (t, cs, x, n) \<Rightarrow>
     (case feed_all fmt rnd n x fs of (t', cs', x, n) \<Rightarrow> (t @ t', cs @ cs', x, n)))"

subsection \<open>Every byte is accounted for\<close>

text \<open>The pieces of a stream: text that is relayed, and blocks that are replaced by their calls.\<close>

datatype piece = Relayed string | Block string

fun piece_bytes :: "piece \<Rightarrow> string" where
  "piece_bytes (Relayed s) = s"
| "piece_bytes (Block s) = s"

fun piece_text :: "piece \<Rightarrow> string" where
  "piece_text (Relayed s) = s"
| "piece_text (Block s) = []"

fun piece_calls :: "(rat \<Rightarrow> string) \<Rightarrow> piece \<Rightarrow> (string \<times> string) list" where
  "piece_calls fmt (Relayed s) = []"
| "piece_calls fmt (Block s) = raw_calls fmt s"

definition explains :: "(rat \<Rightarrow> string) \<Rightarrow> piece list \<Rightarrow> string \<Rightarrow> string \<Rightarrow> tool_call list \<Rightarrow> bool" where
  "explains fmt ps input text calls \<longleftrightarrow> input = concat (map piece_bytes ps) \<and> text = concat (map piece_text ps) \<and>
     map (\<lambda>c. (tc_name c, tc_args c)) calls = concat (map (piece_calls fmt) ps) \<and>
     (\<forall>s. Block s \<in> set ps \<longrightarrow> raw_calls fmt s \<noteq> [])"

lemma explains_nil: "explains fmt [] [] [] []"
  by (simp add: explains_def)

lemma explains_append: "explains fmt ps a t cs \<Longrightarrow> explains fmt qs b u ds \<Longrightarrow> explains fmt (ps @ qs) (a @ b) (t @ u) (cs @ ds)"
  by (auto simp: explains_def)

lemma explains_text: "explains fmt [Relayed s] s s []"
  by (simp add: explains_def)

lemma extract_calls:
  assumes "extract_xml_tool_calls fmt rnd n s = (cleaned, calls, n')"
  shows "map (\<lambda>c. (tc_name c, tc_args c)) calls = raw_calls fmt s" "calls = [] \<longleftrightarrow> raw_calls fmt s = []"
proof -
  have "map (\<lambda>c. (tc_name c, tc_args c)) (map2 (number_call rnd) [n ..< n + length cs] cs) = cs" for n cs
    by (rule nth_equalityI) (simp_all add: number_call_def)
  then show "map (\<lambda>c. (tc_name c, tc_args c)) calls = raw_calls fmt s"
    using assms by (auto simp: extract_xml_tool_calls_def Let_def split: if_splits)
  then show "calls = [] \<longleftrightarrow> raw_calls fmt s = []" by auto
qed

lemma explains_block:
  assumes "extract_xml_tool_calls fmt rnd n s = (cleaned, calls, n')"
  shows "\<exists>ps. explains fmt ps s (if calls = [] then s else []) calls"
proof (cases "calls = []")
  case True
  then show ?thesis using explains_text by auto
next
  case False
  then have "explains fmt [Block s] s [] calls" using extract_calls [OF assms] by (simp add: explains_def)
  then show ?thesis using False by auto
qed

lemma absorb_parts:
  assumes "absorb x rest = Some (t, y)"
  shows "xe_buf x @ rest = t @ xe_buf y"
proof (cases "xe_buf x = []")
  case False
  then show ?thesis using assms by (auto simp: absorb_def)
next
  case True
  obtain b z where f: "find_opener rest x = (b, z)" by fastforce
  then show ?thesis using assms True by (cases b) (auto simp: absorb_def)
qed

lemma absorb_none: "absorb x rest = None \<Longrightarrow> xe_buf x = []"
  by (simp add: absorb_def split: if_splits)

lemma feed_loop_explained:
  assumes "feed_loop fmt rnd n x rest = (t, cs, z, n')"
  shows "(\<exists>ps u. explains fmt ps u t cs \<and> xe_buf x @ rest = u @ xe_buf z) \<and> length (xe_buf z) \<le> max_stream_xml_buffer"
  using assms
proof (induction fmt rnd n x rest arbitrary: t cs z n' rule: feed_loop.induct)
  case (1 fmt rnd n x rest)
  show ?case
  proof (cases "absorb x rest")
    case None
    then have "t = rest" "cs = []" "z = x" using 1(2) by (simp_all add: feed_loop.simps [of _ _ _ x])
    then show ?thesis using absorb_none [OF None] explains_text [of fmt rest] by (auto simp: max_stream_xml_buffer_def)
  next
    case (Some ty)
    obtain t0 y where ty: "ty = (t0, y)" by (cases ty)
    have parts: "xe_buf x @ rest = t0 @ xe_buf y" using absorb_parts Some ty by simp
    obtain eo y' where ce: "closer_end y = (eo, y')" by fastforce
    show ?thesis
    proof (cases eo)
      case None
      have buf: "xe_buf y' = xe_buf y" using ce None by (rule closer_end_buf)
      show ?thesis
      proof (cases "max_stream_xml_buffer < length (xe_buf y)")
        case True
        then have "t = t0 @ xe_buf y" "cs = []" "xe_buf z = []"
          using 1(2) Some ty ce None buf by (simp_all add: feed_loop.simps [of _ _ _ x] close_block_def) auto
        then show ?thesis using parts explains_text [of fmt "t0 @ xe_buf y"] by auto
      next
        case False
        then have "t = t0" "cs = []" "z = y'"
          using 1(2) Some ty ce None buf by (simp_all add: feed_loop.simps [of _ _ _ x])
        then show ?thesis using parts explains_text [of fmt t0] False buf by auto
      qed
    next
      case e: (Some e)
      have b: "0 < e" "e \<le> length (xe_buf y)" "xe_buf y' = xe_buf y" using closer_end_bound ce e by auto
      obtain cl calls k where ex: "extract_xml_tool_calls fmt rnd n (take e (xe_buf y')) = (cl, calls, k)" by (metis prod_cases3)
      obtain t1 cs1 z1 n1 where r: "feed_loop fmt rnd k (close_block y') (drop e (xe_buf y')) = (t1, cs1, z1, n1)" by (metis prod_cases4)
      have res: "t = t0 @ (if calls = [] then take e (xe_buf y') else []) @ t1" "cs = calls @ cs1" "z = z1"
        using 1(2) Some ty ce e ex r by (simp_all add: feed_loop.simps [of _ _ _ x])
      have IH: "(\<exists>ps u. explains fmt ps u t1 cs1 \<and> drop e (xe_buf y') = u @ xe_buf z1) \<and> length (xe_buf z1) \<le> max_stream_xml_buffer"
        using 1(1) [OF Some [unfolded ty] refl ce [symmetric] e ex [symmetric] refl r] by (simp add: close_block_def)
      then obtain ps u where u: "explains fmt ps u t1 cs1" "drop e (xe_buf y') = u @ xe_buf z1" by blast
      obtain qs where qs: "explains fmt qs (take e (xe_buf y')) (if calls = [] then take e (xe_buf y') else []) calls"
        using explains_block [OF ex] by blast
      have "explains fmt ([Relayed t0] @ qs @ ps) (t0 @ take e (xe_buf y') @ u) t cs"
        using explains_append [OF explains_text explains_append [OF qs u(1)], of t0] res by simp
      moreover have "xe_buf x @ rest = (t0 @ take e (xe_buf y') @ u) @ xe_buf z"
        using parts b(3) u(2) res(3) by (metis append.assoc append_take_drop_id)
      ultimately show ?thesis using IH res(3) by blast
    qed
  qed
qed

lemma feed_explained:
  assumes "feed fmt rnd n x f = (t, cs, z, n')"
  shows "(\<exists>ps u. explains fmt ps u t cs \<and> xe_buf x @ f = u @ xe_buf z) \<and> length (xe_buf z) \<le> max_stream_xml_buffer"
proof (cases "xe_buf x = [] \<and> fst (find_opener f x) = None")
  case True
  then have "t = f" "cs = []" "z = x" using assms by (simp_all add: feed_def)
  then show ?thesis using True explains_text [of fmt f] by (auto simp: max_stream_xml_buffer_def)
next
  case False
  then have "feed_loop fmt rnd n x f = (t, cs, z, n')" using assms by (simp only: feed_def if_False)
  then show ?thesis by (rule feed_loop_explained)
qed

lemma feed_all_explained:
  "feed_all fmt rnd n x fs = (t, cs, z, n') \<Longrightarrow> length (xe_buf x) \<le> max_stream_xml_buffer \<Longrightarrow>
    (\<exists>ps u. explains fmt ps u t cs \<and> xe_buf x @ concat fs = u @ xe_buf z) \<and> length (xe_buf z) \<le> max_stream_xml_buffer"
proof (induction fs arbitrary: n x t cs z n')
  case Nil
  then show ?case using explains_nil [of fmt] by auto
next
  case (Cons f fs)
  obtain t1 c1 y k where f: "feed fmt rnd n x f = (t1, c1, y, k)" by (metis prod_cases4)
  obtain t2 c2 w l where r: "feed_all fmt rnd k y fs = (t2, c2, w, l)" by (metis prod_cases4)
  have res: "t = t1 @ t2" "cs = c1 @ c2" "z = w" using Cons.prems(1) f r by simp_all
  obtain ps u where u: "explains fmt ps u t1 c1" "xe_buf x @ f = u @ xe_buf y" "length (xe_buf y) \<le> max_stream_xml_buffer"
    using feed_explained [OF f] by blast
  obtain qs v where v: "explains fmt qs v t2 c2" "xe_buf y @ concat fs = v @ xe_buf w" "length (xe_buf w) \<le> max_stream_xml_buffer"
    using Cons.IH [OF r u(3)] by blast
  have "xe_buf x @ concat (f # fs) = (u @ v) @ xe_buf z" using u(2) v(2) res(3) by (metis append.assoc concat.simps(2))
  then show ?case using explains_append [OF u(1) v(1)] v(3) res by blast
qed

text \<open>
  C39: Over any stream, the fragments fed so far are the texts relayed and the blocks replaced by calls, in
  order and without loss, followed by what the extractor still holds; the calls are those of these blocks,
  every one of which has a call, and at most 64 KiB are held.
\<close>

theorem stream_accounts_for_every_byte:
  "case feed_all fmt rnd n new_extractor fs of (text, calls, x, _) \<Rightarrow>
     (\<exists>ps u. explains fmt ps u text calls \<and> concat fs = u @ xe_buf x) \<and> length (xe_buf x) \<le> max_stream_xml_buffer"
proof -
  obtain t cs z k where r: "feed_all fmt rnd n new_extractor fs = (t, cs, z, k)" by (metis prod_cases4)
  have "xe_buf new_extractor = []" by (simp add: new_extractor_def)
  then show ?thesis using feed_all_explained [OF r] by (simp add: r)
qed

subsection \<open>Where the stream and the whole text differ\<close>

definition a_block :: string where
  "a_block = ''<tool_call><function=f></function></tool_call>''"

text \<open>An opener cut between two fragments is not seen, although the whole text has a call.\<close>

lemma split_opener_missed:
  "feed_all (\<lambda>q. []) (\<lambda>n. ''1'') 0 new_extractor [take 5 a_block, drop 5 a_block] = (a_block, [], new_extractor, 0) \<and>
   extract_xml_tool_calls (\<lambda>q. []) (\<lambda>n. ''1'') 0 a_block = ([], [\<lparr>tc_id = ''call_1'', tc_type = ''function'', tc_name = ''f'', tc_args = ''{}''\<rparr>], 1)"
  by code_simp

text \<open>A name in single quotes keeps the closing one.\<close>

lemma single_quote_kept:
  "xml_call (\<lambda>q. []) (''<function='' @ [CHR 0x27] @ ''bash'' @ [CHR 0x27] @ ''>'') = Some (''bash'' @ [CHR 0x27], ''{}'')"
  by code_simp

end
