(* ===== verification/Accumulate.thy ===== *)
theory Accumulate
  imports StreamXml
begin

text \<open>
  \<open>internal/convert/accumulator.go\<close>: a completion put together from the chunks of a stream.

  An error of \<open>Add\<close> is a value; the text of a JSON error is not modelled.  \<open>spr\<close> is \<open>fmt.Sprintf\<close> with
  the verb v and \<open>rnd\<close> the texts of \<open>randHex\<close>.  A tool call is a Go struct, so its members keep their order
  in the text, while those of a map are sorted.
\<close>

datatype acc_error = InvalidChunk | UpstreamError string

record accumulator =
  ac_id :: string
  ac_created :: int
  ac_model :: string
  ac_requested :: string
  ac_content :: "string list"
  ac_reasoning :: "string list"
  ac_finish :: string
  ac_usage :: "json option"
  ac_fingerprint :: string
  ac_calls :: "(int \<times> tool_call) list"
  ac_draws :: nat

definition new_accumulator :: "(nat \<Rightarrow> string) \<Rightarrow> nat \<Rightarrow> int \<Rightarrow> accumulator" where
  "new_accumulator rnd n now = \<lparr>ac_id = ''chatcmpl-'' @ rnd n, ac_created = now, ac_model = [], ac_requested = [], ac_content = [],
     ac_reasoning = [], ac_finish = [], ac_usage = None, ac_fingerprint = [], ac_calls = [], ac_draws = Suc n\<rparr>"

definition set_requested_model :: "string \<Rightarrow> accumulator \<Rightarrow> accumulator" where
  "set_requested_model m a = a\<lparr>ac_requested := m\<rparr>"

subsection \<open>Tool-call fragments\<close>

definition keep_new :: "string \<Rightarrow> string \<Rightarrow> string" where
  "keep_new old new = (if new = [] then old else new)"

definition fragment_index :: "jmap \<Rightarrow> int" where
  "fragment_index tc = (case num_int64 (map_of tc ''index'') of Some i \<Rightarrow> i | None \<Rightarrow> 0)"

definition merge_fragment :: "jmap \<Rightarrow> tool_call \<Rightarrow> tool_call" where
  "merge_fragment tc c = (let f = map_at tc ''function'' in
     \<lparr>tc_id = keep_new (tc_id c) (str_at tc ''id''), tc_type = keep_new (tc_type c) (str_at tc ''type''),
      tc_name = keep_new (tc_name c) (str_at f ''name''), tc_args = tc_args c @ str_at f ''arguments''\<rparr>)"

definition add_tool_call :: "(nat \<Rightarrow> string) \<Rightarrow> jmap \<Rightarrow> accumulator \<Rightarrow> accumulator" where
  "add_tool_call rnd tc a = (let i = fragment_index tc in
     case map_of (ac_calls a) i of
       Some c \<Rightarrow> a\<lparr>ac_calls := AList.update i (merge_fragment tc c) (ac_calls a)\<rparr>
     | None \<Rightarrow> a\<lparr>ac_calls := AList.update i (merge_fragment tc
           \<lparr>tc_id = ''call_'' @ rnd (ac_draws a), tc_type = ''function'', tc_name = [], tc_args = []\<rparr>) (ac_calls a),
         ac_draws := Suc (ac_draws a)\<rparr>)"

subsection \<open>Chunks\<close>

definition add_choice :: "(nat \<Rightarrow> string) \<Rightarrow> jmap \<Rightarrow> accumulator \<Rightarrow> accumulator" where
  "add_choice rnd c a = (let delta = map_at c ''delta'';
       a = (case jstr (map_of delta ''content'') of Some s \<Rightarrow> a\<lparr>ac_content := ac_content a @ [s]\<rparr> | None \<Rightarrow> a);
       r = reasoning_of delta;
       a = (if r \<noteq> [] then a\<lparr>ac_reasoning := ac_reasoning a @ [r]\<rparr> else a);
       a = foldl (\<lambda>a tc. add_tool_call rnd tc a) a (tool_calls_of delta)
     in a\<lparr>ac_finish := keep_new (ac_finish a) (str_at c ''finish_reason'')\<rparr>)"

definition accumulate :: "(nat \<Rightarrow> string) \<Rightarrow> jmap \<Rightarrow> accumulator \<Rightarrow> accumulator" where
  "accumulate rnd chunk a = (let
       a = a\<lparr>ac_id := keep_new (ac_id a) (str_at chunk ''id''),
             ac_created := (case positive_int (map_of chunk ''created'') of Some n \<Rightarrow> n | None \<Rightarrow> ac_created a),
             ac_model := keep_new (ac_model a) (str_at chunk ''model''),
             ac_usage := (if is_nil (map_of chunk ''usage'') then ac_usage a else map_of chunk ''usage''),
             ac_fingerprint := keep_new (ac_fingerprint a) (str_at chunk ''system_fingerprint'')\<rparr>
     in foldl (\<lambda>a c. add_choice rnd c a) a (choices_of chunk))"

text \<open>\<open>json.Unmarshal\<close> into a map also takes \<open>null\<close>.\<close>

definition decode_map :: "string \<Rightarrow> jmap option" where
  "decode_map data = (if json_parse data = Some JNull then Some [] else decode_object data)"

definition add_error :: "(json \<Rightarrow> string) \<Rightarrow> json \<Rightarrow> acc_error" where
  "add_error spr e = UpstreamError (case e of
       JObj m \<Rightarrow> if str_at m ''message'' \<noteq> [] then str_at m ''message'' else spr e
     | JStr s \<Rightarrow> if s \<noteq> [] then s else spr e
     | _ \<Rightarrow> spr e)"

definition acc_add :: "(json \<Rightarrow> string) \<Rightarrow> (nat \<Rightarrow> string) \<Rightarrow> string \<Rightarrow> accumulator \<Rightarrow> acc_error + accumulator" where
  "acc_add spr rnd line a = (case parse_sse_data line of
     None \<Rightarrow> Inr a
   | Some data \<Rightarrow> if data = ''[DONE]'' then Inr a else (case decode_map data of
       None \<Rightarrow> Inl InvalidChunk
     | Some chunk \<Rightarrow> if is_nil (map_of chunk ''error'') then Inr (accumulate rnd chunk a)
         else Inl (add_error spr (the (map_of chunk ''error'')))))"

subsection \<open>The completion\<close>

definition call_json :: "tool_call \<Rightarrow> json" where
  "call_json c = JObj [(''id'', JStr (tc_id c)), (''type'', JStr (tc_type c)),
     (''function'', JObj [(''name'', JStr (tc_name c)), (''arguments'', JStr (tc_args c))])]"

text \<open>The text with its reasoning folded in, the reasoning, the calls and the draws, after the extraction.\<close>

definition folded_content :: "string \<Rightarrow> accumulator \<Rightarrow> string" where
  "folded_content env a = (let t = fold_mode env; rc = concat (ac_reasoning a); content = concat (ac_content a) in
     if t \<noteq> [] \<and> rc \<noteq> [] then ''<'' @ t @ ''>'' @ rc @ ''</'' @ t @ ''>'' @ content else content)"

definition finish_calls :: "(rat \<Rightarrow> string) \<Rightarrow> (nat \<Rightarrow> string) \<Rightarrow> string \<Rightarrow> accumulator \<Rightarrow> string \<times> accumulator" where
  "finish_calls fmt rnd content a = (if ac_calls a \<noteq> [] then (content, a) else
     case extract_xml_tool_calls fmt rnd (ac_draws a) content of
       (content, calls, n) \<Rightarrow>
         if calls \<noteq> [] \<or> ac_reasoning a = [] then (content, a\<lparr>ac_calls := zip (map int [0 ..< length calls]) calls, ac_draws := n\<rparr>)
         else (case extract_xml_tool_calls fmt rnd n (concat (ac_reasoning a)) of
           (cleaned, calls, n) \<Rightarrow> (content, a\<lparr>ac_calls := zip (map int [0 ..< length calls]) calls, ac_draws := n,
               ac_reasoning := (if calls \<noteq> [] then [cleaned] else ac_reasoning a)\<rparr>)))"

definition finish_message :: "string \<Rightarrow> accumulator \<Rightarrow> json" where
  "finish_message content a = (let rc = concat (ac_reasoning a) in JObj (
     [(''content'', if ac_calls a \<noteq> [] \<and> content = [] then JNull else JStr content)] @
     (if rc \<noteq> [] then [(''reasoning_content'', JStr rc)] else []) @
     [(''refusal'', JNull), (''role'', JStr ''assistant'')] @
     (if ac_calls a \<noteq> [] then [(''tool_calls'', JArr (map (\<lambda>(i, c). call_json c) (sort_key fst (ac_calls a))))] else [])))"

definition zero_usage :: json where
  "zero_usage = JObj [(''completion_tokens'', jint 0), (''prompt_tokens'', jint 0), (''total_tokens'', jint 0)]"

definition finish_json :: "(rat \<Rightarrow> string) \<Rightarrow> (nat \<Rightarrow> string) \<Rightarrow> string \<Rightarrow> accumulator \<Rightarrow> json" where
  "finish_json fmt rnd env a = (case finish_calls fmt rnd (folded_content env a) a of (content, a) \<Rightarrow>
     let content = strings_trim (remove_all dangling_tool_tags_re content);
         fin = (if ac_finish a \<noteq> [] then ac_finish a else if ac_calls a \<noteq> [] then ''tool_calls'' else ''stop'')
     in JObj ([(''choices'', JArr [JObj [(''finish_reason'', JStr fin), (''index'', jint 0), (''logprobs'', JNull),
           (''message'', finish_message content a)]]),
         (''created'', jint (ac_created a)), (''id'', JStr (ac_id a)),
         (''model'', JStr (keep_new (ac_model a) (ac_requested a))), (''object'', JStr ''chat.completion'')] @
         (if ac_fingerprint a \<noteq> [] then [(''system_fingerprint'', JStr (ac_fingerprint a))] else []) @
         [(''usage'', case ac_usage a of Some u \<Rightarrow> key_sorted u | None \<Rightarrow> zero_usage)]))"

definition acc_finish :: "(rat \<Rightarrow> string) \<Rightarrow> (nat \<Rightarrow> string) \<Rightarrow> string \<Rightarrow> accumulator \<Rightarrow> string" where
  "acc_finish fmt rnd env a = show_json fmt (finish_json fmt rnd env a)"

subsection \<open>Fragments of one index\<close>

text \<open>The last text that is not empty.\<close>

definition last_text :: "string \<Rightarrow> string list \<Rightarrow> string" where
  "last_text d xs = last (d # filter (\<lambda>s. s \<noteq> []) xs)"

lemma last_text_snoc: "last_text d (xs @ [x]) = keep_new (last_text d xs) x"
  by (simp add: last_text_def keep_new_def)

definition fragments_at :: "int \<Rightarrow> jmap list \<Rightarrow> jmap list" where
  "fragments_at i tcs = filter (\<lambda>tc. fragment_index tc = i) tcs"

definition fun_text :: "string \<Rightarrow> jmap \<Rightarrow> string" where
  "fun_text k tc = str_at (map_at tc ''function'') k"

definition stitched :: "string \<Rightarrow> jmap list \<Rightarrow> tool_call" where
  "stitched d fs = \<lparr>tc_id = last_text d (map (\<lambda>tc. str_at tc ''id'') fs), tc_type = last_text ''function'' (map (\<lambda>tc. str_at tc ''type'') fs),
     tc_name = last_text [] (map (fun_text ''name'') fs), tc_args = concat (map (fun_text ''arguments'') fs)\<rparr>"

lemma stitched_snoc: "stitched d (fs @ [tc]) = merge_fragment tc (stitched d fs)"
  by (simp add: stitched_def merge_fragment_def last_text_snoc fun_text_def Let_def)

lemma stitched_nil: "stitched d [] = \<lparr>tc_id = d, tc_type = ''function'', tc_name = [], tc_args = []\<rparr>"
  by (simp add: stitched_def last_text_def)

text \<open>
  C40: Stitching the tool-call fragments of a stream one by one gives, for every index, the call whose
  arguments are those of the fragments of that index joined in order, and whose id, type and name are the
  last ones given; the id is drawn when none is given, and an index without fragments has no call.
\<close>

theorem calls_are_stitched:
  "\<exists>k. map_of (ac_calls (foldl (\<lambda>a tc. add_tool_call rnd tc a) (new_accumulator rnd n now) tcs)) i =
    (if fragments_at i tcs = [] then None else Some (stitched (''call_'' @ rnd k) (fragments_at i tcs)))"
proof (induction tcs rule: rev_induct)
  case Nil
  then show ?case by (simp add: new_accumulator_def fragments_at_def)
next
  case (snoc tc tcs)
  let ?a = "foldl (\<lambda>a tc. add_tool_call rnd tc a) (new_accumulator rnd n now) tcs"
  obtain k where k: "map_of (ac_calls ?a) i = (if fragments_at i tcs = [] then None else Some (stitched (''call_'' @ rnd k) (fragments_at i tcs)))"
    using snoc.IH by blast
  show ?case
  proof (cases "fragment_index tc = i")
    case False
    then have "map_of (ac_calls (add_tool_call rnd tc ?a)) i = map_of (ac_calls ?a) i"
      by (simp add: add_tool_call_def Let_def update_conv' split: option.splits)
    then show ?thesis using k False by (auto simp: fragments_at_def)
  next
    case True
    then have fs: "fragments_at i (tcs @ [tc]) = fragments_at i tcs @ [tc]" by (simp add: fragments_at_def)
    show ?thesis
    proof (cases "fragments_at i tcs = []")
      case new: True
      then have "map_of (ac_calls (add_tool_call rnd tc ?a)) i = Some (merge_fragment tc (stitched (''call_'' @ rnd (ac_draws ?a)) []))"
        using k True by (simp add: add_tool_call_def update_conv' stitched_nil)
      then show ?thesis using fs new stitched_snoc [of _ "[]" tc] by auto
    next
      case old: False
      then have "map_of (ac_calls (add_tool_call rnd tc ?a)) i = Some (merge_fragment tc (stitched (''call_'' @ rnd k) (fragments_at i tcs)))"
        using k True by (simp add: add_tool_call_def update_conv')
      then show ?thesis using fs stitched_snoc by auto
    qed
  qed
qed

end
