(* ===== verification/ChatRelay.thy ===== *)
theory ChatRelay
  imports Accumulate
begin

text \<open>
  \<open>internal/server/openai_stream.go\<close>, \<open>engine_sse.go\<close> and \<open>streamxml_openai.go\<close>: the relay of a completion
  stream to an OpenAI client, as a stream of frames and as one response.

  The chunks are texts: every stage looks for a word in the text and decodes it anew, as the code does.
  An event of the loop is what its \<open>select\<close> took, with the clock and whether the write succeeded.
\<close>

record relay_env =
  re_fmt :: "rat \<Rightarrow> string"
  re_spr :: "json \<Rightarrow> string"
  re_fold :: string
  re_rnd :: "nat \<Rightarrow> string"

subsection \<open>Stages of one chunk\<close>

definition with_choices :: "(json list \<Rightarrow> json list) \<Rightarrow> jmap \<Rightarrow> jmap" where
  "with_choices f m = (case jarr (map_of m ''choices'') of None \<Rightarrow> m | Some vs \<Rightarrow> AList.update ''choices'' (JArr (f vs)) m)"

definition calls_in :: "jmap \<Rightarrow> json list" where
  "calls_in d = (case jarr (map_of d ''tool_calls'') of Some ts \<Rightarrow> ts | None \<Rightarrow> [])"

definition float_index :: "json \<Rightarrow> int option" where
  "float_index raw = (case raw of JObj tc \<Rightarrow> num_int64 (map_of tc ''index'') | _ \<Rightarrow> None)"

definition track_call :: "json \<Rightarrow> int list \<times> bool \<Rightarrow> int list \<times> bool" where
  "track_call raw es = (if call_name raw = ''end_turn''
     then (case float_index raw of Some i \<Rightarrow> (List.insert i (fst es), snd es) | None \<Rightarrow> es)
     else if call_name raw \<noteq> [] then (fst es, True) else es)"

definition track_tool_call_indexes :: "string \<Rightarrow> int list \<times> bool \<Rightarrow> int list \<times> bool" where
  "track_tool_call_indexes clean es = (if \<not> has_part (quoted_word ''tool_calls'') clean then es else
     case decode_object clean of None \<Rightarrow> es
     | Some m \<Rightarrow> fold track_call (concat (map (\<lambda>c. calls_in (map_at c ''delta'')) (choices_of m))) es)"

definition strip_stage :: "(rat \<Rightarrow> string) \<Rightarrow> string \<Rightarrow> string" where
  "strip_stage fmt clean = (if \<not> has_part (quoted_word ''end_turn'') clean then clean else
     case decode_object clean of None \<Rightarrow> clean | Some m \<Rightarrow> go_marshal fmt (JObj (fst (strip_end_turn m))))"

text \<open>\<open>dropped\<close> is set by the first fragment dropped and stays set for the choices after it.\<close>

definition call_index :: "json \<Rightarrow> int" where
  "call_index raw = (case float_index raw of Some i \<Rightarrow> i | None \<Rightarrow> 0)"

definition continues :: "int list \<Rightarrow> json \<Rightarrow> bool" where
  "continues idxs raw \<longleftrightarrow> is_jobj raw \<and> call_index raw \<in> set idxs"

fun drop_choices :: "int list \<Rightarrow> json list \<Rightarrow> bool \<Rightarrow> json list \<times> bool" where
  "drop_choices idxs [] dropped = ([], dropped)"
| "drop_choices idxs (v # vs) dropped = (case v of
     JObj c \<Rightarrow> (case jobj (map_of c ''delta'') of
         Some d \<Rightarrow> (let tcs = calls_in d; kept = filter (\<lambda>r. \<not> continues idxs r) tcs;
             dropped = (dropped \<or> list_ex (continues idxs) tcs);
             d = (if tcs = [] \<or> \<not> dropped then d else if kept = [] then AList.delete ''tool_calls'' d
                  else AList.update ''tool_calls'' (JArr kept) d)
           in (case drop_choices idxs vs dropped of (ws, dropped) \<Rightarrow> (JObj (AList.update ''delta'' (JObj d) c) # ws, dropped)))
       | None \<Rightarrow> (case drop_choices idxs vs dropped of (ws, dropped) \<Rightarrow> (v # ws, dropped)))
   | _ \<Rightarrow> (case drop_choices idxs vs dropped of (ws, dropped) \<Rightarrow> (v # ws, dropped)))"

definition drop_end_turn_continuations :: "(rat \<Rightarrow> string) \<Rightarrow> int list \<Rightarrow> string \<Rightarrow> string" where
  "drop_end_turn_continuations fmt idxs clean = (if idxs = [] \<or> \<not> has_part (quoted_word ''tool_calls'') clean then clean else
     case decode_object clean of None \<Rightarrow> clean
     | Some m \<Rightarrow> (case jarr (map_of m ''choices'') of None \<Rightarrow> clean
         | Some vs \<Rightarrow> (case drop_choices idxs vs False of (ws, dropped) \<Rightarrow>
             if dropped then go_marshal fmt (JObj (AList.update ''choices'' (JArr ws) m)) else clean)))"

subsection \<open>Calls written as XML\<close>

definition wrap_int :: "int \<Rightarrow> int" where
  "wrap_int n = (n + 2 ^ 63) mod 2 ^ 64 - 2 ^ 63"

record xml_state =
  xs_x :: extractor
  xs_index :: int
  xs_seen :: bool
  xs_draws :: nat

definition bump_xml_call_index :: "json list \<Rightarrow> int \<Rightarrow> int" where
  "bump_xml_call_index tcs k = fold (\<lambda>raw k. case float_index raw of Some i \<Rightarrow> if k \<le> i then wrap_int (i + 1) else k | None \<Rightarrow> k) tcs k"

text \<open>The calls become fragments with running indexes, \<open>end_turn\<close> left out.\<close>

fun call_fragments :: "tool_call list \<Rightarrow> int \<Rightarrow> json list \<times> int" where
  "call_fragments [] k = ([], k)"
| "call_fragments (tc # tcs) k = (if tc_name tc = ''end_turn'' then call_fragments tcs k
     else (case call_fragments tcs (wrap_int (k + 1)) of (fs, k') \<Rightarrow> (tool_call_delta_fragment k tc # fs, k')))"

definition feed_delta :: "(rat \<Rightarrow> string) \<Rightarrow> (nat \<Rightarrow> string) \<Rightarrow> jmap \<Rightarrow> xml_state \<Rightarrow> jmap \<times> xml_state \<times> bool" where
  "feed_delta fmt rnd d s = (let content = str_at d ''content'' in
     if content = [] then (d, s, False) else
     case feed fmt rnd (xs_draws s) (xs_x s) content of (text, calls, x, n) \<Rightarrow>
       (let s = s\<lparr>xs_x := x, xs_draws := n\<rparr>;
            d1 = (if text = content then d else if text = [] then AList.delete ''content'' d
              else AList.update ''content'' (JStr text) d)
        in if calls = [] then (d1, s, text \<noteq> content)
           else (case call_fragments calls (bump_xml_call_index (calls_in d1) (xs_index s)) of (fs, k) \<Rightarrow>
             let tcs = calls_in d1 @ fs; s = s\<lparr>xs_index := k\<rparr>
             in if tcs = [] then (d1, s, True)
                else (AList.update ''tool_calls'' (JArr tcs) d1, s\<lparr>xs_seen := True\<rparr>, True))))"

fun feed_choices :: "(rat \<Rightarrow> string) \<Rightarrow> (nat \<Rightarrow> string) \<Rightarrow> json list \<Rightarrow> xml_state \<Rightarrow> json list \<times> xml_state \<times> bool" where
  "feed_choices fmt rnd [] s = ([], s, False)"
| "feed_choices fmt rnd (v # vs) s = (case v of
     JObj c \<Rightarrow> (case jobj (map_of c ''delta'') of
         Some d \<Rightarrow> (case feed_delta fmt rnd d s of (d, s, ch) \<Rightarrow>
             (case feed_choices fmt rnd vs s of (ws, s, ch') \<Rightarrow> (JObj (AList.update ''delta'' (JObj d) c) # ws, s, ch \<or> ch')))
       | None \<Rightarrow> (case feed_choices fmt rnd vs s of (ws, s, ch) \<Rightarrow> (v # ws, s, ch)))
   | _ \<Rightarrow> (case feed_choices fmt rnd vs s of (ws, s, ch) \<Rightarrow> (v # ws, s, ch)))"

definition stream_chat_content_to_tool_calls :: "(rat \<Rightarrow> string) \<Rightarrow> (nat \<Rightarrow> string) \<Rightarrow> string \<Rightarrow> xml_state \<Rightarrow> string \<times> xml_state" where
  "stream_chat_content_to_tool_calls fmt rnd clean s = (if \<not> has_part (quoted_word ''content'') clean then (clean, s) else
     case decode_object clean of None \<Rightarrow> (clean, s)
     | Some m \<Rightarrow> (case jarr (map_of m ''choices'') of None \<Rightarrow> (clean, s)
         | Some vs \<Rightarrow> (case feed_choices fmt rnd vs s of (ws, s, ch) \<Rightarrow>
             (if ch then go_marshal fmt (JObj (AList.update ''choices'' (JArr ws) m)) else clean, s))))"

subsection \<open>Finish reason, usage and model\<close>

definition flip_finish :: "string \<Rightarrow> string \<Rightarrow> json \<Rightarrow> json" where
  "flip_finish old new v = (case v of
     JObj c \<Rightarrow> if jstr (map_of c ''finish_reason'') = Some old then JObj (AList.update ''finish_reason'' (JStr new) c) else v
   | _ \<Rightarrow> v)"

definition finish_text :: "string \<Rightarrow> string" where
  "finish_text w = quoted_word ''finish_reason'' @ CHR 0x3A # quoted_word w"

definition flip_stage :: "(rat \<Rightarrow> string) \<Rightarrow> bool \<Rightarrow> string \<Rightarrow> string \<Rightarrow> string \<Rightarrow> string" where
  "flip_stage fmt b old new clean = (if \<not> b \<or> \<not> has_part (finish_text old) clean then clean else
     case decode_object clean of None \<Rightarrow> clean
     | Some m \<Rightarrow> go_marshal fmt (JObj (with_choices (map (flip_finish old new)) m)))"

definition usage_total_tokens :: "json \<Rightarrow> int" where
  "usage_total_tokens v = (case v of
     JObj u \<Rightarrow> (case positive_int (map_of u ''total_tokens'') of Some t \<Rightarrow> t
       | None \<Rightarrow> wrap_int ((case num_int64 (map_of u ''prompt_tokens'') of Some p \<Rightarrow> p | None \<Rightarrow> 0) +
           (case num_int64 (map_of u ''completion_tokens'') of Some c \<Rightarrow> c | None \<Rightarrow> 0)))
   | _ \<Rightarrow> 0)"

definition usage_stage :: "string \<Rightarrow> int \<Rightarrow> int" where
  "usage_stage clean old = (if \<not> has_part (quoted_word ''usage'') clean then old else
     case decode_object clean of None \<Rightarrow> old
     | Some m \<Rightarrow> if is_nil (map_of m ''usage'') then old else usage_total_tokens (the (map_of m ''usage'')))"

definition rewrite_chat_chunk_model :: "(rat \<Rightarrow> string) \<Rightarrow> string \<Rightarrow> string \<Rightarrow> string" where
  "rewrite_chat_chunk_model fmt served clean = (if served = [] \<or> \<not> has_part (quoted_word ''model'' @ [CHR 0x3A]) clean then clean else
     case decode_object clean of None \<Rightarrow> clean
     | Some m \<Rightarrow> if str_at m ''model'' = served then clean else go_marshal fmt (JObj (AList.update ''model'' (JStr served) m)))"

subsection \<open>What is kept for the reasoning cache\<close>

text \<open>
  Decoding into the struct fails on a member of another type; null leaves a string empty.  The names
  of the members are matched exactly here, the decoder of the code also folds their case.
\<close>

definition str_field :: "jmap \<Rightarrow> string \<Rightarrow> string option" where
  "str_field m k = (case map_of m k of None \<Rightarrow> Some [] | Some JNull \<Rightarrow> Some [] | Some (JStr s) \<Rightarrow> Some s | _ \<Rightarrow> None)"

definition seq_field :: "(json \<Rightarrow> 'a option) \<Rightarrow> jmap \<Rightarrow> string \<Rightarrow> 'a list option" where
  "seq_field f m k = (case map_of m k of None \<Rightarrow> Some [] | Some JNull \<Rightarrow> Some []
     | Some (JArr vs) \<Rightarrow> those (map f vs) | _ \<Rightarrow> None)"

definition as_struct :: "json \<Rightarrow> jmap option" where
  "as_struct v = (case v of JObj m \<Rightarrow> Some m | JNull \<Rightarrow> Some [] | _ \<Rightarrow> None)"

record delta_capture =
  dc_content :: string
  dc_reasoning :: string
  dc_ids :: "string list"

definition capture_delta :: "jmap \<Rightarrow> delta_capture option" where
  "capture_delta d = (case (str_field d ''content'', str_field d ''reasoning_content'', str_field d ''reasoning'', str_field d ''thinking'',
       seq_field (\<lambda>v. Option.bind (as_struct v) (\<lambda>m. str_field m ''id'')) d ''tool_calls'') of
     (Some c, Some rc, Some r, Some t, Some ids) \<Rightarrow>
       Some \<lparr>dc_content = c, dc_reasoning = (if rc \<noteq> [] then rc else if r \<noteq> [] then r else t), dc_ids = ids\<rparr>
   | _ \<Rightarrow> None)"

definition capture_choice :: "json \<Rightarrow> delta_capture option" where
  "capture_choice v = Option.bind (as_struct v) (\<lambda>c. case map_of c ''delta'' of
     None \<Rightarrow> capture_delta [] | Some d \<Rightarrow> Option.bind (as_struct d) capture_delta)"

definition capture_chunk :: "string \<Rightarrow> (string \<times> string \<times> delta_capture list) option" where
  "capture_chunk clean = (if \<not> has_part (quoted_word ''choices'') clean then None else
     Option.bind (decode_object clean) (\<lambda>m.
       case (str_field m ''model'', str_field m ''id'', seq_field capture_choice m ''choices'') of
         (Some mo, Some i, Some cs) \<Rightarrow> Some (mo, i, cs) | _ \<Rightarrow> None))"

subsection \<open>The relay loop\<close>

datatype out_frame = Comment string | Chunk string | ErrorFrame string | DoneFrame

definition frame_bytes :: "(rat \<Rightarrow> string) \<Rightarrow> out_frame \<Rightarrow> string" where
  "frame_bytes fmt f = (case f of
     Comment s \<Rightarrow> CHR 0x3A # CHR 0x20 # s @ [CHR 0x0A, CHR 0x0A]
   | Chunk s \<Rightarrow> encode_sse s
   | ErrorFrame e \<Rightarrow> error_chunk fmt (''upstream stream interrupted: '' @ e) ''upstream_stream_error''
   | DoneFrame \<Rightarrow> done_frame)"

record relay =
  rl_served :: string
  rl_frames :: "out_frame list"
  rl_last :: int
  rl_stopped :: bool
  rl_first :: bool
  rl_model :: string
  rl_ids :: "string list"
  rl_reasoning :: "string list"
  rl_content :: "string list"
  rl_ends :: "int list"
  rl_real :: bool
  rl_xml :: xml_state
  rl_xid :: string
  rl_chunks :: int
  rl_bytes :: int
  rl_usage :: int
  rl_ingested :: "(string list \<times> string \<times> string \<times> string) option"

definition keepalive_interval :: int where "keepalive_interval = 15 * 1000000000"

definition start_relay :: "string \<Rightarrow> int \<Rightarrow> relay" where
  "start_relay served now = \<lparr>rl_served = served, rl_frames = [Comment ''connecting''], rl_last = now, rl_stopped = False, rl_first = True,
     rl_model = served, rl_ids = [], rl_reasoning = [], rl_content = [], rl_ends = [], rl_real = False,
     rl_xml = \<lparr>xs_x = new_extractor, xs_index = 0, xs_seen = False, xs_draws = 0\<rparr>, rl_xid = [], rl_chunks = 0, rl_bytes = 0, rl_usage = 0,
     rl_ingested = None\<rparr>"

text \<open>Writing a chunk; a failed write ends the relay.\<close>

definition write_chunk :: "int \<Rightarrow> bool \<Rightarrow> string \<Rightarrow> relay \<Rightarrow> relay" where
  "write_chunk now ok t r = (if \<not> ok then r\<lparr>rl_stopped := True\<rparr>
     else r\<lparr>rl_frames := rl_frames r @ [Chunk t], rl_chunks := rl_chunks r + 1,
       rl_bytes := rl_bytes r + int (length (encode_sse t)), rl_last := now\<rparr>)"

definition capture_stage :: "string \<Rightarrow> relay \<Rightarrow> relay" where
  "capture_stage clean r = (case capture_chunk clean of None \<Rightarrow> r
   | Some (mo, i, cs) \<Rightarrow> (let
        r = r\<lparr>rl_model := (if rl_model r = [] then mo else rl_model r), rl_xid := keep_new (rl_xid r) i\<rparr>
      in case cs of [] \<Rightarrow> r
       | c # _ \<Rightarrow> r\<lparr>
           rl_reasoning := rl_reasoning r @ (if dc_reasoning c = [] then [] else [dc_reasoning c]),
           rl_content := rl_content r @ (if dc_content c = [] then [] else [dc_content c]),
           rl_ids := foldl (\<lambda>ids i. if i = [] \<or> i \<in> set ids then ids else ids @ [i]) (rl_ids r) (dc_ids c)\<rparr>))"

text \<open>The text of one chunk after all stages, with the state they leave.\<close>

definition relay_chunk :: "relay_env \<Rightarrow> string \<Rightarrow> relay \<Rightarrow> string \<times> relay" where
  "relay_chunk env clean r = (let
     fmt = re_fmt env;
     (idxs, real) = track_tool_call_indexes clean (rl_ends r, rl_real r);
     clean = strip_stage fmt clean;
     clean = drop_end_turn_continuations fmt idxs clean;
     (clean, xs) = stream_chat_content_to_tool_calls fmt (re_rnd env) clean (rl_xml r);
     clean = flip_stage fmt (\<not> real \<and> idxs \<noteq> []) ''tool_calls'' ''stop'' clean;
     clean = flip_stage fmt (xs_seen xs) ''stop'' ''tool_calls'' clean;
     r = r\<lparr>rl_ends := idxs, rl_real := real, rl_xml := xs, rl_usage := usage_stage clean (rl_usage r), rl_first := False\<rparr>
   in (rewrite_chat_chunk_model fmt (rl_served r) clean, capture_stage clean r))"

definition relay_line :: "relay_env \<Rightarrow> int \<Rightarrow> bool \<Rightarrow> string \<Rightarrow> relay \<Rightarrow> relay" where
  "relay_line env now ok line r = (let n = xs_draws (rl_xml r); r = r\<lparr>rl_xml := (rl_xml r)\<lparr>xs_draws := Suc n\<rparr>\<rparr> in
     case sanitize_line (re_fmt env) (re_spr env) (re_fold env) (now div 1000000000) (re_rnd env n) line of
       None \<Rightarrow> r
     | Some clean \<Rightarrow> (case relay_chunk env clean r of (t, r) \<Rightarrow> write_chunk now ok t r))"

definition flush_delta :: "string \<Rightarrow> json list \<Rightarrow> jmap" where
  "flush_delta text fs = (if text \<noteq> [] then [(''content'', JStr text)] else []) @ (if fs \<noteq> [] then [(''tool_calls'', JArr fs)] else [])"

definition flush_chunk :: "int \<Rightarrow> string \<Rightarrow> string \<Rightarrow> jmap \<Rightarrow> jmap" where
  "flush_chunk now i model d = [(''id'', JStr (if i = [] then ''chatcmpl-flush'' else i)), (''object'', JStr ''chat.completion.chunk''),
     (''created'', jint (now div 1000000000)), (''model'', JStr model),
     (''choices'', JArr [JObj [(''index'', jint 0), (''delta'', JObj d)]])]"

text \<open>\<open>emitXMLFlush\<close>; after a failed write the caller still goes on.\<close>

definition emit_xml_flush :: "relay_env \<Rightarrow> int \<Rightarrow> bool \<Rightarrow> relay \<Rightarrow> relay" where
  "emit_xml_flush env now ok r = (let xs = rl_xml r in
     case flush (re_fmt env) (re_rnd env) (xs_draws xs) (xs_x xs) of (text, calls, x, n) \<Rightarrow>
       (let r = r\<lparr>rl_xml := xs\<lparr>xs_x := x, xs_draws := n\<rparr>\<rparr> in
        if text = [] \<and> calls = [] then r
        else (case call_fragments calls (xs_index xs) of (fs, k) \<Rightarrow>
          (let t = go_marshal (re_fmt env) (JObj (flush_chunk now (rl_xid r) (rl_model r) (flush_delta text fs)));
               r = r\<lparr>rl_xml := xs\<lparr>xs_x := x, xs_draws := n, xs_index := k, xs_seen := xs_seen xs \<or> fs \<noteq> []\<rparr>,
                 rl_content := rl_content r @ (if text = [] then [] else [text])\<rparr>
           in if ok then write_chunk now True t r else r))))"

definition ingest :: "relay \<Rightarrow> relay" where
  "ingest r = (if concat (rl_reasoning r) = [] then r
     else r\<lparr>rl_ingested := Some (rl_ids r, concat (rl_content r), concat (rl_reasoning r), rl_model r)\<rparr>)"

text \<open>
  An event of the loop: the request is cancelled, the ticker fires, a line, a read error (telling whether
  the request is still live) or the end of the stream arrives.  The flags say whether a chunk is written.
\<close>

datatype relay_event = Cancelled | Ticked int | GotLine int bool string | GotError int bool bool string | GotEnd int bool

fun relay_step :: "relay_env \<Rightarrow> relay_event \<Rightarrow> relay \<Rightarrow> relay" where
  "relay_step env ev r = (if rl_stopped r then r else case ev of
     Cancelled \<Rightarrow> r\<lparr>rl_stopped := True\<rparr>
   | Ticked now \<Rightarrow> (if keepalive_interval \<le> now - rl_last r
       then r\<lparr>rl_frames := rl_frames r @ [Comment ''keepalive''], rl_last := now\<rparr> else r)
   | GotLine now ok line \<Rightarrow> relay_line env now ok line r
   | GotError now live ok e \<Rightarrow>
       (let r = (if live then (let r = emit_xml_flush env now ok r in r\<lparr>rl_frames := rl_frames r @ [ErrorFrame e, DoneFrame]\<rparr>) else r)
        in (ingest r)\<lparr>rl_stopped := True\<rparr>)
   | GotEnd now ok \<Rightarrow>
       (let r = emit_xml_flush env now ok r; r = r\<lparr>rl_frames := rl_frames r @ [DoneFrame]\<rparr> in (ingest r)\<lparr>rl_stopped := True\<rparr>))"

definition relay_stream :: "relay_env \<Rightarrow> string \<Rightarrow> int \<Rightarrow> relay_event list \<Rightarrow> relay" where
  "relay_stream env served now evs = foldl (\<lambda>r ev. relay_step env ev r) (start_relay served now) evs"

subsection \<open>The response without streaming\<close>

datatype response = JsonError int string | JsonBody string | NoResponse

definition align_choice :: "bool \<Rightarrow> json \<Rightarrow> json" where
  "align_choice native v = (case v of
     JObj c \<Rightarrow> (case jobj (map_of c ''message'') of None \<Rightarrow> v
       | Some msg \<Rightarrow> (let fr = str_at c ''finish_reason'' in
           if calls_in msg = [] \<and> fr = ''tool_calls'' then JObj (AList.update ''finish_reason'' (JStr ''stop'') c)
           else if calls_in msg \<noteq> [] \<and> fr = ''stop'' \<and> \<not> native then JObj (AList.update ''finish_reason'' (JStr ''tool_calls'') c)
           else v))
   | _ \<Rightarrow> v)"

text \<open>Stripping and alignment; the text is written anew when something changed.\<close>

definition align_response :: "(rat \<Rightarrow> string) \<Rightarrow> bool \<Rightarrow> string \<Rightarrow> string" where
  "align_response fmt native out = (if \<not> has_part (quoted_word ''tool_calls'') out \<and> \<not> has_part (finish_text ''tool_calls'') out then out else
     case decode_object out of None \<Rightarrow> out
     | Some m \<Rightarrow> (let strip = has_part (quoted_word ''end_turn'') out; m1 = (if strip then fst (strip_end_turn m) else m);
           m2 = with_choices (map (align_choice native)) m1
         in if strip \<or> m2 \<noteq> m1 then go_marshal fmt (JObj m2) else out))"

definition stamp_model :: "(rat \<Rightarrow> string) \<Rightarrow> string \<Rightarrow> string \<Rightarrow> string" where
  "stamp_model fmt served out = (if served = [] then out else
     case decode_object out of None \<Rightarrow> out
     | Some m \<Rightarrow> if str_at m ''model'' = served then out else go_marshal fmt (JObj (AList.update ''model'' (JStr served) m)))"

definition response_usage :: "string \<Rightarrow> int \<Rightarrow> int" where
  "response_usage out old = (case decode_object out of None \<Rightarrow> old
     | Some m \<Rightarrow> if is_nil (map_of m ''usage'') then old else usage_total_tokens (the (map_of m ''usage'')))"

text \<open>What \<open>Put\<close> of the reasoning cache gets: ids, content, text of the calls, reasoning and model.\<close>

definition response_reasoning :: "(rat \<Rightarrow> string) \<Rightarrow> string \<Rightarrow> (string list \<times> string \<times> string \<times> string \<times> string) option" where
  "response_reasoning fmt out = Option.bind (decode_object out) (\<lambda>m. case jarr (map_of m ''choices'') of
     Some (JObj c # _) \<Rightarrow> (case jobj (map_of c ''message'') of None \<Rightarrow> None
       | Some msg \<Rightarrow> (let rc = reasoning_of msg; tcs = calls_in msg in
           if rc = [] then None
           else Some (filter (\<lambda>i. i \<noteq> []) (map (\<lambda>tc. str_at tc ''id'') (objects_of (Some (JArr tcs)))), str_at msg ''content'',
             (if tcs = [] then [] else go_marshal fmt (JArr tcs)), rc, str_at m ''model'')))
   | _ \<Rightarrow> None)"

text \<open>A line with the flag whether the request is already cancelled when it is read.\<close>

fun drain_lines :: "relay_env \<Rightarrow> (bool \<times> string) list \<Rightarrow> bool \<Rightarrow> int \<Rightarrow> accumulator \<Rightarrow> ((response \<times> int) + bool \<times> int \<times> accumulator)" where
  "drain_lines env [] native k a = Inr (native, k, a)"
| "drain_lines env ((live, line) # ls) native k a = (let native = (native \<or> has_part (quoted_word ''tool_calls'' @ '':[{'') line) in
     if \<not> live then Inl (NoResponse, k)
     else (case acc_add (re_spr env) (re_rnd env) line a of
         Inl InvalidChunk \<Rightarrow> Inl (JsonError 502 ''failed to decode upstream stream: convert: invalid chunk JSON'', k)
       | Inl (UpstreamError e) \<Rightarrow> Inl (JsonError 502 (''failed to decode upstream stream: upstream error: '' @ e), k)
       | Inr a \<Rightarrow> drain_lines env ls native (k + 1) a))"

record json_relay =
  jr_response :: response
  jr_chunks :: int
  jr_bytes :: int
  jr_usage :: int
  jr_ingested :: "(string list \<times> string \<times> string \<times> string \<times> string) option"

definition relay_json :: "relay_env \<Rightarrow> string \<Rightarrow> int \<Rightarrow> (bool \<times> string) list \<Rightarrow> (bool \<times> string) option \<Rightarrow> json_relay" where
  "relay_json env served now ls err = (let fmt = re_fmt env; none = \<lparr>jr_response = NoResponse, jr_chunks = 0, jr_bytes = 0, jr_usage = 0, jr_ingested = None\<rparr> in
     case drain_lines env ls False 0 (set_requested_model served (new_accumulator (re_rnd env) 0 now)) of
       Inl (resp, k) \<Rightarrow> none\<lparr>jr_response := resp, jr_chunks := k\<rparr>
     | Inr (native, k, a) \<Rightarrow> (case err of
         Some (live, e) \<Rightarrow> none\<lparr>jr_response := (if live then JsonError 502 (''upstream stream error: '' @ e) else NoResponse), jr_chunks := k\<rparr>
       | None \<Rightarrow> (let out = stamp_model fmt served (align_response fmt native (acc_finish fmt (re_rnd env) (re_fold env) a))
           in \<lparr>jr_response = JsonBody out, jr_chunks = k, jr_bytes = int (length out), jr_usage = response_usage out 0,
               jr_ingested = response_reasoning fmt out\<rparr>)))"

end
