(* ===== verification/RelaySafety.thy ===== *)
theory RelaySafety
  imports ChatRelay
begin

text \<open>
  The relay never shows a client the pseudo call \<open>end_turn\<close>, although every stage only looks at a chunk
  whose text has a certain word.  A text is good when it is one written by \<open>json.Marshal\<close> or a raw one
  that escapes no letter; then a word of its value stands in it, and what it decodes to can be written and
  read again.
\<close>

subsection \<open>Values that can be written and read again\<close>

definition okv :: "(rat \<Rightarrow> string) \<Rightarrow> nat \<Rightarrow> json \<Rightarrow> bool" where
  "okv fmt n v \<longleftrightarrow> spellable fmt v \<and> json_depth v \<le> n"

definition ints_spelled :: "(rat \<Rightarrow> string) \<Rightarrow> bool" where
  "ints_spelled fmt \<longleftrightarrow> (\<forall>n. num_spelled fmt (of_int n))"

lemma okv_obj: "0 < n \<Longrightarrow> okv fmt n (JObj m) \<longleftrightarrow> gomap m \<and> (\<forall>(k, v) \<in> set m. utf8_fix k = k \<and> okv fmt (n - 1) v)"
  by (cases n) (auto simp: okv_def list_all_iff foldr_max_le)

lemma okv_obj_pos: "okv fmt n (JObj m) \<Longrightarrow> 0 < n"
  by (simp add: okv_def)

lemma okv_arr: "0 < n \<Longrightarrow> okv fmt n (JArr vs) \<longleftrightarrow> (\<forall>v \<in> set vs. okv fmt (n - 1) v)"
  by (cases n) (auto simp: okv_def list_all_iff foldr_max_le)

lemma okv_arr_pos: "okv fmt n (JArr vs) \<Longrightarrow> 0 < n"
  by (simp add: okv_def)

lemma okv_flat [simp]: "okv fmt n JNull" "okv fmt n (JBool b)" "okv fmt n (JStr s)"
  by (simp_all add: okv_def)

lemma okv_mono: "okv fmt n v \<Longrightarrow> n \<le> k \<Longrightarrow> okv fmt k v"
  by (simp add: okv_def)

lemma okv_objI: "0 < n \<Longrightarrow> gomap m \<Longrightarrow> (\<And>k v. (k, v) \<in> set m \<Longrightarrow> utf8_fix k = k \<and> okv fmt (n - 1) v) \<Longrightarrow> okv fmt n (JObj m)"
  using okv_obj [of n fmt m] by blast

lemma okv_objD:
  assumes "okv fmt n (JObj m)"
  shows "gomap m" "(k, v) \<in> set m \<Longrightarrow> utf8_fix k = k \<and> okv fmt (n - 1) v"
  using assms okv_obj [OF okv_obj_pos [OF assms], of fmt m] by blast+

lemma okv_arrI: "0 < n \<Longrightarrow> (\<And>v. v \<in> set vs \<Longrightarrow> okv fmt (n - 1) v) \<Longrightarrow> okv fmt n (JArr vs)"
  using okv_arr [of n fmt vs] by blast

lemma okv_arrD: "okv fmt n (JArr vs) \<Longrightarrow> v \<in> set vs \<Longrightarrow> okv fmt (n - 1) v"
  using okv_arr [OF okv_arr_pos, of fmt n vs] by blast

lemma okv_get: "okv fmt n (JObj m) \<Longrightarrow> map_of m k = Some v \<Longrightarrow> okv fmt (n - 1) v"
  using okv_objD(2) map_of_SomeD by metis

lemma in_update: "(a, b) \<in> set (AList.update k v m) \<Longrightarrow> (a, b) \<in> set m \<or> a = k \<and> b = v"
  by (induction m) (auto split: if_splits)

lemma okv_update: "okv fmt n (JObj m) \<Longrightarrow> utf8_fix k = k \<Longrightarrow> okv fmt (n - 1) v \<Longrightarrow> okv fmt n (JObj (AList.update k v m))"
  by (rule okv_objI) (use okv_obj_pos okv_objD gomap_update in_update in \<open>metis+\<close>)

lemma in_delete: "(a, b) \<in> set (AList.delete k m) \<Longrightarrow> (a, b) \<in> set m"
  by (simp add: set_delete)

lemma okv_delete: "okv fmt n (JObj m) \<Longrightarrow> okv fmt n (JObj (AList.delete k m))"
  by (rule okv_objI) (use okv_obj_pos okv_objD gomap_delete in_delete in \<open>metis+\<close>)

lemma okv_filter: "okv fmt n (JArr vs) \<Longrightarrow> okv fmt n (JArr (filter P vs))"
  by (rule okv_arrI) (use okv_arr_pos okv_arrD in auto)

lemma okv_jint: "ints_spelled fmt \<Longrightarrow> \<bar>i\<bar> \<le> 2 ^ 64 \<Longrightarrow> okv fmt n (jint i)"
proof -
  assume i: "ints_spelled fmt" "\<bar>i\<bar> \<le> 2 ^ 64"
  have "\<bar>of_int i\<bar> \<le> (2 :: rat) ^ 64" using i(2) by (metis of_int_abs of_int_le_iff of_int_numeral of_int_power)
  also have "(2 :: rat) ^ 64 < 2 ^ 1024 - 2 ^ 970" by simp
  finally have "float_ok (of_int i)" by (simp add: float_ok_def)
  then show ?thesis using i(1) by (simp add: okv_def jint_def ints_spelled_def)
qed

text \<open>Names of members.\<close>

lemma word_key: "list_all word_char k \<Longrightarrow> utf8_fix k = k"
proof (induction k)
  case (Cons c k)
  then have "seq_len (c # k) = 1" using word_char_byte [of c] by (simp add: seq_len_def)
  then show ?case using Cons by simp
qed simp

lemma keys_valid: "utf8_fix ''choices'' = ''choices''" "utf8_fix ''delta'' = ''delta''" "utf8_fix ''message'' = ''message''"
  "utf8_fix ''tool_calls'' = ''tool_calls''" "utf8_fix ''finish_reason'' = ''finish_reason''" "utf8_fix ''content'' = ''content''"
  "utf8_fix ''model'' = ''model''" "utf8_fix ''index'' = ''index''" "utf8_fix ''id'' = ''id''" "utf8_fix ''type'' = ''type''"
  "utf8_fix ''function'' = ''function''" "utf8_fix ''name'' = ''name''" "utf8_fix ''arguments'' = ''arguments''"
  "utf8_fix ''object'' = ''object''" "utf8_fix ''created'' = ''created''" "utf8_fix ''usage'' = ''usage''"
  "utf8_fix ''system_fingerprint'' = ''system_fingerprint''" "utf8_fix ''error'' = ''error''" "utf8_fix ''logprobs'' = ''logprobs''"
  "utf8_fix ''reasoning'' = ''reasoning''" "utf8_fix ''reasoning_content'' = ''reasoning_content''"
  by (rule word_key, simp add: word_char_def)+

declare utf8_fix.simps [simp del]

subsection \<open>Reading a written object\<close>

definition reread_map :: "jmap \<Rightarrow> jmap" where
  "reread_map m = map (\<lambda>(k, v). (k, fix_strings v)) (sort_members (map (\<lambda>(k, v). (k, key_sorted v)) m))"

lemma reread_obj: "reread (JObj m) = JObj (reread_map m)"
  by (simp add: reread_def reread_map_def)

lemma reread_map_of: "gomap m \<Longrightarrow> map_of (reread_map m) k = map_option reread (map_of m k)"
proof -
  assume "gomap m"
  then have "gomap (map (\<lambda>(k, v). (k, key_sorted v)) m)" by (simp add: gomap_def comp_def split_def)
  then show ?thesis
    by (cases "map_of m k") (simp_all add: reread_map_def map_of_map reread_def)
qed

lemma okv_reread [simp]: "okv fmt n (reread v) = okv fmt n v"
  by (simp add: okv_def reread_def)

lemma decode_written:
  assumes "okv fmt 10000 (JObj m)"
  shows "decode_object (go_marshal fmt (JObj m)) = Some (reread_map m)"
  using decode_marshal [of fmt m] assms by (simp add: okv_def reread_obj jobj_def del: spellable.simps json_depth.simps)

lemma fix_mentions: "plain_word s \<Longrightarrow> mentions s (fix_strings v) \<Longrightarrow> mentions s v"
proof (induction v rule: fix_strings.induct)
  case (1 t)
  then show ?case using utf8_fix_plain [of t] by (auto simp: plain_word_def)
next
  case (3 m)
  then obtain k v where "(k, v) \<in> set m" "k = s \<or> mentions s (fix_strings v)" by (auto simp: list_ex_iff)
  then have "(k, v) \<in> set m" "k = s \<or> mentions s v" using 3 by auto
  then show ?case by (force simp: list_ex_iff)
qed (auto simp: list_ex_iff)

lemma reread_mentions: "plain_word s \<Longrightarrow> mentions s (reread v) \<Longrightarrow> mentions s v"
  using fix_mentions [of s "key_sorted v"] by (simp add: reread_def)

subsection \<open>Good texts\<close>

definition text_ok :: "(rat \<Rightarrow> string) \<Rightarrow> string \<Rightarrow> bool" where
  "text_ok fmt t \<longleftrightarrow> (\<exists>m. t = go_marshal fmt (JObj m) \<and> okv fmt 9000 (JObj m)) \<or>
     letters_plain t \<and> (\<forall>m. decode_object t = Some m \<longrightarrow> okv fmt 9000 (JObj m))"

lemma text_ok_marshal: "okv fmt 9000 (JObj m) \<Longrightarrow> text_ok fmt (go_marshal fmt (JObj m))"
  by (auto simp: text_ok_def)

lemma text_ok_decode: "text_ok fmt t \<Longrightarrow> decode_object t = Some m \<Longrightarrow> okv fmt 9000 (JObj m)"
  unfolding text_ok_def
proof (elim disjE exE conjE)
  fix m' assume "t = go_marshal fmt (JObj m')" "okv fmt 9000 (JObj m')" "decode_object t = Some m"
  moreover from this have "okv fmt 10000 (JObj m')" by (simp add: okv_mono)
  ultimately show "okv fmt 9000 (JObj m)" using decode_written okv_reread reread_obj by (metis option.inject)
qed blast

lemma text_ok_probe:
  assumes "text_ok fmt t" "decode_object t = Some m" "mentions s (JObj m)" "plain_word s"
  shows "has_part (quoted_word s) t"
  using assms(1) unfolding text_ok_def
proof (elim disjE exE conjE)
  fix m' assume t: "t = go_marshal fmt (JObj m')" and "okv fmt 9000 (JObj m')"
  then have "okv fmt 10000 (JObj m')" by (simp add: okv_mono)
  then have "JObj m = reread (JObj m')" using decode_written t assms(2) reread_obj by (metis option.inject)
  then have "mentions s (JObj m')" using reread_mentions assms(3,4) by metis
  then show ?thesis using marshal_mentions assms(4) t by blast
next
  assume "letters_plain t"
  then show ?thesis using probe_sees_word assms by blast
qed

subsection \<open>Chunks without the call\<close>

definition calls_free :: "jmap \<Rightarrow> bool" where
  "calls_free d \<longleftrightarrow> list_all (\<lambda>r. call_name r \<noteq> ''end_turn'') (calls_in d)"

definition choice_free :: "json \<Rightarrow> bool" where
  "choice_free v \<longleftrightarrow> (case v of JObj c \<Rightarrow> calls_free (map_at c ''delta'') \<and> calls_free (map_at c ''message'') | _ \<Rightarrow> True)"

definition chunk_free :: "jmap \<Rightarrow> bool" where
  "chunk_free m \<longleftrightarrow> (case jarr (map_of m ''choices'') of Some vs \<Rightarrow> list_all choice_free vs | None \<Rightarrow> True)"

definition text_free :: "string \<Rightarrow> bool" where
  "text_free t \<longleftrightarrow> (case decode_object t of Some m \<Rightarrow> chunk_free m | None \<Rightarrow> True)"

lemma mentions_member: "map_of m k = Some v \<Longrightarrow> mentions s v \<Longrightarrow> mentions s (JObj m)"
  using map_of_SomeD by (fastforce simp: list_ex_iff)

lemma mentions_at: "mentions s (JObj (map_at m k)) \<Longrightarrow> mentions s (JObj m)"
  using mentions_member [of m k _ s] by (auto simp: map_at_def jobj_def split: option.splits json.splits)

lemma mentions_str: "s \<noteq> [] \<Longrightarrow> str_at m k = s \<Longrightarrow> mentions s (JObj m)"
  using mentions_member [of m k _ s] by (auto simp: str_at_def jstr_def split: option.splits json.splits)

lemma mentions_call: "s \<noteq> [] \<Longrightarrow> call_name r = s \<Longrightarrow> mentions s r"
proof -
  assume s: "s \<noteq> []" "call_name r = s"
  then obtain tc where r: "r = JObj tc" "str_at (map_at tc ''function'') ''name'' = s" by (cases r) (auto simp: call_name_def)
  from mentions_at [OF mentions_str [OF s(1) r(2)]] show ?thesis using r(1) by simp
qed

lemma mentions_calls: "\<not> calls_free d \<Longrightarrow> mentions ''end_turn'' (JObj d)"
proof -
  assume "\<not> calls_free d"
  then obtain ts raw where r: "map_of d ''tool_calls'' = Some (JArr ts)" "raw \<in> set ts" "call_name raw = ''end_turn''"
    by (auto simp: calls_free_def calls_in_def jarr_def list_all_iff split: option.splits json.splits)
  have "mentions ''end_turn'' raw" by (rule mentions_call [OF _ r(3)]) simp
  then have "mentions ''end_turn'' (JArr ts)" using r(2) by (auto simp: list_ex_iff)
  then show ?thesis using mentions_member [OF r(1)] by blast
qed

lemma mentions_chunk: "\<not> chunk_free m \<Longrightarrow> mentions ''end_turn'' (JObj m)"
proof -
  assume "\<not> chunk_free m"
  then obtain vs v where v: "map_of m ''choices'' = Some (JArr vs)" "v \<in> set vs" "\<not> choice_free v"
    by (auto simp: chunk_free_def jarr_def list_all_iff split: option.splits json.splits)
  then obtain c where c: "map_of m ''choices'' = Some (JArr vs)" "JObj c \<in> set vs"
    "\<not> calls_free (map_at c ''delta'') \<or> \<not> calls_free (map_at c ''message'')"
    by (cases v) (auto simp: choice_free_def)
  then have "mentions ''end_turn'' (JObj c)" using mentions_calls mentions_at by blast
  then have "mentions ''end_turn'' (JArr vs)" using c(2) by (auto simp: list_ex_iff simp del: mentions.simps(3))
  then show ?thesis using c(1) mentions_member by blast
qed

lemma unseen_text_free:
  assumes "text_ok fmt t" "\<not> has_part (quoted_word ''end_turn'') t"
  shows "text_free t"
proof -
  have "plain_word ''end_turn''" by (simp add: plain_word_def word_char_def)
  then show ?thesis using text_ok_probe [OF assms(1)] mentions_chunk assms(2) by (auto simp: text_free_def split: option.splits)
qed

subsection \<open>Stripping\<close>

lemma okv_calls: "okv fmt n (JObj d) \<Longrightarrow> okv fmt (n - 1) (JArr (calls_in d)) \<or> calls_in d = []"
  using okv_get [of fmt n d "''tool_calls''"] by (auto simp: calls_in_def jarr_def split: option.splits json.splits)

lemma calls_in_update: "calls_in (AList.update ''tool_calls'' (JArr ts) d) = ts"
  by (simp add: calls_in_def jarr_def map_of_update)

lemma calls_in_delete: "calls_in (AList.delete ''tool_calls'' d) = []"
  by (simp add: calls_in_def jarr_def map_of_delete)

lemma calls_in_other: "k \<noteq> ''tool_calls'' \<Longrightarrow> calls_in (AList.update k v d) = calls_in d"
  "k \<noteq> ''tool_calls'' \<Longrightarrow> calls_in (AList.delete k d) = calls_in d"
  by (simp_all add: calls_in_def map_of_update map_of_delete)

lemma map_at_update: "map_at (AList.update k (JObj d) c) k' = (if k = k' then d else map_at c k')"
  by (simp add: map_at_def map_of_update jobj_def)

lemma strip_calls_safe:
  assumes "okv fmt n (JObj d)" "strip_calls d = (d', b)"
  shows "okv fmt n (JObj d') \<and> calls_free d'"
proof (cases "jarr (map_of d ''tool_calls'')")
  case None
  then show ?thesis using assms by (simp add: strip_calls_def calls_free_def calls_in_def)
next
  case (Some tcs)
  then have "map_of d ''tool_calls'' = Some (JArr tcs)" by (auto simp: jarr_def split: option.splits json.splits)
  then have ok: "okv fmt (n - 1) (JArr (filter_end_turn tcs))"
    unfolding filter_end_turn_def by (intro okv_filter okv_get [OF assms(1)])
  show ?thesis
  proof (cases "filter_end_turn tcs")
    case Nil
    then show ?thesis using assms Some okv_delete by (auto simp: strip_calls_def calls_free_def calls_in_delete)
  next
    case (Cons t ts)
    then have d': "d' = AList.update ''tool_calls'' (JArr (filter_end_turn tcs)) d" using assms(2) Some by (simp add: strip_calls_def)
    then show ?thesis using okv_update [OF assms(1) keys_valid(4) ok]
      by (simp add: calls_free_def calls_in_update filter_end_turn_def list_all_iff)
  qed
qed

lemma strip_member_safe:
  assumes "okv fmt n (JObj c)" "strip_member k c = (c', b)" "utf8_fix k = k"
  shows "okv fmt n (JObj c')" "calls_free (map_at c' k)" "k' \<noteq> k \<Longrightarrow> map_at c' k' = map_at c k'"
proof -
  have "okv fmt n (JObj c') \<and> calls_free (map_at c' k) \<and> (k' \<noteq> k \<longrightarrow> map_at c' k' = map_at c k')"
  proof (cases "jobj (map_of c k)")
    case None
    then show ?thesis using assms by (simp add: strip_member_def map_at_def calls_free_def calls_in_def jarr_def)
  next
    case (Some d)
    then have d: "map_of c k = Some (JObj d)" by (auto simp: jobj_def split: option.splits json.splits)
    obtain d' b' where s: "strip_calls d = (d', b')" by fastforce
    then have "okv fmt (n - 1) (JObj d') \<and> calls_free d'" using strip_calls_safe okv_get [OF assms(1) d] by blast
    moreover have "c' = AList.update k (JObj d') c" using assms(2) Some s by (simp add: strip_member_def)
    ultimately show ?thesis using okv_update [OF assms(1,3)] by (simp add: map_at_update)
  qed
  then show "okv fmt n (JObj c')" "calls_free (map_at c' k)" "k' \<noteq> k \<Longrightarrow> map_at c' k' = map_at c k'" by blast+
qed

lemma strip_choices_safe:
  "strip_choices vs kept fr = (ws, kept', fr') \<Longrightarrow> (\<And>v. v \<in> set vs \<Longrightarrow> okv fmt n v) \<Longrightarrow> w \<in> set ws \<Longrightarrow> okv fmt n w \<and> choice_free w"
proof (induction vs kept fr arbitrary: ws kept' fr' rule: strip_choices.induct)
  case (2 c vs kept fr)
  obtain c1 b1 where s1: "strip_member ''delta'' c = (c1, b1)" by fastforce
  obtain c2 b2 where s2: "strip_member ''message'' c1 = (c2, b2)" by fastforce
  obtain fr1 where fr1: "fr1 = (case jstr (map_of c ''finish_reason'') of Some s \<Rightarrow> s | None \<Rightarrow> fr)" by simp
  obtain us k1 f1 where r: "strip_choices vs (kept \<or> b1 \<or> b2) fr1 = (us, k1, f1)" by (metis prod_cases3)
  have ws: "ws = JObj c2 # us" using 2(2) s1 s2 r by (simp add: Let_def fr1)
  have c: "okv fmt n (JObj c)" using 2(3) by simp
  have o1: "okv fmt n (JObj c1)" using strip_member_safe(1) [OF c s1 keys_valid(2)] .
  have o2: "okv fmt n (JObj c2)" using strip_member_safe(1) [OF o1 s2 keys_valid(3)] .
  have "map_at c2 ''delta'' = map_at c1 ''delta''" using strip_member_safe(3) [OF o1 s2 keys_valid(3), of "''delta''"] by simp
  then have f2: "choice_free (JObj c2)"
    using strip_member_safe(2) [OF c s1 keys_valid(2)] strip_member_safe(2) [OF o1 s2 keys_valid(3)] by (simp add: choice_free_def)
  show ?case
  proof (cases "w = JObj c2")
    case True
    then show ?thesis using o2 f2 by simp
  next
    case False
    then have "w \<in> set us" using 2(4) ws by simp
    then show ?thesis using 2(1) [OF fr1 s1 [symmetric] refl s2 [symmetric] refl r] 2(3) by simp
  qed
qed (auto simp: choice_free_def split: prod.splits)

lemma set_finish_safe: "okv fmt n v \<Longrightarrow> okv fmt n (set_finish s v) \<and> (choice_free v \<longrightarrow> choice_free (set_finish s v))"
  using okv_update [OF _ keys_valid(5), of fmt n _ "JStr s"]
  by (cases v) (auto simp: set_finish_def choice_free_def map_at_def map_of_update)

lemma strip_end_turn_safe:
  assumes "okv fmt n (JObj m)"
  shows "okv fmt n (JObj (fst (strip_end_turn m))) \<and> chunk_free (fst (strip_end_turn m))"
proof (cases "jarr (map_of m ''choices'')")
  case None
  then show ?thesis using assms by (simp add: strip_end_turn_def chunk_free_def)
next
  case (Some vs)
  then have vs: "map_of m ''choices'' = Some (JArr vs)" by (auto simp: jarr_def split: option.splits json.splits)
  obtain ws k fr where s: "strip_choices vs False [] = (ws, k, fr)" by (metis prod_cases3)
  define us where "us = (if \<not> k \<and> fr = ''tool_calls'' then map (set_finish ''stop'') ws else ws)"
  have "okv fmt (n - 1 - 1) v" if "v \<in> set vs" for v using okv_arrD [OF okv_get [OF assms vs] that] .
  then have "okv fmt (n - 1 - 1) w \<and> choice_free w" if "w \<in> set ws" for w using strip_choices_safe [OF s _ that] by blast
  then have us: "okv fmt (n - 1 - 1) w \<and> choice_free w" if "w \<in> set us" for w
    using that set_finish_safe by (simp add: us_def split: if_splits) blast
  have m': "fst (strip_end_turn m) = AList.update ''choices'' (JArr us) m"
    by (simp add: strip_end_turn_def Some s us_def)
  have "okv fmt (n - 1) (JArr us)" using okv_arr_pos [OF okv_get [OF assms vs]] us by (intro okv_arrI) auto
  then show ?thesis using okv_update [OF assms keys_valid(1)] us
    by (simp add: m' chunk_free_def jarr_def map_of_update list_all_iff)
qed

subsection \<open>Continuations\<close>

lemma calls_free_filter: "calls_free d \<Longrightarrow> calls_free (AList.update ''tool_calls'' (JArr (filter P (calls_in d))) d)"
  by (simp add: calls_free_def calls_in_update list_all_iff)

lemma replace_delta_safe:
  assumes "okv fmt n (JObj c)" "choice_free (JObj c)" "okv fmt (n - 1) (JObj d)" "calls_free d"
  shows "okv fmt n (JObj (AList.update ''delta'' (JObj d) c)) \<and> choice_free (JObj (AList.update ''delta'' (JObj d) c))"
  using okv_update [OF assms(1) keys_valid(2) assms(3)] assms(2,4) by (simp add: choice_free_def map_at_update)

lemma delta_of_choice:
  assumes "jobj (map_of c ''delta'') = Some d"
  shows "map_of c ''delta'' = Some (JObj d)" "map_at c ''delta'' = d"
  using assms by (auto simp: jobj_def map_at_def split: option.splits json.splits)

lemma okv_calls_update:
  assumes "okv fmt n (JObj d)" "calls_in d \<noteq> []" "\<And>r. r \<in> set ts \<Longrightarrow> r \<in> set (calls_in d) \<or> okv fmt (n - 1 - 1) r"
  shows "okv fmt n (JObj (AList.update ''tool_calls'' (JArr ts) d))"
proof (rule okv_update [OF assms(1) keys_valid(4)])
  have c: "okv fmt (n - 1) (JArr (calls_in d))" using okv_calls [OF assms(1)] assms(2) by blast
  show "okv fmt (n - 1) (JArr ts)" by (rule okv_arrI [OF okv_arr_pos [OF c]]) (use assms(3) okv_arrD [OF c] in blast)
qed

lemma drop_choices_safe:
  "drop_choices idxs vs b = (ws, b') \<Longrightarrow> (\<And>v. v \<in> set vs \<Longrightarrow> okv fmt n v \<and> choice_free v) \<Longrightarrow> w \<in> set ws \<Longrightarrow>
    okv fmt n w \<and> choice_free w"
proof (induction vs arbitrary: b ws b')
  case (Cons v vs)
  show ?case
  proof (cases "\<exists>c d. v = JObj c \<and> jobj (map_of c ''delta'') = Some d")
    case False
    obtain us k where r: "drop_choices idxs vs b = (us, k)" by fastforce
    have ws: "ws = v # us" using Cons.prems(1) False r by (auto split: json.splits option.splits)
    have "w \<in> set us \<Longrightarrow> okv fmt n w \<and> choice_free w" using Cons.IH [OF r] Cons.prems(2) by simp
    then show ?thesis using Cons.prems(2,3) ws by auto
  next
    case True
    then obtain c d where v: "v = JObj c" and d: "jobj (map_of c ''delta'') = Some d" by blast
    define tcs where "tcs = calls_in d"
    define kept where "kept = filter (\<lambda>r. \<not> continues idxs r) tcs"
    define b1 where "b1 = (b \<or> list_ex (continues idxs) tcs)"
    define d1 where "d1 = (if tcs = [] \<or> \<not> b1 then d else if kept = [] then AList.delete ''tool_calls'' d
        else AList.update ''tool_calls'' (JArr kept) d)"
    obtain us k where r: "drop_choices idxs vs b1 = (us, k)" by fastforce
    have "drop_choices idxs (v # vs) b = (JObj (AList.update ''delta'' (JObj d1) c) # us, k)"
      using v d r by (simp add: Let_def tcs_def kept_def b1_def d1_def)
    then have ws: "ws = JObj (AList.update ''delta'' (JObj d1) c) # us" using Cons.prems(1) by simp
    have cv: "okv fmt n (JObj c)" "choice_free (JObj c)" using Cons.prems(2) v by auto
    have dv: "okv fmt (n - 1) (JObj d)" "calls_free d"
      using okv_get [OF cv(1) delta_of_choice(1) [OF d]] cv(2) delta_of_choice(2) [OF d] by (simp_all add: choice_free_def)
    have "okv fmt (n - 1) (JObj d1)"
      using dv(1) okv_delete okv_calls_update [of fmt "n - 1" d kept] by (auto simp: d1_def kept_def tcs_def)
    moreover have "calls_free d1"
      using dv(2) calls_free_filter by (auto simp: d1_def kept_def tcs_def calls_free_def calls_in_delete)
    ultimately have "okv fmt n (JObj (AList.update ''delta'' (JObj d1) c)) \<and> choice_free (JObj (AList.update ''delta'' (JObj d1) c))"
      using replace_delta_safe [OF cv] by blast
    moreover have "w \<in> set us \<Longrightarrow> okv fmt n w \<and> choice_free w"
      using Cons.IH [OF r] Cons.prems(2) by simp
    ultimately show ?thesis using Cons.prems(3) ws by auto
  qed
qed simp

lemma choices_safe:
  assumes "okv fmt n (JObj m)" "chunk_free m" "jarr (map_of m ''choices'') = Some vs" "v \<in> set vs"
  shows "okv fmt (n - 1 - 1) v \<and> choice_free v"
proof -
  have "map_of m ''choices'' = Some (JArr vs)" using assms(3) by (auto simp: jarr_def split: option.splits json.splits)
  then show ?thesis using okv_arrD [OF okv_get [OF assms(1)] assms(4)] assms(2-4) by (auto simp: chunk_free_def list_all_iff)
qed

lemma replace_choices_safe:
  assumes "okv fmt n (JObj m)" "jarr (map_of m ''choices'') = Some vs" "\<And>w. w \<in> set ws \<Longrightarrow> okv fmt (n - 1 - 1) w \<and> choice_free w"
  shows "okv fmt n (JObj (AList.update ''choices'' (JArr ws) m)) \<and> chunk_free (AList.update ''choices'' (JArr ws) m)"
proof -
  have "map_of m ''choices'' = Some (JArr vs)" using assms(2) by (auto simp: jarr_def split: option.splits json.splits)
  then have "0 < n - 1" using okv_arr_pos [OF okv_get [OF assms(1)]] by blast
  then have "okv fmt (n - 1) (JArr ws)" using assms(3) by (intro okv_arrI) auto
  then show ?thesis using okv_update [OF assms(1) keys_valid(1)] assms(3) by (simp add: chunk_free_def map_of_update jarr_def list_all_iff)
qed

subsection \<open>Texts after each stage\<close>

lemma reread_map_nil: "reread_map [] = []"
  by (simp add: reread_map_def sort_members_def)

lemma reread_jobj: "jobj (map_option reread v) = map_option reread_map (jobj v)"
  by (cases v) (auto simp: jobj_def reread_map_def reread_def split: json.splits)

lemma reread_jarr: "jarr (map_option reread v) = map_option (map reread) (jarr v)"
  by (cases v) (auto simp: jarr_def reread_def split: json.splits)

lemma reread_jstr: "jstr (map_option reread v) = map_option utf8_fix (jstr v)"
  by (cases v) (auto simp: jstr_def reread_def split: json.splits)

lemma reread_map_at: "gomap c \<Longrightarrow> map_at (reread_map c) k = reread_map (map_at c k)"
  by (cases "jobj (map_of c k)") (simp_all add: map_at_def reread_map_of reread_jobj reread_map_nil)

lemma reread_calls: "gomap d \<Longrightarrow> calls_in (reread_map d) = map reread (calls_in d)"
  by (cases "jarr (map_of d ''tool_calls'')") (simp_all add: calls_in_def reread_map_of reread_jarr)

lemma okv_map_at: "okv fmt n (JObj c) \<Longrightarrow> gomap (map_at c k) \<and> (map_at c k \<noteq> [] \<longrightarrow> okv fmt (n - 1) (JObj (map_at c k)))"
  using okv_get [of fmt n c k] okv_objD(1) by (fastforce simp: map_at_def jobj_def split: option.splits json.splits)

lemma reread_call_name: "okv fmt n r \<Longrightarrow> call_name (reread r) = ''end_turn'' \<Longrightarrow> call_name r = ''end_turn''"
proof (cases r)
  case (JObj tc)
  assume a: "okv fmt n r" "call_name (reread r) = ''end_turn''"
  let ?f = "map_at tc ''function''"
  have "gomap tc" "gomap ?f" using a(1) okv_map_at okv_objD(1) by (auto simp: JObj)
  then have "str_at (reread_map ?f) ''name'' = ''end_turn''" using a(2) by (simp add: JObj reread_obj call_name_def reread_map_at)
  then obtain x where "jstr (map_of ?f ''name'') = Some x" "utf8_fix x = ''end_turn''"
    using \<open>gomap ?f\<close> by (cases "jstr (map_of ?f ''name'')") (auto simp: str_at_def reread_map_of reread_jstr)
  then show ?thesis using utf8_fix_plain [of x] by (simp add: JObj call_name_def str_at_def word_char_def)
qed (auto simp: call_name_def reread_def)

lemma reread_calls_free: "okv fmt n (JObj d) \<Longrightarrow> calls_free d \<Longrightarrow> calls_free (reread_map d)"
  using reread_call_name okv_calls [of fmt n d] okv_arrD [of fmt "n - 1" "calls_in d"]
  by (fastforce simp: calls_free_def reread_calls okv_objD(1) list_all_iff)

lemma reread_at_free: "okv fmt n (JObj c) \<Longrightarrow> calls_free (map_at c k) \<Longrightarrow> calls_free (map_at (reread_map c) k)"
proof -
  assume a: "okv fmt n (JObj c)" "calls_free (map_at c k)"
  show ?thesis
  proof (cases "map_at c k = []")
    case True
    then show ?thesis using a okv_objD(1) [OF a(1)] by (simp add: reread_map_at reread_map_nil)
  next
    case False
    then have "okv fmt (n - 1) (JObj (map_at c k))" using okv_map_at a(1) by blast
    then show ?thesis using reread_calls_free a okv_objD(1) [OF a(1)] by (simp add: reread_map_at)
  qed
qed

lemma reread_choice_free: "okv fmt n v \<Longrightarrow> choice_free v \<Longrightarrow> choice_free (reread v)"
  using reread_at_free by (cases v) (auto simp: choice_free_def reread_obj, auto simp: reread_def)

lemma written_free: "okv fmt 9000 (JObj m) \<Longrightarrow> chunk_free m \<Longrightarrow> text_free (go_marshal fmt (JObj m))"
proof -
  assume a: "okv fmt 9000 (JObj m)" "chunk_free m"
  have "okv fmt 10000 (JObj m)" using a(1) by (simp add: okv_mono)
  then have d: "decode_object (go_marshal fmt (JObj m)) = Some (reread_map m)" by (rule decode_written)
  have j: "jarr (map_of (reread_map m) ''choices'') = map_option (map reread) (jarr (map_of m ''choices''))"
    using okv_objD(1) [OF a(1)] by (simp add: reread_map_of reread_jarr)
  have "choice_free (reread v)" if "jarr (map_of m ''choices'') = Some vs" "v \<in> set vs" for vs v
    using choices_safe [OF a that] reread_choice_free by blast
  then show ?thesis by (auto simp: text_free_def d chunk_free_def j list_all_iff split: option.splits)
qed

definition safe :: "(rat \<Rightarrow> string) \<Rightarrow> string \<Rightarrow> bool" where
  "safe fmt t \<longleftrightarrow> text_ok fmt t \<and> text_free t"

lemma safe_written: "okv fmt 9000 (JObj m) \<and> chunk_free m \<Longrightarrow> safe fmt (go_marshal fmt (JObj m))"
  by (simp add: safe_def text_ok_marshal written_free)

lemma safe_decode: "safe fmt t \<Longrightarrow> decode_object t = Some m \<Longrightarrow> okv fmt 9000 (JObj m) \<and> chunk_free m"
  using text_ok_decode by (auto simp: safe_def text_free_def)

lemma strip_stage_safe: "text_ok fmt t \<Longrightarrow> safe fmt (strip_stage fmt t)"
proof -
  assume t: "text_ok fmt t"
  show ?thesis
  proof (cases "has_part (quoted_word ''end_turn'') t")
    case False
    then show ?thesis using t unseen_text_free by (simp add: strip_stage_def safe_def)
  next
    case True
    show ?thesis
    proof (cases "decode_object t")
      case None
      then show ?thesis using t by (simp add: strip_stage_def safe_def text_free_def)
    next
      case (Some m)
      have "strip_stage fmt t = go_marshal fmt (JObj (fst (strip_end_turn m)))" using True Some by (simp add: strip_stage_def)
      then show ?thesis using strip_end_turn_safe [OF text_ok_decode [OF t Some]] safe_written by simp
    qed
  qed
qed

lemma drop_stage_safe:
  assumes "safe fmt t"
  shows "safe fmt (drop_end_turn_continuations fmt idxs t)"
proof (cases "drop_end_turn_continuations fmt idxs t = t")
  case False
  then obtain m vs ws where m: "decode_object t = Some m" "jarr (map_of m ''choices'') = Some vs" "drop_choices idxs vs False = (ws, True)"
    "drop_end_turn_continuations fmt idxs t = go_marshal fmt (JObj (AList.update ''choices'' (JArr ws) m))"
    by (auto simp: drop_end_turn_continuations_def split: if_splits option.splits prod.splits)
  have ok: "okv fmt 9000 (JObj m)" "chunk_free m" using safe_decode [OF assms m(1)] by auto
  have "okv fmt (9000 - 1 - 1) w \<and> choice_free w" if "w \<in> set ws" for w
    using drop_choices_safe [OF m(3) _ that] choices_safe [OF ok m(2)] by blast
  then show ?thesis using replace_choices_safe [OF ok(1) m(2)] safe_written m(4) by auto
qed (use assms in simp)

lemma flip_stage_safe:
  assumes "safe fmt t"
  shows "safe fmt (flip_stage fmt b old new t)"
proof (cases "flip_stage fmt b old new t = t")
  case False
  then obtain m where m: "decode_object t = Some m" "flip_stage fmt b old new t = go_marshal fmt (JObj (with_choices (map (flip_finish old new)) m))"
    by (auto simp: flip_stage_def split: if_splits option.splits)
  have ok: "okv fmt 9000 (JObj m)" "chunk_free m" using safe_decode [OF assms m(1)] by auto
  have flip: "okv fmt n v \<and> choice_free v \<Longrightarrow> okv fmt n (flip_finish old new v) \<and> choice_free (flip_finish old new v)" for n v
    using okv_update [OF _ keys_valid(5), of fmt n _ "JStr new"]
    by (cases v) (auto simp: flip_finish_def choice_free_def map_at_def map_of_update)
  have "okv fmt 9000 (JObj (with_choices (map (flip_finish old new)) m)) \<and> chunk_free (with_choices (map (flip_finish old new)) m)"
  proof (cases "jarr (map_of m ''choices'')")
    case None
    then show ?thesis using ok by (simp add: with_choices_def)
  next
    case (Some vs)
    have "okv fmt (9000 - 1 - 1) w \<and> choice_free w" if "w \<in> set (map (flip_finish old new) vs)" for w
      using that flip choices_safe [OF ok Some] by auto
    then show ?thesis using replace_choices_safe [OF ok(1) Some, of "map (flip_finish old new) vs"] by (simp add: with_choices_def Some)
  qed
  then show ?thesis using safe_written m(2) by simp
qed (use assms in simp)

lemma rewrite_stage_safe:
  assumes "safe fmt t"
  shows "safe fmt (rewrite_chat_chunk_model fmt served t)"
proof (cases "rewrite_chat_chunk_model fmt served t = t")
  case False
  then obtain m where m: "decode_object t = Some m"
    "rewrite_chat_chunk_model fmt served t = go_marshal fmt (JObj (AList.update ''model'' (JStr served) m))"
    by (auto simp: rewrite_chat_chunk_model_def split: if_splits option.splits)
  then show ?thesis
    using safe_decode [OF assms m(1)] okv_update [OF _ keys_valid(7), of fmt 9000 m "JStr served"] safe_written
    by (auto simp: chunk_free_def map_of_update)
qed (use assms in simp)

subsection \<open>Extracted calls\<close>

definition index_ok :: "int \<Rightarrow> bool" where
  "index_ok k \<longleftrightarrow> \<bar>k\<bar> \<le> 2 ^ 64"

lemma wrap_int_ok: "index_ok (wrap_int k)"
proof -
  define r where "r = (k + 2 ^ 63) mod (2 ^ 64 :: int)"
  have "0 \<le> r" "r < 2 ^ 64" by (simp_all add: r_def)
  then show ?thesis unfolding index_ok_def wrap_int_def r_def [symmetric] by (simp add: abs_le_iff)
qed

lemma bump_ok: "index_ok k \<Longrightarrow> index_ok (bump_xml_call_index tcs k)"
  unfolding bump_xml_call_index_def
  by (induction tcs arbitrary: k) (auto simp: wrap_int_ok split: option.splits)

lemma fragment_okv: "ints_spelled fmt \<Longrightarrow> index_ok k \<Longrightarrow> 2 < n \<Longrightarrow> okv fmt n (tool_call_delta_fragment k tc)"
proof -
  assume a: "ints_spelled fmt" "index_ok k" "2 < n"
  have j: "okv fmt (n - 1) (jint k)" using okv_jint a(1,2) by (simp add: index_ok_def)
  have f: "okv fmt (n - 1) (JObj [(''name'', JStr (tc_name tc)), (''arguments'', JStr (tc_args tc))])"
    by (rule okv_objI) (use a(3) keys_valid in \<open>auto simp: gomap_def\<close>)
  show ?thesis unfolding tool_call_delta_fragment_def
    by (rule okv_objI) (use a(3) j f keys_valid in \<open>auto simp: gomap_def\<close>)
qed

lemma call_fragments_safe:
  "call_fragments tcs k = (fs, k') \<Longrightarrow> ints_spelled fmt \<Longrightarrow> index_ok k \<Longrightarrow> 2 < n \<Longrightarrow>
    index_ok k' \<and> (\<forall>r \<in> set fs. okv fmt n r \<and> call_name r \<noteq> ''end_turn'')"
proof (induction tcs k arbitrary: fs k' rule: call_fragments.induct)
  case (2 tc tcs k)
  show ?case
  proof (cases "tc_name tc = ''end_turn''")
    case True
    then show ?thesis using 2 by simp
  next
    case False
    obtain gs j where g: "call_fragments tcs (wrap_int (k + 1)) = (gs, j)" by fastforce
    then have "fs = tool_call_delta_fragment k tc # gs" "k' = j" using "2.prems"(1) False by simp_all
    moreover have "call_name (tool_call_delta_fragment k tc) \<noteq> ''end_turn''"
      using False by (simp add: call_name_def tool_call_delta_fragment_def map_at_def jobj_def str_at_def jstr_def)
    ultimately show ?thesis using "2.IH"(2) [OF False g "2.prems"(2) wrap_int_ok "2.prems"(4)] fragment_okv "2.prems" by auto
  qed
qed auto

lemma content_update_safe:
  assumes "okv fmt n (JObj d)" "calls_free d"
    and "d1 = d \<or> d1 = AList.delete ''content'' d \<or> d1 = AList.update ''content'' (JStr t) d"
  shows "okv fmt n (JObj d1) \<and> calls_free d1 \<and> calls_in d1 = calls_in d"
  using assms okv_delete okv_update [OF assms(1) keys_valid(6), of "JStr t"] by (auto simp: calls_free_def calls_in_other)

lemma feed_delta_safe:
  assumes r: "feed_delta fmt rnd d s = (d', s', ch)"
    and ok: "okv fmt n (JObj d)" "calls_free d" "ints_spelled fmt" "index_ok (xs_index s)" "4 < n"
  shows "okv fmt n (JObj d') \<and> calls_free d' \<and> index_ok (xs_index s')"
proof (cases "str_at d ''content'' = []")
  case True
  then show ?thesis using assms by (simp add: feed_delta_def)
next
  case False
  obtain t calls x k where f: "feed fmt rnd (xs_draws s) (xs_x s) (str_at d ''content'') = (t, calls, x, k)" by (metis prod_cases4)
  define d1 where "d1 = (if t = str_at d ''content'' then d else if t = [] then AList.delete ''content'' d
      else AList.update ''content'' (JStr t) d)"
  have d1: "okv fmt n (JObj d1)" "calls_free d1" "calls_in d1 = calls_in d"
    using content_update_safe [OF ok(1,2), of d1 t] by (auto simp: d1_def)
  show ?thesis
  proof (cases "calls = []")
    case True
    then have "d' = d1" "xs_index s' = xs_index s" using r False f by (auto simp: feed_delta_def d1_def Let_def)
    then show ?thesis using d1 ok(4) by simp
  next
    case some: False
    obtain fs j where c: "call_fragments calls (bump_xml_call_index (calls_in d1) (xs_index s)) = (fs, j)" by fastforce
    have fs: "index_ok j" "\<forall>r \<in> set fs. okv fmt (n - 1 - 1) r \<and> call_name r \<noteq> ''end_turn''"
      using call_fragments_safe [OF c ok(3) bump_ok [OF ok(4)], of "n - 1 - 1"] ok(5) by auto
    let ?d2 = "AList.update ''tool_calls'' (JArr (calls_in d1 @ fs)) d1"
    have "feed_delta fmt rnd d s = (let s1 = s\<lparr>xs_x := x, xs_draws := k, xs_index := j\<rparr> in
        if calls_in d1 @ fs = [] then (d1, s1, True) else (?d2, s1\<lparr>xs_seen := True\<rparr>, True))"
      using False f some c by (simp add: feed_delta_def d1_def Let_def)
    then have res: "d' = (if calls_in d1 @ fs = [] then d1 else ?d2)" "xs_index s' = j" using r by (auto simp: Let_def split: if_splits)
    have "okv fmt (n - 1) (JArr (calls_in d1 @ fs))"
    proof (rule okv_arrI)
      show "0 < n - 1" using ok(5) by simp
      show "okv fmt (n - 1 - 1) v" if "v \<in> set (calls_in d1 @ fs)" for v
        using that fs(2) okv_calls [OF d1(1)] okv_arrD [of fmt "n - 1" "calls_in d1" v] by auto
    qed
    then have "okv fmt n (JObj ?d2)" by (rule okv_update [OF d1(1) keys_valid(4)])
    moreover have "calls_free ?d2" using fs(2) d1(2) by (auto simp: calls_free_def calls_in_update list_all_iff)
    ultimately show ?thesis using res d1 fs(1) by auto
  qed
qed

lemma feed_choices_safe:
  "feed_choices fmt rnd vs s = (ws, s', ch) \<Longrightarrow> (\<And>v. v \<in> set vs \<Longrightarrow> okv fmt n v \<and> choice_free v) \<Longrightarrow> ints_spelled fmt \<Longrightarrow>
    index_ok (xs_index s) \<Longrightarrow> 5 < n \<Longrightarrow> index_ok (xs_index s') \<and> (\<forall>w \<in> set ws. okv fmt n w \<and> choice_free w)"
proof (induction vs arbitrary: s ws s' ch)
  case (Cons v vs)
  show ?case
  proof (cases "\<exists>c d. v = JObj c \<and> jobj (map_of c ''delta'') = Some d")
    case False
    obtain us t b where r: "feed_choices fmt rnd vs s = (us, t, b)" by (metis prod_cases3)
    have "feed_choices fmt rnd (v # vs) s = (v # us, t, b)" using False r by (cases v) (auto split: option.splits)
    then have "ws = v # us" "s' = t" using Cons.prems(1) by simp_all
    then show ?thesis using Cons.IH [OF r _ Cons.prems(3,4,5)] Cons.prems(2) by simp
  next
    case True
    then obtain c d where v: "v = JObj c" and d: "jobj (map_of c ''delta'') = Some d" by blast
    obtain d' t b where f: "feed_delta fmt rnd d s = (d', t, b)" by (metis prod_cases3)
    obtain us u b' where r: "feed_choices fmt rnd vs t = (us, u, b')" by (metis prod_cases3)
    have "feed_choices fmt rnd (v # vs) s = (JObj (AList.update ''delta'' (JObj d') c) # us, u, b \<or> b')" using v d f r by simp
    then have ws: "ws = JObj (AList.update ''delta'' (JObj d') c) # us" "s' = u" using Cons.prems(1) by simp_all
    have cv: "okv fmt n (JObj c)" "choice_free (JObj c)" using Cons.prems(2) v by auto
    have dv: "okv fmt (n - 1) (JObj d)" "calls_free d"
      using okv_get [OF cv(1) delta_of_choice(1) [OF d]] cv(2) delta_of_choice(2) [OF d] by (simp_all add: choice_free_def)
    have d': "okv fmt (n - 1) (JObj d')" "calls_free d'" "index_ok (xs_index t)"
      using feed_delta_safe [OF f dv Cons.prems(3,4)] Cons.prems(5) by auto
    have "index_ok (xs_index u) \<and> (\<forall>w \<in> set us. okv fmt n w \<and> choice_free w)"
      by (rule Cons.IH [OF r _ Cons.prems(3) d'(3) Cons.prems(5)]) (rule Cons.prems(2), simp)
    then show ?thesis using replace_delta_safe [OF cv d'(1,2)] unfolding ws by simp
  qed
qed simp

lemma xml_stage_safe:
  assumes "safe fmt t" "ints_spelled fmt" "index_ok (xs_index s)" "stream_chat_content_to_tool_calls fmt rnd t s = (t', s')"
  shows "safe fmt t' \<and> index_ok (xs_index s')"
proof (cases "has_part (quoted_word ''content'') t \<and> (\<exists>m vs. decode_object t = Some m \<and> jarr (map_of m ''choices'') = Some vs)")
  case False
  then have "t' = t" "s' = s" using assms(4) by (auto simp: stream_chat_content_to_tool_calls_def split: if_splits option.splits)
  then show ?thesis using assms by simp
next
  case True
  then obtain m vs where m: "decode_object t = Some m" "jarr (map_of m ''choices'') = Some vs" by blast
  obtain ws u ch where f: "feed_choices fmt rnd vs s = (ws, u, ch)" by (metis prod_cases3)
  have res: "t' = (if ch then go_marshal fmt (JObj (AList.update ''choices'' (JArr ws) m)) else t)" "s' = u"
    using assms(4) True m f by (auto simp: stream_chat_content_to_tool_calls_def)
  have ok: "okv fmt 9000 (JObj m)" "chunk_free m" using safe_decode [OF assms(1) m(1)] by auto
  have "index_ok (xs_index u) \<and> (\<forall>w \<in> set ws. okv fmt (9000 - 1 - 1) w \<and> choice_free w)"
    by (rule feed_choices_safe [OF f _ assms(2,3)]) (use choices_safe [OF ok m(2)] in auto)
  then show ?thesis using replace_choices_safe [OF ok(1) m(2), of ws] safe_written res assms(1) by auto
qed

subsection \<open>Cleaned chunks\<close>

lemma okv_empty: "0 < n \<Longrightarrow> okv fmt n (JObj [])"
  by (rule okv_objI) auto

lemma fold_reasoning_okv: "okv fmt n (JObj d) \<Longrightarrow> okv fmt n (JObj (fold_reasoning env r d))"
  using okv_update [OF _ keys_valid(6)] by (simp add: fold_reasoning_def Let_def split: option.splits json.splits)

lemma clean_delta_okv:
  assumes "okv fmt n (JObj d)"
  shows "okv fmt n (JObj (clean_delta env d))"
proof -
  define b where "b = AList.delete ''reasoning'' (AList.delete ''reasoning_content'' d)"
  define e where "e = (if reasoning_of d = [] then b else fold_reasoning env (reasoning_of d)
      (AList.update ''reasoning'' (JStr (reasoning_of d)) (AList.update ''reasoning_content'' (JStr (reasoning_of d)) b)))"
  have b: "okv fmt n (JObj b)" unfolding b_def by (intro okv_delete assms)
  have "okv fmt n (JObj (AList.update ''reasoning'' (JStr x) (AList.update ''reasoning_content'' (JStr x) b)))" for x
    by (intro okv_update b keys_valid) simp_all
  then have "okv fmt n (JObj e)" using b fold_reasoning_okv by (simp add: e_def)
  moreover have "clean_delta env d = (if map_of e ''content'' = Some JNull then AList.delete ''content'' e else e)"
    by (simp add: clean_delta_def Let_def e_def b_def)
  ultimately show ?thesis using okv_delete by simp
qed

lemma num_int64_ok: "num_int64 v = Some i \<Longrightarrow> index_ok i"
proof -
  assume "num_int64 v = Some i"
  then obtain q where "i = float_int64 q" by (auto simp: num_int64_def split: option.splits json.splits)
  then show ?thesis using float_int64_range [of q] by (simp add: index_ok_def abs_le_iff)
qed

lemma in_opt_member: "x \<in> set (opt_member k v) \<Longrightarrow> \<exists>y. v = Some y \<and> x = (k, y)"
  by (auto simp: opt_member_def split: option.splits)

lemma okv_delta_at:
  assumes "okv fmt n (JObj c)" "1 < n"
  shows "okv fmt (n - 1) (JObj (map_at c k))"
proof (cases "jobj (map_of c k)")
  case None
  then show ?thesis using assms(2) by (simp add: map_at_def okv_empty)
next
  case (Some d)
  then have "map_of c k = Some (JObj d)" by (auto simp: jobj_def split: option.splits json.splits)
  from okv_get [OF assms(1) this] show ?thesis by (simp add: map_at_def Some)
qed

lemma clean_choice_okv:
  assumes "okv fmt n (JObj c)" "ints_spelled fmt" "1 < n"
  shows "okv fmt n (JObj (clean_choice env c))"
proof (rule okv_objI)
  show "0 < n" using assms(3) by simp
  show "gomap (clean_choice env c)" by (auto simp: clean_choice_def opt_member_def gomap_def split: option.splits)
  fix k v
  assume "(k, v) \<in> set (clean_choice env c)"
  then consider (i) "k = ''index''" "v = jint (case num_int64 (map_of c ''index'') of Some i \<Rightarrow> i | None \<Rightarrow> 0)"
    | (d) "k = ''delta''" "v = JObj (clean_delta env (map_at c ''delta''))"
    | (f) "k = ''finish_reason''" "v = (case map_of c ''finish_reason'' of Some v \<Rightarrow> v | None \<Rightarrow> JNull)"
    | (l) "k = ''logprobs''" "map_of c ''logprobs'' = Some v"
    using in_opt_member by (fastforce simp: clean_choice_def is_nil_def split: if_splits)
  then show "utf8_fix k = k \<and> okv fmt (n - 1) v"
  proof cases
    case i
    have "index_ok (case num_int64 (map_of c ''index'') of Some i \<Rightarrow> i | None \<Rightarrow> 0)"
      using num_int64_ok by (simp add: index_ok_def split: option.splits)
    then show ?thesis using i okv_jint [OF assms(2)] keys_valid(8) by (simp add: index_ok_def)
  next
    case d
    then show ?thesis using clean_delta_okv [OF okv_delta_at [OF assms(1,3)]] keys_valid(2) by simp
  next
    case f
    then show ?thesis using okv_get [OF assms(1)] keys_valid(5) by (simp split: option.splits)
  next
    case l
    then show ?thesis using okv_get [OF assms(1)] keys_valid(19) by simp
  qed
qed

definition members_ok :: "(rat \<Rightarrow> string) \<Rightarrow> nat \<Rightarrow> jmap \<Rightarrow> bool" where
  "members_ok fmt n m \<longleftrightarrow> (\<forall>(k, v) \<in> set m. utf8_fix k = k \<and> okv fmt n v)"

lemma members_ok_simps:
  "members_ok fmt n []" "members_ok fmt n ((k, v) # m) \<longleftrightarrow> utf8_fix k = k \<and> okv fmt n v \<and> members_ok fmt n m"
  "members_ok fmt n (a @ b) \<longleftrightarrow> members_ok fmt n a \<and> members_ok fmt n b"
  "members_ok fmt n (opt_member k w) \<longleftrightarrow> (case w of Some v \<Rightarrow> utf8_fix k = k \<and> okv fmt n v | None \<Rightarrow> True)"
  by (auto simp: members_ok_def opt_member_def split: option.splits)

lemma positive_int_ok: "positive_int v = Some i \<Longrightarrow> index_ok i"
  using num_int64_ok by (auto simp: positive_int_def split: option.splits if_splits)

lemma clean_error_okv: "okv fmt n e \<Longrightarrow> 1 < n \<Longrightarrow> okv fmt n (clean_error spr e)"
proof -
  assume a: "okv fmt n e" "1 < n"
  have words: "utf8_fix ''message'' = ''message''" "utf8_fix ''type'' = ''type''" using keys_valid by simp_all
  have two: "okv fmt n (JObj [(''message'', JStr x), (''type'', JStr y)])" for x y
    by (rule okv_objI) (use a(2) words in \<open>auto simp: gomap_def\<close>)
  have "okv fmt n (JObj (default_member k (JStr s) m))" if "okv fmt n (JObj m)" "utf8_fix k = k" for k s m
    using okv_update [OF that] that by (simp add: default_member_def)
  then show ?thesis using a two words by (cases e) (simp_all add: clean_error_def)
qed

lemma sanitize_error_okv:
  assumes "okv fmt n (JObj m)" "ints_spelled fmt" "2 < n" "map_of m ''error'' = Some e"
  shows "okv fmt n (JObj (sanitize_error spr m e))"
proof (rule okv_objI)
  show "0 < n" using assms(3) by simp
  show "gomap (sanitize_error spr m e)" by (auto simp: sanitize_error_def opt_member_def gomap_def split: option.splits)
  have "members_ok fmt (n - 1) (sanitize_error spr m e)"
    using positive_int_ok okv_jint [OF assms(2)] clean_error_okv [OF okv_get [OF assms(1,4)]] assms(3)
    by (simp add: keys_valid sanitize_error_def members_ok_simps index_ok_def split: option.splits)
  then show "\<And>k v. (k, v) \<in> set (sanitize_error spr m e) \<Longrightarrow> utf8_fix k = k \<and> okv fmt (n - 1) v" by (auto simp: members_ok_def)
qed

lemma choices_of_okv: "okv fmt n (JObj m) \<Longrightarrow> c \<in> set (choices_of m) \<Longrightarrow> okv fmt (n - 1 - 1) (JObj c)"
proof -
  assume a: "okv fmt n (JObj m)" "c \<in> set (choices_of m)"
  then obtain vs where vs: "map_of m ''choices'' = Some (JArr vs)" "c \<in> set (List.map_filter (\<lambda>x. jobj (Some x)) vs)"
    by (auto simp: choices_of_def objects_of_def jarr_def split: option.splits json.splits)
  then have "JObj c \<in> set vs" by (auto simp: List.map_filter_def jobj_def split: json.splits)
  then show ?thesis using okv_arrD [OF okv_get [OF a(1) vs(1)]] by blast
qed

lemma sanitize_okv:
  assumes "okv fmt n (JObj m)" "ints_spelled fmt" "5 < n" "index_ok now" "sanitize_chunk spr env now rnd m = Some m'"
  shows "okv fmt n (JObj m')"
proof (cases "is_nil (map_of m ''error'')")
  case False
  then obtain e where e: "map_of m ''error'' = Some e" by (auto simp: is_nil_def)
  then have "m' = sanitize_error spr m e" using assms(5) False by (simp add: sanitize_chunk_def)
  then show ?thesis using sanitize_error_okv [OF assms(1,2) _ e] assms(3) by simp
next
  case True
  define usage where "usage = (if is_nil (map_of m ''usage'') then None else map_of m ''usage'')"
  have m': "m' = [(''id'', or_str (nonempty_str (map_of m ''id'')) (''chatcmpl-'' @ rnd)),
          (''object'', or_str (nonempty_str (map_of m ''object'')) ''chat.completion.chunk''),
          (''created'', jint (case positive_int (map_of m ''created'') of Some n \<Rightarrow> n | None \<Rightarrow> now)),
          (''model'', or_str (jstr (map_of m ''model'')) []),
          (''choices'', JArr (map (\<lambda>c. JObj (clean_choice env c)) (choices_of m)))] @
          opt_member ''system_fingerprint'' (map_option JStr (nonempty_str (map_of m ''system_fingerprint''))) @
          opt_member ''usage'' usage"
    using assms(5) True by (auto simp: sanitize_chunk_def usage_def Let_def split: if_splits)
  have created: "index_ok (case positive_int (map_of m ''created'') of Some n \<Rightarrow> n | None \<Rightarrow> now)"
    using positive_int_ok assms(4) by (simp split: option.splits)
  have choices: "okv fmt (n - 1) (JArr (map (\<lambda>c. JObj (clean_choice env c)) (choices_of m)))"
  proof (rule okv_arrI)
    show "0 < n - 1" using assms(3) by simp
    show "okv fmt (n - 1 - 1) v" if "v \<in> set (map (\<lambda>c. JObj (clean_choice env c)) (choices_of m))" for v
      using that clean_choice_okv [OF choices_of_okv [OF assms(1)] assms(2)] assms(3) by auto
  qed
  show ?thesis
  proof (rule okv_objI)
    show "0 < n" using assms(3) by simp
    show "gomap m'" by (auto simp: m' opt_member_def gomap_def split: option.splits)
    have "okv fmt (n - 1) v" if "usage = Some v" for v using that okv_get [OF assms(1)] by (auto simp: usage_def split: if_splits)
    then have "members_ok fmt (n - 1) m'"
      using okv_jint [OF assms(2)] created choices by (simp add: keys_valid m' members_ok_simps index_ok_def or_str_def split: option.splits)
    then show "\<And>k v. (k, v) \<in> set m' \<Longrightarrow> utf8_fix k = k \<and> okv fmt (n - 1) v" by (auto simp: members_ok_def)
  qed
qed

subsection \<open>The whole stream\<close>

definition line_ok :: "relay_env \<Rightarrow> string \<Rightarrow> bool" where
  "line_ok env line \<longleftrightarrow> (case parse_sse_data line of None \<Rightarrow> True
   | Some data \<Rightarrow> letters_plain data \<and> (case decode_object data of None \<Rightarrow> True | Some m \<Rightarrow> okv (re_fmt env) 9000 (JObj m)))"

definition time_ok :: "int \<Rightarrow> bool" where
  "time_ok now \<longleftrightarrow> 0 < now \<and> now < 2 ^ 63"

definition event_ok :: "relay_env \<Rightarrow> relay_event \<Rightarrow> bool" where
  "event_ok env ev \<longleftrightarrow> (case ev of GotLine now ok line \<Rightarrow> time_ok now \<and> line_ok env line
     | GotError now live ok e \<Rightarrow> time_ok now | GotEnd now ok \<Rightarrow> time_ok now | _ \<Rightarrow> True)"

lemma seconds_ok: "time_ok now \<Longrightarrow> index_ok (now div 1000000000)"
proof -
  assume "time_ok now"
  then have "0 \<le> now div 1000000000" "now div 1000000000 \<le> now" "now < 2 ^ 63"
    using zdiv_mono2 [of now 1 1000000000] by (simp_all add: time_ok_def pos_imp_zdiv_nonneg_iff)
  then show ?thesis by (simp add: index_ok_def abs_le_iff)
qed

lemma sanitize_line_ok:
  assumes "sanitize_line (re_fmt env) spr think now rnd line = Some t" "line_ok env line" "ints_spelled (re_fmt env)" "index_ok now"
  shows "text_ok (re_fmt env) t"
proof -
  obtain data m where d: "parse_sse_data line = Some data" "decode_object data = Some m"
    using assms(1) by (auto simp: sanitize_line_def split: option.splits)
  have ok: "letters_plain data" "okv (re_fmt env) 9000 (JObj m)" using assms(2) d by (simp_all add: line_ok_def)
  show ?thesis
  proof (cases "fold_mode think = [] \<and> \<not> needs_sanitize m")
    case True
    then have "t = data" using assms(1) d by (simp add: sanitize_line_def)
    then show ?thesis using ok d(2) by (auto simp: text_ok_def)
  next
    case False
    then obtain m' where m': "sanitize_chunk spr think now rnd m = Some m'" "t = go_marshal (re_fmt env) (JObj m')"
      using assms(1) d by (auto simp: sanitize_line_def split: if_splits)
    then show ?thesis using sanitize_okv [OF ok(2) assms(3) _ assms(4) m'(1)] text_ok_marshal by simp
  qed
qed

lemma relay_chunk_safe:
  assumes "text_ok (re_fmt env) t" "ints_spelled (re_fmt env)" "index_ok (xs_index (rl_xml r))" "relay_chunk env t r = (t', r')"
  shows "safe (re_fmt env) t' \<and> index_ok (xs_index (rl_xml r')) \<and> rl_frames r' = rl_frames r"
proof -
  obtain idxs real where tr: "track_tool_call_indexes t (rl_ends r, rl_real r) = (idxs, real)" by fastforce
  let ?t2 = "drop_end_turn_continuations (re_fmt env) idxs (strip_stage (re_fmt env) t)"
  obtain t3 xs where x: "stream_chat_content_to_tool_calls (re_fmt env) (re_rnd env) ?t2 (rl_xml r) = (t3, xs)" by fastforce
  have s: "safe (re_fmt env) t3 \<and> index_ok (xs_index xs)"
    by (rule xml_stage_safe [OF drop_stage_safe [OF strip_stage_safe [OF assms(1)]] assms(2,3) x])
  have cap: "rl_frames (capture_stage c q) = rl_frames q \<and> rl_xml (capture_stage c q) = rl_xml q" for c q
    by (simp add: capture_stage_def Let_def split: option.splits prod.splits list.splits)
  show ?thesis
    using assms(4) s flip_stage_safe rewrite_stage_safe cap unfolding relay_chunk_def by (auto simp: Let_def tr x)
qed

lemma flush_chunk_ok:
  assumes "call_fragments calls k = (fs, k')" "ints_spelled fmt" "index_ok k" "time_ok now"
  shows "okv fmt 9000 (JObj (flush_chunk now i mo (flush_delta t fs))) \<and> chunk_free (flush_chunk now i mo (flush_delta t fs))"
proof -
  have fs: "\<forall>r \<in> set fs. okv fmt 8995 r \<and> call_name r \<noteq> ''end_turn''"
    using call_fragments_safe [OF assms(1,2,3), of 8995] by simp
  have arr: "okv fmt 8996 (JArr fs)" by (rule okv_arrI) (use fs in auto)
  have d: "okv fmt 8997 (JObj (flush_delta t fs))"
  proof (rule okv_objI)
    have "members_ok fmt 8996 (flush_delta t fs)" using arr by (simp add: flush_delta_def members_ok_simps keys_valid)
    then show "\<And>k v. (k, v) \<in> set (flush_delta t fs) \<Longrightarrow> utf8_fix k = k \<and> okv fmt (8997 - 1) v" by (auto simp: members_ok_def)
  qed (simp_all add: flush_delta_def gomap_def)
  have c: "okv fmt 8998 (JObj [(''index'', jint 0), (''delta'', JObj (flush_delta t fs))])"
  proof (rule okv_objI)
    have "members_ok fmt 8997 [(''index'', jint 0), (''delta'', JObj (flush_delta t fs))]"
      using d okv_jint [OF assms(2), of 0] by (simp add: members_ok_simps keys_valid)
    then show "\<And>k v. (k, v) \<in> set [(''index'', jint 0), (''delta'', JObj (flush_delta t fs))] \<Longrightarrow> utf8_fix k = k \<and> okv fmt (8998 - 1) v"
      by (auto simp: members_ok_def)
  qed (simp_all add: gomap_def)
  have cs: "okv fmt 8999 (JArr [JObj [(''index'', jint 0), (''delta'', JObj (flush_delta t fs))]])"
    by (rule okv_arrI) (use c in auto)
  have "okv fmt 9000 (JObj (flush_chunk now i mo (flush_delta t fs)))"
  proof (rule okv_objI)
    have "members_ok fmt 8999 (flush_chunk now i mo (flush_delta t fs))"
      using cs okv_jint [OF assms(2)] seconds_ok [OF assms(4)] by (simp add: flush_chunk_def members_ok_simps keys_valid index_ok_def)
    then show "\<And>k v. (k, v) \<in> set (flush_chunk now i mo (flush_delta t fs)) \<Longrightarrow> utf8_fix k = k \<and> okv fmt (9000 - 1) v"
      by (auto simp: members_ok_def)
  qed (simp_all add: flush_chunk_def gomap_def)
  moreover have "calls_in (flush_delta t fs) = fs" by (simp add: calls_in_def flush_delta_def jarr_def)
  then have "calls_free (flush_delta t fs)" using fs by (simp add: calls_free_def list_all_iff)
  then have "chunk_free (flush_chunk now i mo (flush_delta t fs))"
    by (simp add: chunk_free_def flush_chunk_def jarr_def choice_free_def map_at_def jobj_def, simp add: calls_free_def calls_in_def jarr_def)
  ultimately show ?thesis by blast
qed

text \<open>The invariant of the loop.\<close>

definition relay_inv :: "relay_env \<Rightarrow> relay \<Rightarrow> bool" where
  "relay_inv env r \<longleftrightarrow> index_ok (xs_index (rl_xml r)) \<and> (\<forall>t. Chunk t \<in> set (rl_frames r) \<longrightarrow> safe (re_fmt env) t)"

lemma write_chunk_inv: "relay_inv env r \<Longrightarrow> safe (re_fmt env) t \<Longrightarrow> relay_inv env (write_chunk now ok t r)"
  by (auto simp: relay_inv_def write_chunk_def)

lemma relay_line_inv:
  assumes "relay_inv env r" "ints_spelled (re_fmt env)" "time_ok now" "line_ok env line"
  shows "relay_inv env (relay_line env now ok line r)"
proof -
  define q where "q = r\<lparr>rl_xml := (rl_xml r)\<lparr>xs_draws := Suc (xs_draws (rl_xml r))\<rparr>\<rparr>"
  have q: "relay_inv env q" using assms(1) by (simp add: relay_inv_def q_def)
  let ?s = "sanitize_line (re_fmt env) (re_spr env) (re_fold env) (now div 1000000000) (re_rnd env (xs_draws (rl_xml r))) line"
  show ?thesis
  proof (cases ?s)
    case None
    then show ?thesis using q by (simp add: relay_line_def q_def)
  next
    case (Some c)
    obtain t p where t: "relay_chunk env c q = (t, p)" by fastforce
    have c: "text_ok (re_fmt env) c" by (rule sanitize_line_ok [OF Some assms(4,2) seconds_ok [OF assms(3)]])
    have "safe (re_fmt env) t \<and> relay_inv env p"
      using relay_chunk_safe [OF c assms(2) _ t] q by (auto simp: relay_inv_def)
    then have "relay_inv env (write_chunk now ok t p)" using write_chunk_inv by blast
    then show ?thesis using Some t by (simp add: relay_line_def q_def)
  qed
qed

lemma emit_flush_inv:
  assumes "relay_inv env r" "ints_spelled (re_fmt env)" "time_ok now"
  shows "relay_inv env (emit_xml_flush env now ok r)"
proof -
  obtain tx calls x n where f: "flush (re_fmt env) (re_rnd env) (xs_draws (rl_xml r)) (xs_x (rl_xml r)) = (tx, calls, x, n)"
    by (metis prod_cases4)
  obtain fs k where c: "call_fragments calls (xs_index (rl_xml r)) = (fs, k)" by fastforce
  have i: "index_ok (xs_index (rl_xml r))" using assms(1) by (simp add: relay_inv_def)
  have k: "index_ok k" using call_fragments_safe [OF c assms(2) i, of 3] by simp
  have "safe (re_fmt env) (go_marshal (re_fmt env) (JObj (flush_chunk now (rl_xid r) (rl_model r) (flush_delta tx fs))))"
    using flush_chunk_ok [OF c assms(2) i assms(3)] safe_written by blast
  moreover have "relay_inv env (r\<lparr>rl_xml := y, rl_content := z\<rparr>)" if "index_ok (xs_index y)" for y z
    using assms(1) that by (simp add: relay_inv_def)
  moreover have "relay_inv env (r\<lparr>rl_xml := y\<rparr>)" if "index_ok (xs_index y)" for y
    using assms(1) that by (simp add: relay_inv_def)
  ultimately show ?thesis using write_chunk_inv i k by (simp add: emit_xml_flush_def f c Let_def)
qed

lemma relay_step_inv:
  assumes "relay_inv env r" "ints_spelled (re_fmt env)" "event_ok env ev"
  shows "relay_inv env (relay_step env ev r)"
proof -
  have ing: "relay_inv env q \<Longrightarrow> relay_inv env ((ingest q)\<lparr>rl_stopped := True\<rparr>)" for q by (simp add: relay_inv_def ingest_def)
  have more: "relay_inv env q \<Longrightarrow> \<forall>t. Chunk t \<notin> set fs \<Longrightarrow> relay_inv env (q\<lparr>rl_frames := rl_frames q @ fs\<rparr>)" for q fs
    by (auto simp: relay_inv_def)
  have flush: "time_ok now \<Longrightarrow> relay_inv env (emit_xml_flush env now ok r)" for now ok
    using emit_flush_inv assms(1,2) by blast
  show ?thesis
  proof (cases ev)
    case Cancelled
    then show ?thesis using assms(1) by (simp add: relay_inv_def)
  next
    case (Ticked now)
    then show ?thesis using assms(1) by (auto simp: relay_inv_def)
  next
    case (GotLine now ok line)
    then show ?thesis using relay_line_inv assms by (simp add: event_ok_def)
  next
    case (GotError now live ok e)
    then show ?thesis using assms(1,3) ing more flush by (simp add: Let_def event_ok_def)
  next
    case (GotEnd now ok)
    then show ?thesis using assms(1,3) ing more flush by (simp add: Let_def event_ok_def)
  qed
qed

lemma relay_stream_inv:
  assumes "ints_spelled (re_fmt env)" "list_all (event_ok env) evs"
  shows "relay_inv env (relay_stream env served now evs)"
proof -
  have "relay_inv env r \<Longrightarrow> list_all (event_ok env) evs \<Longrightarrow> relay_inv env (foldl (\<lambda>r ev. relay_step env ev r) r evs)" for r evs
    using relay_step_inv assms(1) by (induction evs arbitrary: r) (simp_all del: relay_step.simps)
  moreover have "relay_inv env (start_relay served now)" by (simp add: relay_inv_def start_relay_def index_ok_def)
  ultimately show ?thesis using assms(2) by (simp add: relay_stream_def)
qed

text \<open>
  C36: Whatever a stream carries and however its lines, ticks, errors and failed writes are ordered, no
  frame relayed to the client has a tool call named end_turn, as long as no line writes a letter as an
  escape: the words the stages look for in the texts then miss no chunk.
\<close>

theorem no_end_turn_relayed:
  assumes "ints_spelled (re_fmt env)" "list_all (event_ok env) evs"
    and "Chunk t \<in> set (rl_frames (relay_stream env served now evs))" "decode_object t = Some m"
  shows "chunk_free m"
  using relay_stream_inv [OF assms(1,2), of served now] assms(3,4) safe_decode by (auto simp: relay_inv_def)

definition plain_fmt :: "rat \<Rightarrow> string" where
  "plain_fmt q = int_text \<lfloor>q\<rfloor>"

definition plain_env :: relay_env where
  "plain_env = \<lparr>re_fmt = plain_fmt, re_spr = (\<lambda>v. []), re_fold = [], re_rnd = (\<lambda>n. ''00'')\<rparr>"

definition end_turn_text :: string where
  "end_turn_text = dq ''{~choices~:[{~delta~:{~tool_calls~:[{~function~:{~name~:~end_turn~}}]}}]}''"

definition end_turn_chunk :: jmap where
  "end_turn_chunk = [(''choices'', JArr [JObj [(''delta'', JObj [(''tool_calls'',
     JArr [JObj [(''function'', JObj [(''name'', JStr ''end_turn'')])]])])]])]"

definition stripped_text :: string where
  "stripped_text = dq ''{~choices~:[{~delta~:{},~finish_reason~:null,~index~:0}],~created~:5,~id~:~chatcmpl-00~,~model~:~~,~object~:~chat.completion.chunk~}''"

definition stripped_chunk :: jmap where
  "stripped_chunk = [(''choices'', JArr [JObj [(''delta'', JObj []), (''finish_reason'', JNull), (''index'', jint 0)]]), (''created'', jint 5),
     (''id'', JStr ''chatcmpl-00''), (''model'', JStr []), (''object'', JStr ''chat.completion.chunk'')]"

definition end_turn_events :: "relay_event list" where
  "end_turn_events = [GotLine 5000000000 True (''data: '' @ end_turn_text), GotEnd 6000000000 True]"

definition finish_with :: "string \<Rightarrow> string" where
  "finish_with sep = dq (''{~choices~:[{~finish_reason~:'' @ sep @ ''~tool_calls~}]}'')"

lemma plain_ints: "ints_spelled (re_fmt plain_env)"
  using lex_num_int int_text_head by (auto simp: ints_spelled_def plain_env_def plain_fmt_def num_spelled_def value_end_def)

lemma end_turn_parsed: "parse_sse_data (''data: '' @ end_turn_text) = Some end_turn_text" "letters_plain end_turn_text"
    "decode_object end_turn_text = Some end_turn_chunk"
  by code_simp+

lemma end_turn_relayed:
  "rl_frames (relay_stream plain_env [] 5000000000 end_turn_events) = [Comment ''connecting'', Chunk stripped_text, DoneFrame]"
  by code_simp

lemma stripped_decoded: "decode_object stripped_text = Some stripped_chunk"
  by code_simp

lemma end_turn_ok: "list_all (event_ok plain_env) end_turn_events"
  using end_turn_parsed
  by (simp add: end_turn_events_def event_ok_def time_ok_def line_ok_def okv_def end_turn_chunk_def gomap_def) code_simp

lemma no_end_turn_relayed_witness:
  "Chunk stripped_text \<in> set (rl_frames (relay_stream plain_env [] 5000000000 end_turn_events)) \<and> chunk_free stripped_chunk \<and> \<not> chunk_free end_turn_chunk"
  using no_end_turn_relayed [OF plain_ints end_turn_ok, of stripped_text "[]" 5000000000 stripped_chunk] stripped_decoded
  by (simp add: end_turn_relayed) code_simp

text \<open>With a space after the colon the finish reason is not found, so it is not corrected.\<close>

lemma spaced_finish_kept:
  "flip_stage plain_fmt True ''tool_calls'' ''stop'' (finish_with []) = dq ''{~choices~:[{~finish_reason~:~stop~}]}''"
  "flip_stage plain_fmt True ''tool_calls'' ''stop'' (finish_with '' '') = finish_with '' ''"
  by code_simp+

end
