(* ===== verification/Spec2Isabelle.thy ===== *)
theory Spec2Isabelle
  imports RunProperties SessionProperties SessionViews ServerEngine ReasoningCache ConvertRequest RelaySafety
begin

text \<open>
  A verification library for freebuff-proxy, a local gateway that serves the OpenAI and Anthropic
  protocols from a pool of upstream accounts.  Paths are relative to \<open>src/internal\<close>.

  \<^bold>\<open>The program.\<close>  A completion request enters \<open>server\<close> (\<open>chatCore\<close>), which asks the \<open>pool\<close> for a
  lease: one token of the pool with an upstream session for the model (\<open>session\<close>) and an agent run
  (\<open>runs\<close>).  The chat is sent with the ids of the lease and relayed; a failure cools the token
  down, drops its session or its run, and is retried at most once.  Sessions, runs and their
  trace ids survive a restart in a state file (\<open>session/store.go\<close>).  Every part keeps its state
  behind a mutex and is called by many goroutines.

  \<^bold>\<open>How concurrency is modelled.\<close>  A goroutine is a list of tasks, a task is one section of the code
  between two points where it gives a mutex up or makes a call that takes time, and \<open>exec\<close> of a
  component runs one task under an environment (the clock, the caller's context, the upstream's
  answer, the choice of a \<open>select\<close>).  \<open>None\<close> is a task that has to wait.  The locale \<open>goroutines\<close> of
  \<open>Threads\<close> gives reachability, the induction over interleavings and the replay of schedules that
  the witnesses use; it is interpreted for the gate, the session manager and the admission of the
  pool.  The runs manager has its own step relation of the same form.

  \<^bold>\<open>The theories.\<close>
  \<^item> \<open>Prelude\<close>: Go maps as association lists, heaps, Go slices.  \<open>Threads\<close>: goroutines.  \<open>GoTime\<close>:
    instants, durations, time zones and the civil calendar.  \<open>GoJson\<close>: \<open>encoding/json\<close> reading,
    \<open>strconv\<close> and \<open>strings\<close> as far as the components decode text.
  \<^item> \<open>UpstreamErr\<close> (\<open>upstream/errors.go\<close>, \<open>ratelimit.go\<close>): the error values, \<open>errors.Is\<close> and
    \<open>errors.As\<close>, their texts, and the cooldowns computed from upstream retry fields.
  \<^item> \<open>RunCooldown\<close> (\<open>runs/cooldown.go\<close>): the cooldown memory of a token.  One error is remembered at
    a time, each refusal locks for a bounded time, the third \<open>ip_capped\<close> of a Pacific day locks
    until midnight.  The locale \<open>cooldown_kind\<close> states what the four kinds of error share.
  \<^item> \<open>RunModel\<close>, \<open>RunLifecycle\<close>, \<open>RunIds\<close>, \<open>RunProperties\<close> (\<open>runs/runs.go\<close>, \<open>steps.go\<close>, \<open>drain.go\<close>): acquiring,
    rotating, releasing and finishing runs, the FINISH queue with its worker, the draining list,
    shutdown.  A \<open>Run\<close> object is finished at most once, never while leased, never lost, started by
    one goroutine at a time, and not at all after shutdown.  \<open>RunIds\<close>: the same counted by upstream
    run id, where an adoption from the store is an entry of its own (the ghost \<open>LAdopt\<close>); a run that is
    adopted while its FINISH is in flight is leased while finished, and finished twice.
  \<^item> \<open>SessionStore\<close> (\<open>session/store.go\<close>): the state file under failing reads and writes; the round
    trip across a restart, and the removal that is lost when the file is unreadable.
  \<^item> \<open>SessionReply\<close>, \<open>SessionModel\<close>, \<open>SessionSteps\<close> (\<open>session/*.go\<close>): the session manager of a token
    (\<open>EnsureSessionForModel\<close> and the refresh it leads, poll, invalidation, shutdown) as a machine of
    sections.  \<open>SessionInvariants\<close>, \<open>SessionSafety\<close>, \<open>SessionProgress\<close>: single flight, closed
    channels, the usable session, the bound on sections, the re-admit of an expiring session.
    \<open>SessionViews\<close>: the snapshots the pool decides on.  \<open>SessionProperties\<close> collects what follows.
  \<^item> \<open>PoolGate\<close> (\<open>pool/create_gate.go\<close>): the gate on session creations refines a counting semaphore
    (locale \<open>slots\<close>) and loses no wake-up.  \<open>PacificTime\<close>, \<open>SpendLedger\<close> (\<open>pool/spend.go\<close>): the Pacific
    periods and the spend counted in them.  \<open>PoolQuota\<close> (\<open>quota.go\<close>, \<open>scarce.go\<close>, \<open>unfit.go\<close>): the
    memories by which a token or a model is left alone.  \<open>PoolOrder\<close>, \<open>PoolAcquire\<close> (\<open>acquire.go\<close>):
    the order of the tokens and one failover pass, with what a lease guarantees.  \<open>PoolAdmission\<close>:
    \<open>Acquire\<close> with its leaders and followers, and the deadlock of a cycle of quota fallbacks.
  \<^item> \<open>RateLimiter\<close> (\<open>ratelimit/limiter.go\<close>): the token bucket and the bound it puts on a client.
  \<^item> \<open>ServerEngine\<close> (\<open>server/engine.go\<close>): \<open>chatCore\<close> and \<open>chatAttempt\<close> over the leases of the pool;
    every lease is given back, the retry loop equals a straight-line description.
  \<^item> \<open>GoText\<close>: \<open>strings.TrimSpace\<close>, \<open>ToLower\<close> and SHA-256.  \<open>ReasoningCache\<close>
    (\<open>reasoningcache/cache.go\<close>): the reasoning text of earlier completions; a lookup returns the
    newest of the last stored, which the refinement to a log of what was stored shows.
  \<^item> \<open>ConvertEffort\<close> (\<open>convert/effort.go\<close>), \<open>SchemaNormal\<close> (\<open>schemacache.go\<close>), \<open>ConvertRequest\<close>
    (\<open>convert.go\<close>): the rewriting of a request body.  The effort is clamped to the rungs of a model,
    tool schemas are normalised under a depth and a node budget through a transparent cache, only
    whitelisted parameters are sent, and the compression drops plain turns only, no recent ones.
  \<^item> \<open>GoMarshal\<close>: the text \<open>json.Marshal\<close> gives a value, with the round trip through the reader of
    \<open>GoJson\<close>.  \<open>JsonProbe\<close>: when a word of a value stands in its text.  \<open>JsonEval\<close>: equations by which the
    witnesses decode concrete texts.  \<open>GoRegexp\<close>: leftmost-first matching with groups.
  \<^item> \<open>StreamChunk\<close> (\<open>convert/sse.go\<close>): the frames and the clean-up of one chunk; its fast path equals the
    clean-up, and either way the chunk has the shape clients expect.  \<open>StreamXml\<close>
    (\<open>accumulator_xml.go\<close>): tool calls written as XML or fenced JSON; no byte of a stream is lost.
    \<open>Accumulate\<close> (\<open>accumulator.go\<close>): the completion put together from chunks, a refinement of
    fragments grouped by index.
  \<^item> \<open>ChatRelay\<close> (\<open>server/openai_stream.go\<close>, \<open>engine_sse.go\<close>, \<open>streamxml_openai.go\<close>): \<open>relayStream\<close> as one
    step per event and \<open>relayJSON\<close>.  \<open>RelaySafety\<close>: every frame written is free of the pseudo call
    \<open>end_turn\<close>, although each stage only looks at texts that have certain words.

  \<^bold>\<open>State and operations.\<close>  A struct is a record whose fields keep the order of the code, an
  error a constructor of \<open>gerr\<close>, a Go map an association list with distinct keys whose order stands
  for the unspecified iteration order (no lemma assumes anything of it), a pointer a number into a
  heap.  A panic is \<open>None\<close> or a constructor of the outcome.  Definitions keep the names of the code
  in snake case; \<open>map_of\<close>, \<open>AList.update\<close> and \<open>AList.delete\<close> are the reads and writes of Go maps.

  \<^bold>\<open>Bounds and fuel.\<close>  Times are unbounded integers of nanoseconds; where the code can leave 64 bits
  the saturation of \<open>Time.Sub\<close> and the wrap-around of products are written out (\<open>tsub\<close>, \<open>wrap64\<close>).
  A \<open>float64\<close> is a rational, not rounded.  Loops are structural recursion over the list the code ranges over,
  or functions with a measure (\<open>chat_loop\<close>: the attempts left of two); the refresh loops carry the
  code's own bounds (\<open>max_outer_iterations\<close>, \<open>max_refresh_iterations\<close>), and the theorem on the
  sections of \<open>EnsureSessionForModel\<close> shows that they end.  No definition takes fuel.

  \<^bold>\<open>Assumed of code outside the models.\<close>  The upstream, the operating system and the clock are the
  environments of the steps; nothing is assumed of their answers.  A time zone is a function from
  instants to offsets; theorems about midnights name the zone they hold for.
  In the engine the rewriting of a body is a parameter; \<open>ConvertRequest\<close> models it.  The text
  \<open>json.Marshal\<close> gives a value is a parameter of the schema cache, whose transparency is stated for
  schemas with distinct hashes.  In \<open>GoMarshal\<close> the shortest decimal of a number that is no small
  integer is a parameter \<open>fmt\<close>; \<open>num_spelled\<close> says that it is read back as the number.  The words a
  stream may not write with escapes are those of \<open>letters_plain\<close>.

  \<^bold>\<open>Not modelled.\<close>  The routing of requests, the Anthropic and Responses wire formats, the admin
  pages and the dashboard, the upstream HTTP client with its TLS profiles, configuration reading,
  the model registry's fetch, telemetry and log records, bridge entries and the maintenance tick
  of the pool, the command line.  They are I/O, presentation or field-by-field glue around the
  state machines above, or are left for a later extension; the manifest lists each with its
  reason.
\<close>

end
